(* ===== verification/Grpcw_Prelude.thy ===== *)
theory Grpcw_Prelude
  imports Main
begin

text \<open>
  Shared vocabulary of the development: object addresses and \<open>operator new\<close>, the part of
  \<open>std::unordered_map\<close> the sources use, threads held by a \<open>std::unique_ptr<std::thread>\<close>, C++
  integer division, and the collections of rewrite rules the component theories add to.

  A pointer is a natural number and \<open>nullptr\<close> is 0. An allocation is a function from the
  addresses of the live objects to an address; \<open>operator_new\<close> is the one promise made of it: the
  new address is not null and not the address of a live object. Addresses of destroyed objects
  may be handed out again.
\<close>

named_theorems umap_simps \<open>lookup, key and membership equations of the unordered_map model\<close>
named_theorems component_defs \<open>definitions a component unfolds in its own proofs\<close>

section \<open>Addresses\<close>

type_synonym ptr = nat

abbreviation (input) nullptr :: ptr where
  "nullptr \<equiv> 0"

definition operator_new :: "(ptr list \<Rightarrow> ptr) \<Rightarrow> bool" where
  "operator_new new \<longleftrightarrow> (\<forall>used. new used \<notin> set used \<and> new used \<noteq> nullptr)"

text \<open>A concrete allocator that keeps the promise, used by witnesses.\<close>

definition bump_new :: "ptr list \<Rightarrow> ptr" where
  "bump_new used = Suc (foldr max used 0)"

lemma le_foldr_max: "x \<in> set xs \<Longrightarrow> x \<le> foldr max xs (0::nat)"
  by (induction xs) auto

lemma operator_new_bump [simp]: "operator_new bump_new"
  by (auto simp: operator_new_def bump_new_def dest: le_foldr_max)

lemma operator_newD:
  assumes "operator_new new"
  shows "new used \<notin> set used" and "new used \<noteq> nullptr"
  using assms by (simp_all add: operator_new_def)

section \<open>Unordered maps\<close>

text \<open>
  A \<open>std::unordered_map\<close> is an association list whose order is the iteration order. The order is
  unspecified in C++, so every theorem is about all lists. \<open>emplace\<close> leaves the map alone when the
  key is present, \<open>erase\<close> removes the key, \<open>find\<close> and \<open>at\<close> are \<open>map_of\<close>.
\<close>

type_synonym ('k, 'v) umap = "('k \<times> 'v) list"

definition um_keys :: "('k, 'v) umap \<Rightarrow> 'k list" where
  "um_keys m = map fst m"

definition um_emplace :: "'k \<Rightarrow> 'v \<Rightarrow> ('k, 'v) umap \<Rightarrow> ('k, 'v) umap" where
  "um_emplace k v m = (if k \<in> set (um_keys m) then m else m @ [(k, v)])"

definition um_erase :: "'k \<Rightarrow> ('k, 'v) umap \<Rightarrow> ('k, 'v) umap" where
  "um_erase k m = filter (\<lambda>e. fst e \<noteq> k) m"

definition um_adjust :: "('v \<Rightarrow> 'v) \<Rightarrow> 'k \<Rightarrow> ('k, 'v) umap \<Rightarrow> ('k, 'v) umap" where
  "um_adjust f k m = map (\<lambda>e. if fst e = k then (k, f (snd e)) else e) m"

definition um_ok :: "('k, 'v) umap \<Rightarrow> bool" where
  "um_ok m \<longleftrightarrow> distinct (um_keys m)"

lemma um_keys_simps [simp, umap_simps]:
  "um_keys [] = []"
  "um_keys (e # m) = fst e # um_keys m"
  "um_keys (m @ m') = um_keys m @ um_keys m'"
  by (simp_all add: um_keys_def)

lemma map_of_None_um_keys [umap_simps]: "map_of m k = None \<longleftrightarrow> k \<notin> set (um_keys m)"
  by (induction m) auto

lemma map_of_Some_um_keys: "map_of m k = Some v \<Longrightarrow> k \<in> set (um_keys m)"
  by (induction m) (auto split: if_splits)

lemma in_um_keys_map_of: "k \<in> set (um_keys m) \<longleftrightarrow> (\<exists>v. map_of m k = Some v)"
  by (induction m) auto

lemma map_of_um_emplace [umap_simps]:
  "map_of (um_emplace k v m) j =
     (if j = k \<and> k \<notin> set (um_keys m) then Some v else map_of m j)"
  by (induction m) (auto simp: um_emplace_def)

lemma map_of_um_erase [umap_simps]:
  "map_of (um_erase k m) j = (if j = k then None else map_of m j)"
  by (induction m) (auto simp: um_erase_def)

lemma set_keys_um_emplace [umap_simps]:
  "set (um_keys (um_emplace k v m)) = insert k (set (um_keys m))"
  by (auto simp: um_emplace_def)

lemma set_keys_um_erase [umap_simps]:
  "set (um_keys (um_erase k m)) = set (um_keys m) - {k}"
  by (induction m) (auto simp: um_erase_def)

lemma keys_um_adjust [simp, umap_simps]: "um_keys (um_adjust f k m) = um_keys m"
  by (induction m) (auto simp: um_adjust_def um_keys_def)

lemma map_of_um_adjust [umap_simps]:
  "map_of (um_adjust f k m) j = (if j = k then map_option f (map_of m k) else map_of m j)"
  by (induction m) (auto simp: um_adjust_def)

lemma count_list_distinct: "distinct xs \<Longrightarrow> count_list xs x = (if x \<in> set xs then 1 else 0)"
  by (induction xs) auto

lemma um_ok_Nil [simp]: "um_ok []"
  by (simp add: um_ok_def)

lemma um_ok_emplace [simp, intro]: "um_ok m \<Longrightarrow> um_ok (um_emplace k v m)"
  by (auto simp: um_ok_def um_emplace_def)

lemma um_ok_erase [simp, intro]: "um_ok m \<Longrightarrow> um_ok (um_erase k m)"
  unfolding um_ok_def um_keys_def um_erase_def by (rule distinct_map_filter)

lemma um_erase_absent: "k \<notin> set (um_keys m) \<Longrightarrow> um_erase k m = m"
  by (induction m) (auto simp: um_erase_def)

lemma um_emplace_fresh: "k \<notin> set (um_keys m) \<Longrightarrow> um_emplace k v m = m @ [(k, v)]"
  by (simp add: um_emplace_def)

lemma um_keys_erase: "um_keys (um_erase k m) = filter (\<lambda>j. j \<noteq> k) (um_keys m)"
  by (induction m) (auto simp: um_erase_def)

lemma um_erase_split:
  assumes "um_ok m" and "map_of m k = Some v"
  shows "\<exists>xs ys. m = xs @ (k, v) # ys \<and> um_erase k m = xs @ ys"
proof -
  from assms(2) obtain xs ys where m: "m = xs @ (k, v) # ys"
    by (meson map_of_SomeD split_list)
  with assms(1) have "k \<notin> set (um_keys xs)" "k \<notin> set (um_keys ys)"
    by (auto simp: um_ok_def)
  then have "um_erase k m = xs @ ys"
    using um_erase_absent [of k xs] um_erase_absent [of k ys] by (simp add: m um_erase_def)
  with m show ?thesis by blast
qed

lemma um_erase_emplace_fresh:
  "k \<notin> set (um_keys m) \<Longrightarrow> um_erase k (um_emplace k v m) = m"
  by (simp add: um_emplace_fresh um_erase_def) (metis um_erase_absent um_erase_def)

section \<open>Threads owned by a pointer\<close>

text \<open>
  The states of a \<open>std::unique_ptr<std::thread>\<close>: null, running, returned but not yet joined, and
  joined. Destroying or replacing a thread that is still joinable calls \<open>std::terminate\<close>.
\<close>

datatype thread_state = NoThread | Running | Returned | Joined

fun joinable :: "thread_state \<Rightarrow> bool" where
  "joinable Running = True"
| "joinable Returned = True"
| "joinable NoThread = False"
| "joinable Joined = False"

section \<open>Integer division\<close>

text \<open>C++ integer division rounds towards zero.\<close>

definition c_div :: "int \<Rightarrow> int \<Rightarrow> int" where
  "c_div a b = sgn a * sgn b * (\<bar>a\<bar> div \<bar>b\<bar>)"

lemma c_div_nonneg: "0 \<le> a \<Longrightarrow> 0 < b \<Longrightarrow> c_div a b = a div b"
  by (cases "a = 0") (simp_all add: c_div_def)

lemma c_div_minus: "c_div (- a) b = - c_div a b"
  by (simp add: c_div_def)

end
