(* ===== verification/Tag_Table.thy ===== *)
theory Tag_Table
  imports Grpcw_Prelude
begin

text \<open>
  Completion-queue tags: \<open>grpcw::server::detail::Tag\<close> and its table
  (include/grpcw/server/detail/tag.hpp, src/grpcw/server/detail/tag.cpp), and the copy of it in
  the example, \<open>grpcw::Tag\<close> with the \<open>Tagger\<close> (example/src/shared/tag.cpp, tagger.cpp).

  \<open>make_tag\<close> allocates a tag, stores it under its own address and returns the address; \<open>get_tag\<close>
  takes the tag for an address out of the table. The locale \<open>tag_store\<close> says what the two promise
  together and is interpreted on both tables.
\<close>

section \<open>grpcw::server::detail\<close>

datatype tag_label = Writing | Done

record tag =
  tag_data :: ptr
  label :: tag_label

definition mk_Tag :: "ptr \<Rightarrow> tag_label \<Rightarrow> tag" where
  "mk_Tag d l = \<lparr>tag_data = d, label = l\<rparr>"

type_synonym tags = "(ptr, tag) umap"

text \<open>The stream operator; the text of a pointer is left to \<open>show_ptr\<close>.\<close>

definition print_tag :: "(ptr \<Rightarrow> string) \<Rightarrow> tag \<Rightarrow> string" where
  "print_tag show_ptr t = ''{'' @ show_ptr (tag_data t) @ '', '' @
     (case label t of Done \<Rightarrow> ''done'' | Writing \<Rightarrow> ''writing'') @ ''}''"

definition make_tag :: "(ptr list \<Rightarrow> ptr) \<Rightarrow> ptr \<Rightarrow> tag_label \<Rightarrow> tags \<Rightarrow> ptr \<times> tags" where
  "make_tag new d l ts = (let result = new (um_keys ts) in (result, um_emplace result (mk_Tag d l) ts))"

datatype tag_error = AssertTagFound | TagDoesNotExist

definition get_tag :: "ptr \<Rightarrow> tags \<Rightarrow> tag_error + (tag \<times> tags)" where
  "get_tag key ts =
     (case map_of ts key of
        None \<Rightarrow> Inl AssertTagFound
      | Some tag_copy \<Rightarrow> Inr (tag_copy, um_erase key ts))"

section \<open>The example's tags\<close>

datatype example_label =
  ClientConnectionChange | ClientFinished | ServerNewRpc | ServerWriting | ServerDone

record example_tag =
  ex_data :: ptr
  ex_label :: example_label

definition mk_example_Tag :: "ptr \<Rightarrow> example_label \<Rightarrow> example_tag" where
  "mk_example_Tag d l = \<lparr>ex_data = d, ex_label = l\<rparr>"

type_synonym example_tags = "(ptr, example_tag) umap"

fun show_label :: "example_label \<Rightarrow> string" where
  "show_label ClientConnectionChange = ''ClientConnectionChange''"
| "show_label ClientFinished = ''ClientFinished''"
| "show_label ServerNewRpc = ''ServerNewRpc''"
| "show_label ServerDone = ''ServerDone''"
| "show_label ServerWriting = ''ServerWriting''"

definition print_example_tag :: "(ptr \<Rightarrow> string) \<Rightarrow> example_tag \<Rightarrow> string" where
  "print_example_tag show_ptr t =
     ''{'' @ show_ptr (ex_data t) @ '', '' @ show_label (ex_label t) @ ''}''"

definition example_make_tag ::
    "(ptr list \<Rightarrow> ptr) \<Rightarrow> ptr \<Rightarrow> example_label \<Rightarrow> example_tags \<Rightarrow> ptr \<times> example_tags" where
  "example_make_tag new d l ts =
     (let result = new (um_keys ts) in (result, um_emplace result (mk_example_Tag d l) ts))"

definition example_get_tag :: "ptr \<Rightarrow> example_tags \<Rightarrow> tag_error + (example_tag \<times> example_tags)" where
  "example_get_tag key ts =
     (case map_of ts key of
        None \<Rightarrow> Inl TagDoesNotExist
      | Some tag_copy \<Rightarrow> Inr (tag_copy, um_erase key ts))"

text \<open>The \<open>Tagger\<close> owns a table and calls the two functions with its mutex held.\<close>

record tagger =
  tagger_tags :: example_tags

definition tagger_make_tag :: "(ptr list \<Rightarrow> ptr) \<Rightarrow> ptr \<Rightarrow> example_label \<Rightarrow> tagger \<Rightarrow> ptr \<times> tagger" where
  "tagger_make_tag new d l t =
     (let (result, ts) = example_make_tag new d l (tagger_tags t) in (result, t\<lparr>tagger_tags := ts\<rparr>))"

definition tagger_get_tag :: "ptr \<Rightarrow> tagger \<Rightarrow> tag_error + (example_tag \<times> tagger)" where
  "tagger_get_tag key t =
     (case example_get_tag key (tagger_tags t) of
        Inl e \<Rightarrow> Inl e
      | Inr (tag_copy, ts) \<Rightarrow> Inr (tag_copy, t\<lparr>tagger_tags := ts\<rparr>))"

section \<open>What a tag table promises\<close>

locale tag_store =
  fixes lookup :: "'s \<Rightarrow> ptr \<Rightarrow> 't option"
    and make :: "(ptr list \<Rightarrow> ptr) \<Rightarrow> 't \<Rightarrow> 's \<Rightarrow> ptr \<times> 's"
    and take_out :: "ptr \<Rightarrow> 's \<Rightarrow> tag_error + ('t \<times> 's)"
  assumes make_fresh: "operator_new new \<Longrightarrow> make new t s = (p, s') \<Longrightarrow> lookup s p = None \<and> p \<noteq> nullptr"
    and make_lookup: "operator_new new \<Longrightarrow> make new t s = (p, s') \<Longrightarrow> lookup s' = (lookup s)(p \<mapsto> t)"
    and take_missing: "(\<exists>e. take_out k s = Inl e) \<longleftrightarrow> lookup s k = None"
    and take_found: "take_out k s = Inr (t, s') \<Longrightarrow> lookup s k = Some t \<and> lookup s' = (lookup s)(k := None)"
begin

lemma take_present: "lookup s k = Some t \<Longrightarrow> \<exists>s'. take_out k s = Inr (t, s') \<and> lookup s' = (lookup s)(k := None)"
  using take_missing [of k s] take_found [of k s] by (cases "take_out k s") force+

lemma take_make:
  assumes "operator_new new" and "make new t s = (p, s')"
  shows "\<exists>s''. take_out p s' = Inr (t, s'') \<and> lookup s'' = lookup s"
  using take_present [of s' p t] make_lookup [OF assms] make_fresh [OF assms]
  by (auto simp: fun_eq_iff)

lemma take_other_make:
  assumes "operator_new new" and "make new t s = (p, s')" and "lookup s k = Some u"
  shows "k \<noteq> p \<and> (\<exists>s''. take_out k s' = Inr (u, s'') \<and> lookup s'' = (lookup s)(k := None, p \<mapsto> t))"
proof -
  have "k \<noteq> p" using make_fresh [OF assms(1,2)] assms(3) by auto
  moreover from this have "lookup s' k = Some u" using make_lookup [OF assms(1,2)] assms(3) by simp
  ultimately show ?thesis
    using take_present [of s' k u] make_lookup [OF assms(1,2)] by (auto simp: fun_upd_twist)
qed

lemma take_twice: "take_out k s = Inr (t, s') \<Longrightarrow> \<exists>e. take_out k s' = Inl e"
  using take_missing [of k s'] take_found [of k s] by auto

end

lemmas tag_defs = make_tag_def get_tag_def mk_Tag_def example_make_tag_def example_get_tag_def
  mk_example_Tag_def tagger_make_tag_def tagger_get_tag_def

interpretation server_tags: tag_store map_of "\<lambda>new t. make_tag new (tag_data t) (label t)" get_tag
  by unfold_locales
    (auto simp: tag_defs Let_def fun_eq_iff umap_simps dest: operator_newD map_of_Some_um_keys split: option.splits)

interpretation example_tagger: tag_store "\<lambda>t. map_of (tagger_tags t)"
    "\<lambda>new t. tagger_make_tag new (ex_data t) (ex_label t)" tagger_get_tag
  by unfold_locales
    (auto simp: tag_defs Let_def fun_eq_iff umap_simps dest: operator_newD map_of_Some_um_keys split: option.splits sum.splits)

section \<open>Facts about the server's table used by the stream handler\<close>

lemma make_tag_keys:
  assumes "operator_new new" and "make_tag new d l ts = (p, ts')"
  shows "ts' = ts @ [(p, mk_Tag d l)] \<and> p \<notin> set (um_keys ts) \<and> p \<noteq> nullptr"
  using assms operator_newD [OF assms(1), of "um_keys ts"]
  by (auto simp: make_tag_def Let_def um_emplace_fresh)

lemma get_tag_Inr:
  "get_tag k ts = Inr (t, ts') \<longleftrightarrow> map_of ts k = Some t \<and> ts' = um_erase k ts"
  by (auto simp: get_tag_def split: option.splits)

lemma get_tag_Inl: "get_tag k ts = Inl e \<longleftrightarrow> k \<notin> set (um_keys ts) \<and> e = AssertTagFound"
  by (auto simp: get_tag_def umap_simps dest: map_of_Some_um_keys split: option.splits)

section \<open>Properties\<close>

text \<open>
  Claim C33. A tag made by \<open>make_tag\<close> is handed back unchanged, exactly once: the first \<open>get_tag\<close> for
  its address returns the data and label it was made with and restores the table, and a second
  \<open>get_tag\<close> for the same address fails the assertion.
\<close>

theorem make_get_tag_roundtrip:
  assumes "operator_new new" and "make_tag new d l ts = (p, ts')"
  shows "p \<noteq> nullptr \<and> get_tag p ts' = Inr (mk_Tag d l, ts) \<and> get_tag p ts = Inl AssertTagFound"
  using make_tag_keys [OF assms]
  by (auto simp: get_tag_def map_of_None_um_keys map_add_def um_erase_def um_erase_absent
      dest: map_of_Some_um_keys split: option.splits)
    (metis um_erase_absent um_erase_def)

theorem make_get_tag_roundtrip_witness:
  "make_tag bump_new 40 Writing [(7, mk_Tag 30 Done)] = (8, [(7, mk_Tag 30 Done), (8, mk_Tag 40 Writing)])
   \<and> get_tag 8 [(7, mk_Tag 30 Done), (8, mk_Tag 40 Writing)] = Inr (mk_Tag 40 Writing, [(7, mk_Tag 30 Done)])"
proof -
  have m: "make_tag bump_new 40 Writing [(7, mk_Tag 30 Done)] =
      (8, [(7, mk_Tag 30 Done), (8, mk_Tag 40 Writing)])"
    by (simp add: make_tag_def bump_new_def um_emplace_def Let_def)
  show ?thesis using m make_get_tag_roundtrip [OF operator_new_bump m] by simp
qed

text \<open>
  The example's \<open>Tagger\<close> keeps tags apart: a tag made now has an address of its own, an
  older tag can still be taken out unchanged afterwards, taking it removes that entry alone, and the
  new tag can then be taken out as well; taking the older tag a second time throws.
\<close>

theorem tagger_tags_independent:
  assumes "operator_new new" and "tagger_make_tag new d l t = (p, t')"
    and "map_of (tagger_tags t) k = Some older"
  shows "k \<noteq> p \<and> (\<exists>t1 t2 e. tagger_get_tag k t' = Inr (older, t1)
     \<and> tagger_get_tag p t1 = Inr (mk_example_Tag d l, t2) \<and> tagger_get_tag k t1 = Inl e
     \<and> map_of (tagger_tags t2) = (map_of (tagger_tags t))(k := None))"
proof -
  have m: "tagger_make_tag new (ex_data (mk_example_Tag d l)) (ex_label (mk_example_Tag d l)) t = (p, t')"
    using assms(2) by (simp add: mk_example_Tag_def)
  from example_tagger.take_other_make [OF assms(1) m assms(3)] obtain t1 where
    t1: "k \<noteq> p" "tagger_get_tag k t' = Inr (older, t1)"
      "map_of (tagger_tags t1) = (map_of (tagger_tags t))(k := None, p \<mapsto> mk_example_Tag d l)"
    by blast
  from t1(3) have "map_of (tagger_tags t1) p = Some (mk_example_Tag d l)" by simp
  from example_tagger.take_present [OF this] t1(1,3) example_tagger.make_fresh [OF assms(1) m]
  obtain t2 where "tagger_get_tag p t1 = Inr (mk_example_Tag d l, t2)"
    "map_of (tagger_tags t2) = (map_of (tagger_tags t))(k := None)"
    by (auto simp: fun_eq_iff)
  with t1 example_tagger.take_twice [OF t1(2)] show ?thesis by blast
qed

theorem tagger_tags_independent_witness:
  "\<exists>t1. tagger_get_tag 7 \<lparr>tagger_tags = [(7, mk_example_Tag 30 ServerNewRpc), (8, mk_example_Tag 40 ServerDone)]\<rparr>
     = Inr (mk_example_Tag 30 ServerNewRpc, t1)"
proof -
  have m: "tagger_make_tag bump_new 40 ServerDone \<lparr>tagger_tags = [(7, mk_example_Tag 30 ServerNewRpc)]\<rparr> =
      (8, \<lparr>tagger_tags = [(7, mk_example_Tag 30 ServerNewRpc), (8, mk_example_Tag 40 ServerDone)]\<rparr>)"
    by (simp add: tag_defs bump_new_def um_emplace_def Let_def)
  show ?thesis
    using tagger_tags_independent [OF operator_new_bump m, of 7 "mk_example_Tag 30 ServerNewRpc"] by auto
qed

end
