(* ===== verification/Atomic_Data.thy ===== *)
theory Atomic_Data
  imports Grpcw_Prelude
begin

text \<open>
  \<open>grpcw::util::AtomicData\<close> (include/grpcw/util/atomic_data.hpp) and \<open>ltb::util::AtomicData\<close>
  (ltb-util/src/ltb/util/atomic_data.hpp): data owned together with a mutex and a condition
  variable.

  The first section has each member function as the function it computes while it holds the lock.
  A function passed by the caller takes the data and returns its result and the new data; a
  result of \<open>None\<close> is the wait for the predicate. The second section runs any number of threads
  step by step, with the mutex, the condition variable and a body that reads and later writes the
  data, and shows mutual exclusion, that the data is the result of running the bodies one after
  another, and that a body never runs on data that fails its predicate. The locale
  \<open>lock_protected\<close> carries an invariant of a component's locked bodies to all interleavings.
\<close>

section \<open>Member functions of grpcw::util::AtomicData\<close>

record 'd atomic_data =
  data :: 'd

definition make_atomic_data :: "'d \<Rightarrow> 'd atomic_data" where
  "make_atomic_data d = \<lparr>data = d\<rparr>"

definition make_atomic_data_args :: "('args \<Rightarrow> 'd) \<Rightarrow> 'args \<Rightarrow> 'd atomic_data" where
  "make_atomic_data_args ctor args = \<lparr>data = ctor args\<rparr>"

definition use_safely :: "('d \<Rightarrow> 'r \<times> 'd) \<Rightarrow> 'd atomic_data \<Rightarrow> 'r \<times> 'd atomic_data" where
  "use_safely func a = (let (r, d) = func (data a) in (r, a\<lparr>data := d\<rparr>))"

definition use_safely_const :: "('d \<Rightarrow> 'r) \<Rightarrow> 'd atomic_data \<Rightarrow> 'r" where
  "use_safely_const func a = func (data a)"

definition wait_to_use_safely ::
    "('d \<Rightarrow> bool) \<Rightarrow> ('d \<Rightarrow> 'r \<times> 'd) \<Rightarrow> 'd atomic_data \<Rightarrow> ('r \<times> 'd atomic_data) option" where
  "wait_to_use_safely predicate func a =
     (if predicate (data a) then Some (let (r, d) = func (data a) in (r, a\<lparr>data := d\<rparr>)) else None)"

definition wait_to_use_safely_const ::
    "('d \<Rightarrow> bool) \<Rightarrow> ('d \<Rightarrow> 'r) \<Rightarrow> 'd atomic_data \<Rightarrow> 'r option" where
  "wait_to_use_safely_const predicate func a =
     (if predicate (data a) then Some (func (data a)) else None)"

section \<open>Member functions of ltb::util::AtomicData\<close>

definition ltb_make_atomic_data :: "'d \<Rightarrow> 'd atomic_data" where
  "ltb_make_atomic_data d = \<lparr>data = d\<rparr>"

definition ltb_make_atomic_data_args :: "('args \<Rightarrow> 'd) \<Rightarrow> 'args \<Rightarrow> 'd atomic_data" where
  "ltb_make_atomic_data_args ctor args = \<lparr>data = ctor args\<rparr>"

definition ltb_use_safely :: "('d \<Rightarrow> 'r \<times> 'd) \<Rightarrow> 'd atomic_data \<Rightarrow> 'r \<times> 'd atomic_data" where
  "ltb_use_safely func a = (let (r, d) = func (data a) in (r, a\<lparr>data := d\<rparr>))"

definition ltb_use_safely_const :: "('d \<Rightarrow> 'r) \<Rightarrow> 'd atomic_data \<Rightarrow> 'r" where
  "ltb_use_safely_const func a = func (data a)"

text \<open>The untimed waits return nothing in this class: the result of \<open>func\<close> is dropped.\<close>

definition ltb_wait_to_use_safely ::
    "('d \<Rightarrow> bool) \<Rightarrow> ('d \<Rightarrow> 'r \<times> 'd) \<Rightarrow> 'd atomic_data \<Rightarrow> 'd atomic_data option" where
  "ltb_wait_to_use_safely predicate func a =
     (if predicate (data a) then Some (a\<lparr>data := snd (func (data a))\<rparr>) else None)"

definition ltb_wait_to_use_safely_const ::
    "('d \<Rightarrow> bool) \<Rightarrow> ('d \<Rightarrow> 'r) \<Rightarrow> 'd atomic_data \<Rightarrow> unit option" where
  "ltb_wait_to_use_safely_const predicate func a = (if predicate (data a) then Some () else None)"

text \<open>
  \<open>condition_->wait_for(lock, duration, pred)\<close> returns when the predicate holds or the time is up,
  and its result is the predicate at that moment. \<open>expired\<close> tells whether the time is up.
\<close>

definition wait_for :: "bool \<Rightarrow> bool \<Rightarrow> bool option" where
  "wait_for expired holds = (if holds then Some True else if expired then Some False else None)"

definition ltb_wait_to_use_safely_for ::
    "bool \<Rightarrow> ('d \<Rightarrow> bool) \<Rightarrow> ('d \<Rightarrow> 'r \<times> 'd) \<Rightarrow> 'd atomic_data \<Rightarrow> (bool \<times> 'd atomic_data) option" where
  "ltb_wait_to_use_safely_for expired predicate func a =
     (case wait_for expired (predicate (data a)) of
        None \<Rightarrow> None
      | Some True \<Rightarrow> Some (True, a\<lparr>data := snd (func (data a))\<rparr>)
      | Some False \<Rightarrow> Some (False, a))"

definition ltb_wait_to_use_safely_for_const ::
    "bool \<Rightarrow> ('d \<Rightarrow> bool) \<Rightarrow> ('d \<Rightarrow> 'r) \<Rightarrow> 'd atomic_data \<Rightarrow> bool option" where
  "ltb_wait_to_use_safely_for_const expired predicate func a =
     (case wait_for expired (predicate (data a)) of
        None \<Rightarrow> None
      | Some True \<Rightarrow> Some True
      | Some False \<Rightarrow> Some False)"

section \<open>Threads sharing one AtomicData\<close>

text \<open>
  A call is a predicate and a body; \<open>use_safely\<close> is a call whose predicate always holds. A thread
  is outside, waits for the mutex, has it, has read the data, has written it back, or is blocked
  in \<open>condition_.wait\<close>. \<open>ltb::util::AtomicData::lock\<close> is a call whose body is the identity and that
  leaves when its \<open>ScopedLock\<close> is destroyed.
\<close>

type_synonym 'd locked_call = "('d \<Rightarrow> bool) \<times> ('d \<Rightarrow> 'd)"

definition use_call :: "('d \<Rightarrow> 'r \<times> 'd) \<Rightarrow> 'd locked_call" where
  "use_call func = ((\<lambda>_. True), snd \<circ> func)"

definition wait_call :: "('d \<Rightarrow> bool) \<Rightarrow> ('d \<Rightarrow> 'r \<times> 'd) \<Rightarrow> 'd locked_call" where
  "wait_call predicate func = (predicate, snd \<circ> func)"

definition ltb_lock :: "'d locked_call" where
  "ltb_lock = ((\<lambda>_. True), id)"

datatype 'd pc =
    Outside
  | Wanting "'d locked_call"
  | Inside "'d locked_call"
  | Computing "'d locked_call" 'd
  | Leaving
  | Asleep "'d locked_call"

record 'd monitor =
  holder :: "nat option"
  shared :: 'd
  pcs :: "nat \<Rightarrow> 'd pc"
  log :: "'d locked_call list"

definition monitor_start :: "'d \<Rightarrow> 'd monitor" where
  "monitor_start d = \<lparr>holder = None, shared = d, pcs = (\<lambda>_. Outside), log = []\<rparr>"

fun awaken :: "'d pc \<Rightarrow> 'd pc" where
  "awaken (Asleep c) = Wanting c"
| "awaken p = p"

definition notify_all :: "'d monitor \<Rightarrow> 'd monitor" where
  "notify_all s = s\<lparr>pcs := awaken \<circ> pcs s\<rparr>"

definition notify_one :: "nat \<Rightarrow> 'd monitor \<Rightarrow> 'd monitor" where
  "notify_one t s = s\<lparr>pcs := (pcs s)(t := awaken (pcs s t))\<rparr>"

inductive monitor_step :: "'d locked_call set \<Rightarrow> 'd monitor \<Rightarrow> 'd monitor \<Rightarrow> bool"
  for calls where
  call: "pcs s t = Outside \<Longrightarrow> c \<in> calls \<Longrightarrow>
    monitor_step calls s (s\<lparr>pcs := (pcs s)(t := Wanting c)\<rparr>)"
| acquire: "pcs s t = Wanting c \<Longrightarrow> holder s = None \<Longrightarrow>
    monitor_step calls s (s\<lparr>pcs := (pcs s)(t := Inside c), holder := Some t\<rparr>)"
| block: "pcs s t = Inside c \<Longrightarrow> \<not> fst c (shared s) \<Longrightarrow>
    monitor_step calls s (s\<lparr>pcs := (pcs s)(t := Asleep c), holder := None\<rparr>)"
| read: "pcs s t = Inside c \<Longrightarrow> fst c (shared s) \<Longrightarrow>
    monitor_step calls s (s\<lparr>pcs := (pcs s)(t := Computing c (shared s))\<rparr>)"
| store: "pcs s t = Computing c d \<Longrightarrow>
    monitor_step calls s (s\<lparr>pcs := (pcs s)(t := Leaving), shared := snd c d, log := log s @ [c]\<rparr>)"
| release: "pcs s t = Leaving \<Longrightarrow>
    monitor_step calls s (s\<lparr>pcs := (pcs s)(t := Outside), holder := None\<rparr>)"
| wake_one: "monitor_step calls s (notify_one t s)"
| wake_all: "monitor_step calls s (notify_all s)"

inductive monitor_reachable :: "'d locked_call set \<Rightarrow> 'd \<Rightarrow> 'd monitor \<Rightarrow> bool"
  for calls d0 where
  monitor_init: "monitor_reachable calls d0 (monitor_start d0)"
| monitor_next: "monitor_reachable calls d0 s \<Longrightarrow> monitor_step calls s u \<Longrightarrow> monitor_reachable calls d0 u"

text \<open>A thread is in its critical section from acquiring the mutex until it releases it.\<close>

fun in_section :: "'d pc \<Rightarrow> bool" where
  "in_section (Inside c) = True"
| "in_section (Computing c d) = True"
| "in_section Leaving = True"
| "in_section p = False"

text \<open>The calls that have stored their result, run one after another, each under its predicate.\<close>

fun run_calls :: "'d locked_call list \<Rightarrow> 'd \<Rightarrow> 'd" where
  "run_calls [] d = d"
| "run_calls (c # cs) d = run_calls cs (snd c d)"

fun predicates_held :: "'d locked_call list \<Rightarrow> 'd \<Rightarrow> bool" where
  "predicates_held [] d = True"
| "predicates_held (c # cs) d = (fst c d \<and> predicates_held cs (snd c d))"

lemma run_calls_append [simp]: "run_calls (cs @ ds) d = run_calls ds (run_calls cs d)"
  by (induction cs arbitrary: d) auto

lemma predicates_held_append [simp]:
  "predicates_held (cs @ ds) d \<longleftrightarrow> predicates_held cs d \<and> predicates_held ds (run_calls cs d)"
  by (induction cs arbitrary: d) auto

fun requested :: "'d pc \<Rightarrow> 'd locked_call option" where
  "requested (Wanting c) = Some c"
| "requested (Inside c) = Some c"
| "requested (Computing c d) = Some c"
| "requested (Asleep c) = Some c"
| "requested p = None"

lemma awaken_simps [simp]:
  "in_section (awaken p) = in_section p" "requested (awaken p) = requested p"
  "awaken p = Computing c d \<longleftrightarrow> p = Computing c d"
  by (cases p; simp)+

definition exclusive :: "'d monitor \<Rightarrow> bool" where
  "exclusive s \<longleftrightarrow> (\<forall>t. in_section (pcs s t) \<longleftrightarrow> holder s = Some t)"

definition snapshots_current :: "'d monitor \<Rightarrow> bool" where
  "snapshots_current s \<longleftrightarrow> (\<forall>t c d. pcs s t = Computing c d \<longrightarrow> d = shared s \<and> fst c d)"

definition only_calls :: "'d locked_call set \<Rightarrow> 'd monitor \<Rightarrow> bool" where
  "only_calls calls s \<longleftrightarrow> (\<forall>t c. requested (pcs s t) = Some c \<longrightarrow> c \<in> calls) \<and> set (log s) \<subseteq> calls"

definition serialised :: "'d \<Rightarrow> 'd monitor \<Rightarrow> bool" where
  "serialised d0 s \<longleftrightarrow> shared s = run_calls (log s) d0 \<and> predicates_held (log s) d0"

lemma exclusive_at: "exclusive s \<Longrightarrow> in_section (pcs s t) \<longleftrightarrow> holder s = Some t"
  by (simp add: exclusive_def)

lemma exclusive_step: "monitor_step calls s u \<Longrightarrow> exclusive s \<Longrightarrow> exclusive u"
proof (induction rule: monitor_step.induct)
  case (call s t c)
  then show ?case using exclusive_at [of s t] by (auto simp: exclusive_def)
next
  case (acquire s t c)
  then show ?case by (auto simp: exclusive_def)
next
  case (block s t c)
  then show ?case using exclusive_at [of s t] by (auto simp: exclusive_def)
next
  case (read s t c)
  then show ?case using exclusive_at [of s t] by (auto simp: exclusive_def)
next
  case (store s t c d)
  then show ?case using exclusive_at [of s t] by (auto simp: exclusive_def)
next
  case (release s t)
  then show ?case using exclusive_at [of s t] by (auto simp: exclusive_def)
qed (auto simp: exclusive_def notify_one_def notify_all_def)

lemma snapshots_current_step:
  "monitor_step calls s u \<Longrightarrow> exclusive s \<Longrightarrow> snapshots_current s \<Longrightarrow> snapshots_current u"
proof (induction rule: monitor_step.induct)
  case (store s t c d)
  have "pcs s t' \<noteq> Computing c' d'" if "t' \<noteq> t" for t' c' d'
    using store that exclusive_at [of s t] exclusive_at [of s t'] by auto
  then show ?case by (simp add: snapshots_current_def)
qed (auto simp: snapshots_current_def notify_one_def notify_all_def)

lemma only_calls_at: "only_calls calls s \<Longrightarrow> requested (pcs s t) = Some c \<Longrightarrow> c \<in> calls"
  by (cases c) (simp add: only_calls_def)

lemma only_calls_step: "monitor_step calls s u \<Longrightarrow> only_calls calls s \<Longrightarrow> only_calls calls u"
proof (induction rule: monitor_step.induct)
  case (acquire s t c)
  then show ?case using only_calls_at [of calls s t c] by (auto simp: only_calls_def)
next
  case (block s t c)
  then show ?case using only_calls_at [of calls s t c] by (auto simp: only_calls_def)
next
  case (read s t c)
  then show ?case using only_calls_at [of calls s t c] by (auto simp: only_calls_def)
next
  case (store s t c d)
  then show ?case using only_calls_at [of calls s t c] by (auto simp: only_calls_def)
qed (auto simp: only_calls_def notify_one_def notify_all_def)

lemma snapshots_current_at:
  "snapshots_current s \<Longrightarrow> pcs s t = Computing c d \<Longrightarrow> d = shared s \<and> fst c d"
  unfolding snapshots_current_def by blast

lemma serialised_step:
  "monitor_step calls s u \<Longrightarrow> snapshots_current s \<Longrightarrow> serialised d0 s \<Longrightarrow> serialised d0 u"
proof (induction rule: monitor_step.induct)
  case (store s t c d)
  then show ?case using snapshots_current_at [of s t c d] by (auto simp: serialised_def)
qed (auto simp: serialised_def notify_one_def notify_all_def)

lemma monitor_reachable_inv:
  "monitor_reachable calls d0 s \<Longrightarrow>
     exclusive s \<and> snapshots_current s \<and> only_calls calls s \<and> serialised d0 s"
proof (induction rule: monitor_reachable.induct)
  case monitor_init
  show ?case
    by (simp add: exclusive_def snapshots_current_def only_calls_def serialised_def monitor_start_def)
next
  case (monitor_next s u)
  then show ?case
    by (blast intro: exclusive_step snapshots_current_step only_calls_step serialised_step)
qed

section \<open>Invariants of the locked bodies\<close>

locale lock_protected =
  fixes calls :: "'d locked_call set" and d0 :: 'd and inv :: "'d \<Rightarrow> bool"
  assumes inv_initial: "inv d0"
    and inv_call: "c \<in> calls \<Longrightarrow> inv d \<Longrightarrow> fst c d \<Longrightarrow> inv (snd c d)"
begin

lemma inv_run_calls: "set cs \<subseteq> calls \<Longrightarrow> predicates_held cs d \<Longrightarrow> inv d \<Longrightarrow> inv (run_calls cs d)"
  by (induction cs arbitrary: d) (auto intro: inv_call)

lemma inv_shared:
  assumes "monitor_reachable calls d0 s"
  shows "inv (shared s)"
  using monitor_reachable_inv [OF assms] inv_run_calls inv_initial
  by (simp add: only_calls_def serialised_def)

end

section \<open>Properties\<close>

text \<open>
  Two threads never run their functions on the same \<open>AtomicData\<close> at the same time.
\<close>

theorem atomic_data_mutual_exclusion:
  assumes "monitor_reachable calls d0 s" and "in_section (pcs s t)" and "in_section (pcs s u)"
  shows "t = u"
  using monitor_reachable_inv [OF assms(1)] assms(2,3) by (auto simp: exclusive_def)

text \<open>
  Claim C20. Every interleaving of \<open>use_safely\<close> and \<open>wait_to_use_safely\<close> calls leaves the data as if
  the functions had run one after another, in the order they stored their results, although each
  function reads the data first and writes it later; and every function that ran found its wait
  predicate true when it started.
\<close>

theorem atomic_data_serialisable:
  assumes "monitor_reachable calls d0 s"
  shows "shared s = run_calls (log s) d0 \<and> predicates_held (log s) d0 \<and> set (log s) \<subseteq> calls"
  using monitor_reachable_inv [OF assms] by (simp add: serialised_def only_calls_def)

text \<open>
  The timed \<open>wait_to_use_safely\<close> runs the function if and only if it returns true; when
  the time is up and the predicate does not hold it returns false and the data is unchanged; and it
  keeps waiting only while the predicate fails and time is left.
\<close>

theorem timed_wait_spec:
  "ltb_wait_to_use_safely_for expired predicate func a =
     (if predicate (data a) then Some (True, snd (ltb_use_safely func a))
      else if expired then Some (False, a) else None)"
  by (simp add: ltb_wait_to_use_safely_for_def wait_for_def ltb_use_safely_def split_def Let_def)

text \<open>Two threads increment a counter; the second one is inside while the first has finished.\<close>

definition bump_call :: "nat locked_call" where
  "bump_call = use_call (\<lambda>n. ((), Suc n))"

definition bump_state :: "nat monitor" where
  "bump_state = \<lparr>holder = Some 1, shared = 1, pcs = (\<lambda>_. Outside)(1 := Leaving), log = [bump_call]\<rparr>"

lemma bump_state_reachable: "monitor_reachable {bump_call} 0 bump_state"
proof -
  let ?s = "\<lambda>p h. \<lparr>holder = h, shared = 0, pcs = (\<lambda>_. Outside)(1 := p), log = []\<rparr> :: nat monitor"
  have "monitor_reachable {bump_call} 0 (?s (Wanting bump_call) None)"
    using monitor_next [OF monitor_init monitor_step.call [of "monitor_start 0" 1 bump_call "{bump_call}"]]
    by (simp add: monitor_start_def)
  from monitor_next [OF this monitor_step.acquire [of _ 1 bump_call]]
  have "monitor_reachable {bump_call} 0 (?s (Inside bump_call) (Some 1))" by simp
  from monitor_next [OF this monitor_step.read [of _ 1 bump_call]]
  have "monitor_reachable {bump_call} 0 (?s (Computing bump_call 0) (Some 1))"
    by (simp add: bump_call_def use_call_def)
  from monitor_next [OF this monitor_step.store [of _ 1 bump_call 0]]
  show ?thesis by (simp add: bump_state_def bump_call_def use_call_def)
qed

theorem atomic_data_mutual_exclusion_witness:
  "in_section (pcs bump_state 1) \<and> (\<forall>u. in_section (pcs bump_state u) = (1 = u))"
  using atomic_data_mutual_exclusion [OF bump_state_reachable, of 1] by (auto simp: bump_state_def)

theorem atomic_data_serialisable_witness:
  "shared bump_state = run_calls (log bump_state) 0 \<and> predicates_held (log bump_state) 0
     \<and> set (log bump_state) \<subseteq> {bump_call} \<and> shared bump_state = 1"
  using atomic_data_serialisable [OF bump_state_reachable] by (simp add: bump_state_def)

end
