(* ===== verification/Stream_Rpc_Handler.thy ===== *)
theory Stream_Rpc_Handler
  imports Tag_Table Atomic_Data
begin

text \<open>
  The server side of a streaming call: \<open>grpcw::server::detail::StreamRpcHandler\<close>
  (include/grpcw/server/detail/stream_rpc_handler.hpp) and the callback setter in front of it
  (stream_rpc_handler_callback_setter.hpp).

  \<open>connections\<close> is the struct \<open>Connections\<close>: the connection waiting for a client, the active
  connections by address, the addresses with a write on its way, and the tag table. It sits in an
  \<open>AtomicData\<close>, and every operation below goes through \<open>use_safely\<close> or \<open>wait_to_use_safely\<close>. The
  calls the code makes to gRPC and to the user's callbacks are returned as a list of effects, in
  order. gRPC's answers (the tag and flag of \<open>Next\<close>, the request of a new call) are arguments.

  \<open>deref\<close> reads a connection through a pointer; it fails when the object is gone, which is the
  error \<open>UseAfterFree\<close>. The error \<open>TagMissing\<close> is the failed assertion of \<open>get_tag\<close>.
\<close>

section \<open>State and effects\<close>

record 'req stream_connection =
  request :: 'req

record 'req connections =
  next_conn :: "(ptr \<times> 'req stream_connection) option"
  active :: "(ptr, 'req stream_connection) umap"
  processing :: "ptr set"
  tags :: tags

datatype ('resp, 'st) responder_call = OpWrite 'resp | OpFinish 'st

datatype ('req, 'resp, 'st, 'cb) stream_effect =
    ConnectionCallback 'cb 'req ptr
  | DeletionCallback 'cb 'req ptr
  | AsyncNotifyWhenDone ptr ptr
  | RequestRpc ptr
  | Respond ptr "('resp, 'st) responder_call" ptr

datatype stream_error = TagMissing ptr | UseAfterFree ptr

record ('req, 'cb) stream_handler =
  conns :: "'req connections atomic_data"
  connection_callback :: "'cb option"
  deletion_callback :: "'cb option"

definition new_connections :: "'req connections" where
  "new_connections = \<lparr>next_conn = None, active = [], processing = {}, tags = []\<rparr>"

definition new_stream_handler :: "('req, 'cb) stream_handler" where
  "new_stream_handler = \<lparr>conns = make_atomic_data new_connections,
     connection_callback = None, deletion_callback = None\<rparr>"

definition on_connect :: "'cb \<Rightarrow> ('req, 'cb) stream_handler \<Rightarrow> ('req, 'cb) stream_handler" where
  "on_connect cb h = h\<lparr>connection_callback := Some cb\<rparr>"

definition on_delete :: "'cb \<Rightarrow> ('req, 'cb) stream_handler \<Rightarrow> ('req, 'cb) stream_handler" where
  "on_delete cb h = h\<lparr>deletion_callback := Some cb\<rparr>"

text \<open>The setter object holds a pointer to the handler and forwards to it.\<close>

definition setter_on_connect :: "'cb \<Rightarrow> ('req, 'cb) stream_handler \<Rightarrow> ('req, 'cb) stream_handler" where
  "setter_on_connect cb stream = on_connect cb stream"

definition setter_on_delete :: "'cb \<Rightarrow> ('req, 'cb) stream_handler \<Rightarrow> ('req, 'cb) stream_handler" where
  "setter_on_delete cb stream = on_delete cb stream"

definition setter_stream :: "('req, 'cb) stream_handler \<Rightarrow> ('req, 'cb) stream_handler" where
  "setter_stream stream = stream"

section \<open>activate_next\<close>

definition live_connections :: "'req connections \<Rightarrow> ptr list" where
  "live_connections c = um_keys (active c) @ (case next_conn c of None \<Rightarrow> [] | Some (p, _) \<Rightarrow> [p])"

text \<open>The part that makes \<open>next\<close> an active connection and calls the connection callback.\<close>

definition promote_next ::
    "'cb option \<Rightarrow> 'req connections \<Rightarrow> 'req connections \<times> ('req, 'resp, 'st, 'cb) stream_effect list" where
  "promote_next callback c =
     (case next_conn c of
        None \<Rightarrow> (c, [])
      | Some (key, connection) \<Rightarrow>
          (c\<lparr>active := um_emplace key connection (active c), next_conn := None\<rparr>,
           case callback of None \<Rightarrow> [] | Some cb \<Rightarrow> [ConnectionCallback cb (request connection) key]))"

definition activate_body ::
    "(ptr list \<Rightarrow> ptr) \<Rightarrow> (ptr list \<Rightarrow> ptr) \<Rightarrow> 'req \<Rightarrow> 'cb option \<Rightarrow> 'req connections
      \<Rightarrow> ('req, 'resp, 'st, 'cb) stream_effect list \<times> 'req connections" where
  "activate_body new_connection new_tag request0 callback c =
     (let (c1, effects) = promote_next callback c;
          p = new_connection (live_connections c1);
          (tag, ts) = make_tag new_tag p Done (tags c1)
      in (effects @ [AsyncNotifyWhenDone p tag, RequestRpc p],
          c1\<lparr>next_conn := Some (p, \<lparr>request = request0\<rparr>), tags := ts\<rparr>))"

definition activate_next ::
    "(ptr list \<Rightarrow> ptr) \<Rightarrow> (ptr list \<Rightarrow> ptr) \<Rightarrow> 'req \<Rightarrow> ('req, 'cb) stream_handler
      \<Rightarrow> ('req, 'cb) stream_handler \<times> ('req, 'resp, 'st, 'cb) stream_effect list" where
  "activate_next new_connection new_tag request0 h =
     (let (effects, a) =
        use_safely (activate_body new_connection new_tag request0 (connection_callback h)) (conns h)
      in (h\<lparr>conns := a\<rparr>, effects))"

text \<open>gRPC fills in the request of the waiting connection when a client calls.\<close>

definition request_arrives :: "'req \<Rightarrow> 'req connections \<Rightarrow> 'req connections" where
  "request_arrives r c = c\<lparr>next_conn := map_option (\<lambda>(p, _). (p, \<lparr>request = r\<rparr>)) (next_conn c)\<rparr>"

section \<open>write and finish\<close>

definition previous_updates_processed :: "'req connections \<Rightarrow> bool" where
  "previous_updates_processed c \<longleftrightarrow> processing c = {}"

text \<open>One responder call with a fresh tag, and the loop over all active connections.\<close>

definition respond ::
    "(ptr list \<Rightarrow> ptr) \<Rightarrow> ('resp, 'st) responder_call \<Rightarrow> ptr \<Rightarrow> 'req connections
      \<Rightarrow> 'req connections \<times> ('req, 'resp, 'st, 'cb) stream_effect" where
  "respond new_tag call key c =
     (let (tag, ts) = make_tag new_tag key Writing (tags c)
      in (c\<lparr>tags := ts, processing := insert key (processing c)\<rparr>, Respond key call tag))"

fun respond_all ::
    "(ptr list \<Rightarrow> ptr) \<Rightarrow> ('resp, 'st) responder_call \<Rightarrow> ptr list \<Rightarrow> 'req connections
      \<Rightarrow> 'req connections \<times> ('req, 'resp, 'st, 'cb) stream_effect list" where
  "respond_all new_tag call [] c = (c, [])"
| "respond_all new_tag call (key # ks) c =
     (let (c1, e) = respond new_tag call key c; (c2, es) = respond_all new_tag call ks c1
      in (c2, e # es))"

text \<open>
  The locked body \<open>write\<close> and \<open>finish\<close> share, with their local variables \<open>notify\<close> and \<open>result\<close>.
  \<open>client\<close> is \<open>nullptr\<close> for a broadcast.
\<close>

definition send_body ::
    "(ptr list \<Rightarrow> ptr) \<Rightarrow> ('resp, 'st) responder_call \<Rightarrow> ptr \<Rightarrow> 'req connections
      \<Rightarrow> (bool \<times> bool \<times> ('req, 'resp, 'st, 'cb) stream_effect list) \<times> 'req connections" where
  "send_body new_tag call client c =
     (let notify = (active c = [])
      in if client \<noteq> nullptr then
           (if client \<in> set (um_keys (active c)) then
              let (c1, e) = respond new_tag call client c in ((notify, True, [e]), c1)
            else ((notify, False, []), c))
         else
           let (c1, es) = respond_all new_tag call (um_keys (active c)) c in ((notify, True, es), c1))"

record ('req, 'resp, 'st, 'cb) send_outcome =
  handler_after :: "('req, 'cb) stream_handler"
  effects :: "('req, 'resp, 'st, 'cb) stream_effect list"
  notified :: bool
  returned :: bool

text \<open>\<open>None\<close>: the caller waits until the previous updates are processed.\<close>

definition write_client ::
    "(ptr list \<Rightarrow> ptr) \<Rightarrow> 'resp \<Rightarrow> ptr \<Rightarrow> ('req, 'cb) stream_handler
      \<Rightarrow> ('req, 'resp, 'st, 'cb) send_outcome option" where
  "write_client new_tag update client h =
     (case wait_to_use_safely previous_updates_processed (send_body new_tag (OpWrite update) client) (conns h) of
        None \<Rightarrow> None
      | Some ((notify, result, es), a) \<Rightarrow>
          Some \<lparr>handler_after = h\<lparr>conns := a\<rparr>, effects = es, notified = notify, returned = True\<rparr>)"

definition write_everyone ::
    "(ptr list \<Rightarrow> ptr) \<Rightarrow> 'resp \<Rightarrow> ('req, 'cb) stream_handler \<Rightarrow> ('req, 'resp, 'st, 'cb) send_outcome option" where
  "write_everyone new_tag update h = write_client new_tag update nullptr h"

definition finish_client ::
    "(ptr list \<Rightarrow> ptr) \<Rightarrow> 'st \<Rightarrow> ptr \<Rightarrow> ('req, 'cb) stream_handler
      \<Rightarrow> ('req, 'resp, 'st, 'cb) send_outcome option" where
  "finish_client new_tag status client h =
     (case wait_to_use_safely previous_updates_processed (send_body new_tag (OpFinish status) client) (conns h) of
        None \<Rightarrow> None
      | Some ((notify, result, es), a) \<Rightarrow>
          Some \<lparr>handler_after = h\<lparr>conns := a\<rparr>, effects = es, notified = notify, returned = True\<rparr>)"

definition finish_everyone ::
    "(ptr list \<Rightarrow> ptr) \<Rightarrow> 'st \<Rightarrow> ('req, 'cb) stream_handler \<Rightarrow> ('req, 'resp, 'st, 'cb) send_outcome option" where
  "finish_everyone new_tag status h = finish_client new_tag status nullptr h"

section \<open>run_synchronization\<close>

definition deref :: "'req connections \<Rightarrow> ptr \<Rightarrow> 'req stream_connection option" where
  "deref c p =
     (case map_of (active c) p of
        Some connection \<Rightarrow> Some connection
      | None \<Rightarrow> (case next_conn c of
                   Some (q, connection) \<Rightarrow> if q = p then Some connection else None
                 | None \<Rightarrow> None))"

definition call_deletion ::
    "'cb option \<Rightarrow> ptr \<Rightarrow> 'req connections \<Rightarrow> stream_error + ('req, 'resp, 'st, 'cb) stream_effect list" where
  "call_deletion callback p c =
     (case callback of
        None \<Rightarrow> Inr []
      | Some cb \<Rightarrow> (case deref c p of
                      None \<Rightarrow> Inl (UseAfterFree p)
                    | Some connection \<Rightarrow> Inr [DeletionCallback cb (request connection) p]))"

definition remove_stream ::
    "'cb option \<Rightarrow> ptr \<Rightarrow> 'req connections
      \<Rightarrow> stream_error + ('req connections \<times> ('req, 'resp, 'st, 'cb) stream_effect list)" where
  "remove_stream callback p c =
     (case call_deletion callback p c of
        Inl e \<Rightarrow> Inl e
      | Inr es \<Rightarrow> Inr (c\<lparr>active := um_erase p (active c)\<rparr>, es))"

text \<open>
  The locked body for one event of the queue: the new connections, the effects, and
  \<open>all_streams_processed\<close>, on which the loop calls \<open>notify_one\<close>.
\<close>

definition sync_body ::
    "'cb option \<Rightarrow> ptr \<Rightarrow> bool \<Rightarrow> 'req connections
      \<Rightarrow> stream_error + ('req connections \<times> ('req, 'resp, 'st, 'cb) stream_effect list \<times> bool)" where
  "sync_body callback recv_tag call_ok c =
     (case get_tag recv_tag (tags c) of
        Inl _ \<Rightarrow> Inl (TagMissing recv_tag)
      | Inr (tag, ts) \<Rightarrow>
          (let c1 = c\<lparr>tags := ts\<rparr>; p = tag_data tag
           in case label tag of
                Writing \<Rightarrow>
                  (let c2 = c1\<lparr>processing := processing c1 - {p}\<rparr>
                   in if call_ok then Inr (c2, [], processing c2 = {})
                      else (case remove_stream callback p c2 of
                              Inl e \<Rightarrow> Inl e
                            | Inr (c3, es) \<Rightarrow> Inr (c3, es, processing c3 = {})))
              | Done \<Rightarrow>
                  (if p \<notin> processing c1 then
                     (case remove_stream callback p c1 of
                        Inl e \<Rightarrow> Inl e
                      | Inr (c3, es) \<Rightarrow> Inr (c3, es, False))
                   else Inr (c1, [], False))))"

definition run_synchronization_step ::
    "ptr \<Rightarrow> bool \<Rightarrow> ('req, 'cb) stream_handler
      \<Rightarrow> stream_error + (('req, 'cb) stream_handler \<times> ('req, 'resp, 'st, 'cb) stream_effect list \<times> bool)" where
  "run_synchronization_step recv_tag call_ok h =
     (let (r, a) =
        use_safely (\<lambda>c. case sync_body (deletion_callback h) recv_tag call_ok c of
                          Inl e \<Rightarrow> (Inl e, c)
                        | Inr (c', es, all_streams_processed) \<Rightarrow> (Inr (es, all_streams_processed), c'))
          (conns h)
      in case r of
           Inl e \<Rightarrow> Inl e
         | Inr (es, all_streams_processed) \<Rightarrow> Inr (h\<lparr>conns := a\<rparr>, es, all_streams_processed))"

text \<open>
  The loop over the events \<open>Next\<close> returns before it returns false; the result has the effects and
  the number of \<open>notify_one\<close> calls. The destructor shuts the queue down and joins the thread, which
  runs the loop over the events still in the queue.
\<close>

fun run_synchronization ::
    "(ptr \<times> bool) list \<Rightarrow> ('req, 'cb) stream_handler
      \<Rightarrow> stream_error + (('req, 'cb) stream_handler \<times> ('req, 'resp, 'st, 'cb) stream_effect list \<times> nat)" where
  "run_synchronization [] h = Inr (h, [], 0)"
| "run_synchronization ((recv_tag, call_ok) # events) h =
     (case run_synchronization_step recv_tag call_ok h of
        Inl e \<Rightarrow> Inl e
      | Inr (h1, es, all_streams_processed) \<Rightarrow>
          (case run_synchronization events h1 of
             Inl e \<Rightarrow> Inl e
           | Inr (h2, fs, n) \<Rightarrow> Inr (h2, es @ fs, if all_streams_processed then Suc n else n)))"

definition destroy_stream_handler ::
    "(ptr \<times> bool) list \<Rightarrow> ('req, 'cb) stream_handler
      \<Rightarrow> stream_error + (('req, 'cb) stream_handler \<times> ('req, 'resp, 'st, 'cb) stream_effect list \<times> nat)" where
  "destroy_stream_handler remaining h = run_synchronization remaining h"

section \<open>The handler among its callers and the completion queue\<close>

text \<open>
  An event is one call into the handler; the whole system is the handler, the tags gRPC has been
  given and not yet returned, and the effects so far. \<open>stream_step\<close> is \<open>None\<close> for a caller that waits.
\<close>

datatype ('req, 'resp, 'st, 'cb) stream_event =
    EvRequest 'req
  | EvActivate "ptr list \<Rightarrow> ptr" "ptr list \<Rightarrow> ptr" 'req
  | EvWrite "ptr list \<Rightarrow> ptr" 'resp ptr
  | EvFinish "ptr list \<Rightarrow> ptr" 'st ptr
  | EvSync ptr bool
  | EvOnConnect 'cb
  | EvOnDelete 'cb

record ('req, 'resp, 'st, 'cb) stream_sys =
  hdl :: "('req, 'cb) stream_handler"
  outstanding :: "ptr set"
  trace :: "('req, 'resp, 'st, 'cb) stream_effect list"

fun handed_out :: "('req, 'resp, 'st, 'cb) stream_effect \<Rightarrow> ptr set" where
  "handed_out (AsyncNotifyWhenDone p t) = {t}"
| "handed_out (Respond p call t) = {t}"
| "handed_out e = {}"

definition record_effects ::
    "('req, 'cb) stream_handler \<Rightarrow> ('req, 'resp, 'st, 'cb) stream_effect list
      \<Rightarrow> ('req, 'resp, 'st, 'cb) stream_sys \<Rightarrow> ('req, 'resp, 'st, 'cb) stream_sys" where
  "record_effects h es s = s\<lparr>hdl := h, outstanding := outstanding s \<union> \<Union> (handed_out ` set es), trace := trace s @ es\<rparr>"

definition record_send ::
    "('req, 'resp, 'st, 'cb) send_outcome option \<Rightarrow> ('req, 'resp, 'st, 'cb) stream_sys
      \<Rightarrow> (stream_error + ('req, 'resp, 'st, 'cb) stream_sys) option" where
  "record_send r s = map_option (\<lambda>out. Inr (record_effects (handler_after out) (effects out) s)) r"

fun stream_step ::
    "('req, 'resp, 'st, 'cb) stream_event \<Rightarrow> ('req, 'resp, 'st, 'cb) stream_sys
      \<Rightarrow> (stream_error + ('req, 'resp, 'st, 'cb) stream_sys) option" where
  "stream_step (EvRequest r) s =
     Some (Inr (s\<lparr>hdl := (hdl s)\<lparr>conns := (conns (hdl s))\<lparr>data := request_arrives r (data (conns (hdl s)))\<rparr>\<rparr>\<rparr>))"
| "stream_step (EvActivate new_connection new_tag r0) s =
     (let (h, es) = activate_next new_connection new_tag r0 (hdl s) in Some (Inr (record_effects h es s)))"
| "stream_step (EvWrite new_tag update client) s = record_send (write_client new_tag update client (hdl s)) s"
| "stream_step (EvFinish new_tag status client) s = record_send (finish_client new_tag status client (hdl s)) s"
| "stream_step (EvSync t ok) s =
     (case run_synchronization_step t ok (hdl s) of
        Inl e \<Rightarrow> Some (Inl e)
      | Inr (h, es, _) \<Rightarrow> Some (Inr (record_effects h es (s\<lparr>outstanding := outstanding s - {t}\<rparr>))))"
| "stream_step (EvOnConnect cb) s = Some (Inr (s\<lparr>hdl := setter_on_connect cb (hdl s)\<rparr>))"
| "stream_step (EvOnDelete cb) s = Some (Inr (s\<lparr>hdl := setter_on_delete cb (hdl s)\<rparr>))"

text \<open>
  What the environment promises: \<open>new\<close> returns fresh addresses, and the completion queue returns
  only tags it was given and has not returned yet.
\<close>

fun environment_allows ::
    "('req, 'resp, 'st, 'cb) stream_sys \<Rightarrow> ('req, 'resp, 'st, 'cb) stream_event \<Rightarrow> bool" where
  "environment_allows s (EvActivate new_connection new_tag r0) = (operator_new new_connection \<and> operator_new new_tag)"
| "environment_allows s (EvWrite new_tag update client) = operator_new new_tag"
| "environment_allows s (EvFinish new_tag status client) = operator_new new_tag"
| "environment_allows s (EvSync t ok) = (t \<in> outstanding s)"
| "environment_allows s ev = True"

definition stream_start ::
    "'cb option \<Rightarrow> 'cb option \<Rightarrow> ('req, 'resp, 'st, 'cb) stream_sys" where
  "stream_start on_conn on_del =
     \<lparr>hdl = new_stream_handler\<lparr>connection_callback := on_conn, deletion_callback := on_del\<rparr>,
      outstanding = {}, trace = []\<rparr>"

inductive stream_reachable :: "('req, 'resp, 'st, 'cb) stream_sys \<Rightarrow> bool" where
  stream_init: "stream_reachable (stream_start on_conn on_del)"
| stream_next: "stream_reachable s \<Longrightarrow> environment_allows s ev \<Longrightarrow>
    stream_step ev s = Some (Inr s') \<Longrightarrow> stream_reachable s'"

text \<open>Runs over a list of events, for scenarios: the state reached, or the error that ends the run.\<close>

fun stream_run ::
    "('req, 'resp, 'st, 'cb) stream_event list \<Rightarrow> ('req, 'resp, 'st, 'cb) stream_sys
      \<Rightarrow> (stream_error + ('req, 'resp, 'st, 'cb) stream_sys) option" where
  "stream_run [] s = Some (Inr s)"
| "stream_run (ev # evs) s =
     (case stream_step ev s of
        None \<Rightarrow> None
      | Some (Inl e) \<Rightarrow> Some (Inl e)
      | Some (Inr s') \<Rightarrow> stream_run evs s')"

fun run_allowed ::
    "('req, 'resp, 'st, 'cb) stream_event list \<Rightarrow> ('req, 'resp, 'st, 'cb) stream_sys \<Rightarrow> bool" where
  "run_allowed [] s = True"
| "run_allowed (ev # evs) s =
     (environment_allows s ev \<and>
      (case stream_step ev s of Some (Inr s') \<Rightarrow> run_allowed evs s' | _ \<Rightarrow> True))"

lemma stream_run_reachable:
  "stream_reachable s \<Longrightarrow> run_allowed evs s \<Longrightarrow> stream_run evs s = Some (Inr s') \<Longrightarrow> stream_reachable s'"
proof (induction evs arbitrary: s)
  case (Cons ev evs)
  from Cons.prems(3) obtain s1 where s1: "stream_step ev s = Some (Inr s1)" "stream_run evs s1 = Some (Inr s')"
    by (auto split: option.splits sum.splits)
  with Cons.prems(1,2) have "stream_reachable s1" "run_allowed evs s1"
    by (auto intro: stream_next)
  with s1(2) show ?case by (blast intro: Cons.IH)
qed simp

lemmas stream_eval = stream_start_def new_stream_handler_def make_atomic_data_def new_connections_def
  activate_next_def activate_body_def promote_next_def live_connections_def use_safely_def
  request_arrives_def write_client_def finish_client_def wait_to_use_safely_def send_body_def respond_def
  previous_updates_processed_def record_send_def record_effects_def run_synchronization_step_def
  sync_body_def remove_stream_def call_deletion_def deref_def make_tag_def get_tag_def mk_Tag_def
  um_emplace_def um_erase_def bump_new_def Let_def

end
