(* ===== verification/Stream_Rpc_Safety.thy ===== *)
theory Stream_Rpc_Safety
  imports Stream_Rpc_Handler
begin

text \<open>
  The invariant of the stream handler's connections and what follows from it in every reachable
  state: the tag assertion never fails, and gRPC is never given a second write on a stream while
  one is on its way. The lemmas about the locked bodies come first, one per body, then the steps.
\<close>

section \<open>The writes and done notifications of a tag table\<close>

definition writes_of :: "tags \<Rightarrow> ptr list" where
  "writes_of ts = map (tag_data \<circ> snd) (filter (\<lambda>e. label (snd e) = Writing) ts)"

definition dones_of :: "tags \<Rightarrow> ptr list" where
  "dones_of ts = map (tag_data \<circ> snd) (filter (\<lambda>e. label (snd e) = Done) ts)"

lemma writes_of_simps [simp]:
  "writes_of [] = []" "writes_of (xs @ ys) = writes_of xs @ writes_of ys"
  "writes_of ((k, t) # xs) = (if label t = Writing then [tag_data t] else []) @ writes_of xs"
  by (simp_all add: writes_of_def)

lemma dones_of_simps [simp]:
  "dones_of [] = []" "dones_of (xs @ ys) = dones_of xs @ dones_of ys"
  "dones_of ((k, t) # xs) = (if label t = Done then [tag_data t] else []) @ dones_of xs"
  by (simp_all add: dones_of_def)

lemma mk_Tag_sel [simp]: "tag_data (mk_Tag d l) = d" "label (mk_Tag d l) = l"
  by (simp_all add: mk_Tag_def)

section \<open>The invariant\<close>

definition connections_inv :: "'req connections \<Rightarrow> bool" where
  "connections_inv c \<longleftrightarrow>
     um_ok (tags c) \<and> um_ok (active c)
     \<and> distinct (writes_of (tags c)) \<and> processing c = set (writes_of (tags c))
     \<and> processing c \<subseteq> set (um_keys (active c))
     \<and> distinct (live_connections c) \<and> nullptr \<notin> set (live_connections c)"

definition stream_inv :: "('req, 'resp, 'st, 'cb) stream_sys \<Rightarrow> bool" where
  "stream_inv s \<longleftrightarrow> connections_inv (data (conns (hdl s)))
     \<and> outstanding s = set (um_keys (tags (data (conns (hdl s)))))"

abbreviation conn_of :: "('req, 'resp, 'st, 'cb) stream_sys \<Rightarrow> 'req connections" where
  "conn_of s \<equiv> data (conns (hdl s))"

lemma connections_inv_new [simp]: "connections_inv new_connections"
  by (simp add: connections_inv_def new_connections_def live_connections_def)

subsection \<open>request_arrives and activate_next\<close>

lemma live_request_arrives [simp]: "live_connections (request_arrives r c) = live_connections c"
  by (auto simp: live_connections_def request_arrives_def split: option.splits)

lemma request_arrives_fields [simp]:
  "tags (request_arrives r c) = tags c" "active (request_arrives r c) = active c"
  "processing (request_arrives r c) = processing c"
  by (simp_all add: request_arrives_def)

lemma connections_inv_request: "connections_inv c \<Longrightarrow> connections_inv (request_arrives r c)"
  by (auto simp: connections_inv_def)

lemma promote_next_fields:
  assumes "connections_inv c" and "promote_next cb c = (c1, es)"
  shows "um_keys (active c1) = live_connections c" and "next_conn c1 = None"
    and "tags c1 = tags c" and "processing c1 = processing c" and "um_ok (active c1)"
  using assms
  by (auto simp: promote_next_def connections_inv_def live_connections_def um_emplace_fresh um_ok_def
      split: option.splits)

lemma activate_body_fields:
  fixes es :: "('req, 'resp, 'st, 'cb) stream_effect list"
  assumes inv: "connections_inv c" and new: "operator_new nc" "operator_new nt"
    and body: "activate_body nc nt r0 cb c = (es, c')"
  shows "\<exists>p t. um_keys (active c') = live_connections c \<and> next_conn c' = Some (p, \<lparr>request = r0\<rparr>)
     \<and> p \<notin> set (live_connections c) \<and> p \<noteq> nullptr
     \<and> tags c' = tags c @ [(t, mk_Tag p Done)] \<and> t \<notin> set (um_keys (tags c))
     \<and> processing c' = processing c
     \<and> es = snd (promote_next cb c) @ [AsyncNotifyWhenDone p t, RequestRpc p]"
proof -
  obtain c1 and es1 :: "('req, 'resp, 'st, 'cb) stream_effect list" where pn: "promote_next cb c = (c1, es1)"
    by (rule prod.exhaust)
  note f = promote_next_fields [OF inv pn]
  define p where "p = nc (live_connections c1)"
  obtain t ts where mt: "make_tag nt p Done (tags c1) = (t, ts)" by (cases "make_tag nt p Done (tags c1)")
  have live: "live_connections c1 = live_connections c" using f(1,2) by (simp add: live_connections_def)
  from body pn mt have "es = es1 @ [AsyncNotifyWhenDone p t, RequestRpc p]"
    "c' = c1\<lparr>next_conn := Some (p, \<lparr>request = r0\<rparr>), tags := ts\<rparr>"
    by (simp_all add: activate_body_def p_def Let_def)
  with f make_tag_keys [OF new(2) mt] operator_newD [OF new(1), of "live_connections c1"] pn live
  show ?thesis by (auto simp: p_def)
qed

lemma connections_inv_activate:
  assumes inv: "connections_inv c" and new: "operator_new nc" "operator_new nt"
    and body: "activate_body nc nt r0 cb c = (es, c')"
  shows "connections_inv c'"
proof -
  from activate_body_fields [OF assms] obtain p t where
    f: "um_keys (active c') = live_connections c" "next_conn c' = Some (p, \<lparr>request = r0\<rparr>)"
      "p \<notin> set (live_connections c)" "p \<noteq> nullptr"
      "tags c' = tags c @ [(t, mk_Tag p Done)]" "t \<notin> set (um_keys (tags c))" "processing c' = processing c"
    by blast
  have "live_connections c' = live_connections c @ [p]"
    using f(1,2) by (simp add: live_connections_def)
  with f inv show ?thesis
    by (auto simp: connections_inv_def um_ok_def live_connections_def)
qed

lemma activate_handed_out:
  fixes es :: "('req, 'resp, 'st, 'cb) stream_effect list"
  assumes inv: "connections_inv c" and new: "operator_new nc" "operator_new nt"
    and body: "activate_body nc nt r0 cb c = (es, c')"
  shows "set (um_keys (tags c')) = set (um_keys (tags c)) \<union> \<Union> (handed_out ` set es)"
proof -
  have "\<Union> (handed_out ` set (snd (promote_next cb c) :: ('req, 'resp, 'st, 'cb) stream_effect list)) = {}"
    by (auto simp: promote_next_def split: option.splits)
  with activate_body_fields [OF assms] show ?thesis by auto
qed

subsection \<open>write and finish\<close>

lemma respond_fields:
  assumes "operator_new nt" and "respond nt call key c = (c', e)"
  shows "\<exists>t. c' = c\<lparr>tags := tags c @ [(t, mk_Tag key Writing)], processing := insert key (processing c)\<rparr>
     \<and> t \<notin> set (um_keys (tags c)) \<and> e = Respond key call t"
proof -
  obtain t ts where "make_tag nt key Writing (tags c) = (t, ts)" by (cases "make_tag nt key Writing (tags c)")
  with assms make_tag_keys [OF assms(1) this] show ?thesis by (auto simp: respond_def)
qed

text \<open>The tag table after a loop over \<open>ks\<close>: one fresh writing tag for each key, in order.\<close>

lemma respond_all_fields:
  assumes "operator_new nt" and "respond_all nt call ks c = (c', es)" and "um_ok (tags c)"
  shows "\<exists>ps. length ps = length ks \<and> um_ok (tags c')
     \<and> c' = c\<lparr>tags := tags c @ zip ps (map (\<lambda>k. mk_Tag k Writing) ks), processing := processing c \<union> set ks\<rparr>
     \<and> es = map2 (\<lambda>k t. Respond k call t) ks ps"
  using assms(2,3)
proof (induction ks arbitrary: c es)
  case Nil
  then show ?case by simp
next
  case (Cons k ks)
  from Cons.prems obtain c1 e es' where r: "respond nt call k c = (c1, e)"
    "respond_all nt call ks c1 = (c', es')" "es = e # es'"
    by (auto split: prod.splits)
  from respond_fields [OF assms(1) r(1)] obtain t where
    t: "c1 = c\<lparr>tags := tags c @ [(t, mk_Tag k Writing)], processing := insert k (processing c)\<rparr>"
      "t \<notin> set (um_keys (tags c))" "e = Respond k call t"
    by blast
  from t(1,2) Cons.prems have "um_ok (tags c1)" by (simp add: um_ok_def)
  from Cons.IH [OF r(2) this] obtain ps where "length ps = length ks" "um_ok (tags c')"
    "c' = c1\<lparr>tags := tags c1 @ zip ps (map (\<lambda>k. mk_Tag k Writing) ks), processing := processing c1 \<union> set ks\<rparr>"
    "es' = map2 (\<lambda>k t. Respond k call t) ks ps"
    by blast
  with t r(3) show ?case by (intro exI [of _ "t # ps"]) simp
qed

lemma writes_of_zip [simp]:
  "length ps = length ks \<Longrightarrow> writes_of (zip ps (map (\<lambda>k. mk_Tag k Writing) ks)) = ks"
  "length ps = length ks \<Longrightarrow> dones_of (zip ps (map (\<lambda>k. mk_Tag k Writing) ks)) = []"
  by (induction ps ks rule: list_induct2) auto

lemma keys_zip [simp]: "length ps = length vs \<Longrightarrow> um_keys (zip ps vs) = ps"
  by (simp add: um_keys_def)

lemma handed_out_map2:
  "length ps = length ks \<Longrightarrow> \<Union> (handed_out ` set (map2 (\<lambda>k t. Respond k call t) ks ps)) = set ps"
  by (induction ps ks rule: list_induct2) auto

text \<open>The keys a send addresses.\<close>

definition targets :: "ptr \<Rightarrow> 'req connections \<Rightarrow> ptr list" where
  "targets client c =
     (if client = nullptr then um_keys (active c)
      else if client \<in> set (um_keys (active c)) then [client] else [])"

lemma send_body_fields:
  assumes "operator_new nt" and "um_ok (tags c)" and "send_body nt call client c = ((notify, result, es), c')"
  shows "\<exists>ps. length ps = length (targets client c) \<and> um_ok (tags c')
     \<and> c' = c\<lparr>tags := tags c @ zip ps (map (\<lambda>k. mk_Tag k Writing) (targets client c)),
              processing := processing c \<union> set (targets client c)\<rparr>
     \<and> es = map2 (\<lambda>k t. Respond k call t) (targets client c) ps
     \<and> notify = (active c = []) \<and> result = (client = nullptr \<or> client \<in> set (um_keys (active c)))"
proof (cases "client \<noteq> nullptr \<and> client \<in> set (um_keys (active c))")
  case True
  then obtain e where r: "respond nt call client c = (c', e)" and "es = [e]" "notify = (active c = [])" "result"
    using assms(3) by (auto simp: send_body_def Let_def split: prod.splits)
  with True respond_all_fields [OF assms(1) _ assms(2), of call "[client]" c' "[e]"] show ?thesis
    by (auto simp: targets_def)
next
  case False
  show ?thesis
  proof (cases "client = nullptr")
    case True
    then obtain c1 where r: "respond_all nt call (um_keys (active c)) c = (c', es)"
      and "notify = (active c = [])" "result"
      using assms(3) by (auto simp: send_body_def Let_def split: prod.splits)
    with True respond_all_fields [OF assms(1) r assms(2)] show ?thesis by (auto simp: targets_def)
  next
    case absent: False
    with False assms(2,3) show ?thesis by (auto simp: send_body_def targets_def Let_def)
  qed
qed

lemma distinct_targets: "um_ok (active c) \<Longrightarrow> distinct (targets client c)"
  by (simp add: targets_def um_ok_def)

lemma targets_active: "set (targets client c) \<subseteq> set (um_keys (active c))"
  by (auto simp: targets_def)

lemma connections_inv_send:
  assumes inv: "connections_inv c" and idle: "previous_updates_processed c" and new: "operator_new nt"
    and body: "send_body nt call client c = ((notify, result, es), c')"
  shows "connections_inv c'"
    and "set (um_keys (tags c')) = set (um_keys (tags c)) \<union> \<Union> (handed_out ` set es)"
proof -
  have ok: "um_ok (tags c)" using inv by (simp add: connections_inv_def)
  from send_body_fields [OF new ok body] obtain ps where
    f: "length ps = length (targets client c)" "um_ok (tags c')"
      "c' = c\<lparr>tags := tags c @ zip ps (map (\<lambda>k. mk_Tag k Writing) (targets client c)),
              processing := processing c \<union> set (targets client c)\<rparr>"
      "es = map2 (\<lambda>k t. Respond k call t) (targets client c) ps"
    by blast
  from idle inv have "writes_of (tags c) = []"
    by (simp add: previous_updates_processed_def connections_inv_def)
  with f inv idle show "connections_inv c'"
    using distinct_targets [of c client] targets_active [of client c]
    by (auto simp: connections_inv_def previous_updates_processed_def live_connections_def)
  have "\<Union> (handed_out ` set es) = set ps"
    unfolding f(4) by (rule handed_out_map2 [OF f(1)])
  with f show "set (um_keys (tags c')) = set (um_keys (tags c)) \<union> \<Union> (handed_out ` set es)"
    by simp
qed

subsection \<open>run_synchronization\<close>

lemma live_connections_erase:
  assumes "distinct (live_connections c)" and "active c' = um_erase p (active c)" and "next_conn c' = next_conn c"
  shows "distinct (live_connections c') \<and> set (live_connections c') \<subseteq> set (live_connections c)"
  using assms by (auto simp: live_connections_def um_keys_erase split: option.splits)

lemma remove_stream_fields:
  "remove_stream cb p c = Inr (c', es) \<Longrightarrow>
     c' = c\<lparr>active := um_erase p (active c)\<rparr> \<and> \<Union> (handed_out ` set es) = {}"
  by (auto simp: remove_stream_def call_deletion_def split: sum.splits option.splits)

text \<open>What one event does to the fields: the tag is gone, and at most one connection is dropped.\<close>

lemma sync_body_fields:
  assumes "sync_body cb t ok c = Inr (c', es, all)"
  shows "\<exists>tag. map_of (tags c) t = Some tag \<and> tags c' = um_erase t (tags c)
     \<and> next_conn c' = next_conn c \<and> \<Union> (handed_out ` set es) = {}
     \<and> processing c' = (if label tag = Writing then processing c - {tag_data tag} else processing c)
     \<and> active c' = (if (if label tag = Writing then \<not> ok else tag_data tag \<notin> processing c)
                    then um_erase (tag_data tag) (active c) else active c)"
proof -
  from assms obtain tag where tag: "map_of (tags c) t = Some tag"
    by (auto simp: sync_body_def get_tag_def split: option.splits)
  let ?c1 = "c\<lparr>tags := um_erase t (tags c)\<rparr>"
  have "if label tag = Writing then
      (if ok then c' = ?c1\<lparr>processing := processing c - {tag_data tag}\<rparr> \<and> es = []
       else remove_stream cb (tag_data tag) (?c1\<lparr>processing := processing c - {tag_data tag}\<rparr>) = Inr (c', es))
    else (if tag_data tag \<in> processing c then c' = ?c1 \<and> es = []
          else remove_stream cb (tag_data tag) ?c1 = Inr (c', es))"
    using assms tag
    by (cases "label tag") (auto simp: sync_body_def get_tag_def Let_def split: sum.splits if_splits)
  with tag show ?thesis
    by (intro exI [of _ tag]) (auto dest!: remove_stream_fields split: if_splits)
qed

lemma connections_inv_sync:
  assumes inv: "connections_inv c" and body: "sync_body cb t ok c = Inr (c', es, all)"
  shows "connections_inv c'"
proof -
  from sync_body_fields [OF body] obtain tag where
    f: "map_of (tags c) t = Some tag" "tags c' = um_erase t (tags c)" "next_conn c' = next_conn c"
      "processing c' = (if label tag = Writing then processing c - {tag_data tag} else processing c)"
      "active c' = (if (if label tag = Writing then \<not> ok else tag_data tag \<notin> processing c)
                    then um_erase (tag_data tag) (active c) else active c)"
    by blast
  have ok: "um_ok (tags c)" "um_ok (active c)" "distinct (live_connections c)"
    using inv by (simp_all add: connections_inv_def)
  from um_erase_split [OF ok(1) f(1)] obtain xs ys where
    ts: "tags c = xs @ (t, tag) # ys" "um_erase t (tags c) = xs @ ys" by blast
  have live: "distinct (live_connections c') \<and> set (live_connections c') \<subseteq> set (live_connections c)"
    using live_connections_erase [OF ok(3), of c' "tag_data tag"] f(3,5) ok(3)
    by (cases "active c' = active c") (auto simp: live_connections_def)
  have act: "set (um_keys (active c')) \<supseteq> set (um_keys (active c)) - {tag_data tag}"
    using f(5) by (auto simp: um_keys_erase)
  have keep: "label tag \<noteq> Writing \<Longrightarrow> tag_data tag \<in> processing c \<Longrightarrow> active c' = active c"
    using f(5) by simp
  have proc: "processing c' = set (writes_of (tags c')) \<and> distinct (writes_of (tags c'))"
    using inv f(2,4) ts by (auto simp: connections_inv_def)
  have sub: "processing c' \<subseteq> set (um_keys (active c'))"
    using inv f(4) act keep
    by (cases "tag_data tag \<in> processing c") (auto simp: connections_inv_def split: if_splits)
  show ?thesis
    using proc sub live f(2,5) ok inv by (auto simp: connections_inv_def)
qed

section \<open>Every reachable state\<close>

lemma activate_next_conns:
  "activate_next nc nt r0 h = (h', es) \<longleftrightarrow>
     (\<exists>c'. activate_body nc nt r0 (connection_callback h) (data (conns h)) = (es, c')
        \<and> h' = h\<lparr>conns := (conns h)\<lparr>data := c'\<rparr>\<rparr>)"
  by (auto simp: activate_next_def use_safely_def Let_def split: prod.splits)

lemma send_conns:
  "write_client nt u client h = Some out \<longleftrightarrow>
     previous_updates_processed (data (conns h)) \<and>
     (\<exists>notify result es c'. send_body nt (OpWrite u) client (data (conns h)) = ((notify, result, es), c')
        \<and> out = \<lparr>handler_after = h\<lparr>conns := (conns h)\<lparr>data := c'\<rparr>\<rparr>, effects = es,
                  notified = notify, returned = True\<rparr>)"
  "finish_client nt st client h = Some out \<longleftrightarrow>
     previous_updates_processed (data (conns h)) \<and>
     (\<exists>notify result es c'. send_body nt (OpFinish st) client (data (conns h)) = ((notify, result, es), c')
        \<and> out = \<lparr>handler_after = h\<lparr>conns := (conns h)\<lparr>data := c'\<rparr>\<rparr>, effects = es,
                  notified = notify, returned = True\<rparr>)"
  by (auto simp: write_client_def finish_client_def wait_to_use_safely_def split: option.splits prod.splits)

lemma sync_step_conns:
  fixes h :: "('req, 'cb) stream_handler"
  shows "run_synchronization_step t ok h = Inr (h', es, all) \<longleftrightarrow>
     (\<exists>c'. sync_body (deletion_callback h) t ok (data (conns h)) = Inr (c', es, all)
        \<and> h' = h\<lparr>conns := (conns h)\<lparr>data := c'\<rparr>\<rparr>)"
  and "(run_synchronization_step t ok h :: stream_error + (('req, 'cb) stream_handler \<times> ('req, 'resp, 'st, 'cb) stream_effect list \<times> bool)) = Inl e \<longleftrightarrow>
     (sync_body (deletion_callback h) t ok (data (conns h))
        :: stream_error + ('req connections \<times> ('req, 'resp, 'st, 'cb) stream_effect list \<times> bool)) = Inl e"
  by (auto simp: run_synchronization_step_def use_safely_def split: sum.splits prod.splits)

lemma record_effects_fields [simp]:
  "hdl (record_effects h es s) = h" "trace (record_effects h es s) = trace s @ es"
  "outstanding (record_effects h es s) = outstanding s \<union> \<Union> (handed_out ` set es)"
  by (simp_all add: record_effects_def)

lemma stream_inv_start [simp]: "stream_inv (stream_start a b)"
  by (simp add: stream_inv_def stream_start_def new_stream_handler_def make_atomic_data_def)
    (simp add: new_connections_def)

lemma stream_inv_step:
  assumes inv: "stream_inv s" and env: "environment_allows s ev" and step: "stream_step ev s = Some (Inr s')"
  shows "stream_inv s'"
proof (cases ev)
  case (EvRequest r)
  then show ?thesis using assms by (auto simp: stream_inv_def connections_inv_request)
next
  case (EvActivate nc nt r0)
  then obtain h' es c' where
    r: "activate_body nc nt r0 (connection_callback (hdl s)) (conn_of s) = (es, c')"
      "s' = record_effects h' es s" "data (conns h') = c'"
    using step by (auto simp: activate_next_conns split: prod.splits)
  then show ?thesis
    using EvActivate inv env connections_inv_activate [OF _ _ _ r(1)] activate_handed_out [OF _ _ _ r(1)]
    by (auto simp: stream_inv_def)
next
  case (EvWrite nt u client)
  then obtain notify result es c' where
    r: "send_body nt (OpWrite u) client (conn_of s) = ((notify, result, es), c')"
      "s' = record_effects ((hdl s)\<lparr>conns := (conns (hdl s))\<lparr>data := c'\<rparr>\<rparr>) es s"
      "previous_updates_processed (conn_of s)"
    using step by (auto simp: record_send_def send_conns)
  then show ?thesis
    using EvWrite inv env connections_inv_send [OF _ r(3) _ r(1)] by (auto simp: stream_inv_def)
next
  case (EvFinish nt st client)
  then obtain notify result es c' where
    r: "send_body nt (OpFinish st) client (conn_of s) = ((notify, result, es), c')"
      "s' = record_effects ((hdl s)\<lparr>conns := (conns (hdl s))\<lparr>data := c'\<rparr>\<rparr>) es s"
      "previous_updates_processed (conn_of s)"
    using step by (auto simp: record_send_def send_conns)
  then show ?thesis
    using EvFinish inv env connections_inv_send [OF _ r(3) _ r(1)] by (auto simp: stream_inv_def)
next
  case (EvSync t ok)
  then obtain h' es all c' where
    r: "sync_body (deletion_callback (hdl s)) t ok (conn_of s) = Inr (c', es, all)"
      "s' = record_effects h' es (s\<lparr>outstanding := outstanding s - {t}\<rparr>)" "data (conns h') = c'"
    using step by (auto simp: sync_step_conns split: sum.splits prod.splits)
  then show ?thesis
    using inv connections_inv_sync [OF _ r(1)] sync_body_fields [OF r(1)]
    by (auto simp: stream_inv_def umap_simps)
next
  case (EvOnConnect cb)
  then show ?thesis using assms by (auto simp: stream_inv_def setter_on_connect_def on_connect_def)
next
  case (EvOnDelete cb)
  then show ?thesis using assms by (auto simp: stream_inv_def setter_on_delete_def on_delete_def)
qed

lemma stream_reachable_inv: "stream_reachable s \<Longrightarrow> stream_inv s"
proof (induction rule: stream_reachable.induct)
  case (stream_next s ev s')
  then show ?case by (blast intro: stream_inv_step)
qed simp

section \<open>The locked bodies among threads\<close>

text \<open>
  The calls that reach \<open>connections_\<close>, as calls of the \<open>AtomicData\<close> monitor: the activation, the two
  senders with their wait predicate, and the synchronisation thread's body, which leaves the data
  alone where it fails.
\<close>

definition sync_locked ::
    "'cb option \<Rightarrow> ptr \<Rightarrow> bool \<Rightarrow> 'req connections
      \<Rightarrow> (stream_error + ('req, 'resp, 'st, 'cb) stream_effect list \<times> bool) \<times> 'req connections" where
  "sync_locked callback t ok c =
     (case sync_body callback t ok c of Inl e \<Rightarrow> (Inl e, c) | Inr (c', es, all) \<Rightarrow> (Inr (es, all), c'))"

definition stream_calls :: "('resp \<times> 'st \<times> 'cb) itself \<Rightarrow> 'req connections locked_call set" where
  "stream_calls _ =
     {use_call (\<lambda>c. activate_body nc nt r0 cb c :: ('req, 'resp, 'st, 'cb) stream_effect list \<times> 'req connections)
        | nc nt r0 (cb :: 'cb option). operator_new nc \<and> operator_new nt}
     \<union> {use_call (\<lambda>c. ((), request_arrives r c)) | r. True}
     \<union> {wait_call previous_updates_processed
          (\<lambda>c. send_body nt call client c
             :: (bool \<times> bool \<times> ('req, 'resp, 'st, 'cb) stream_effect list) \<times> 'req connections)
        | nt call client. operator_new nt}
     \<union> {use_call (\<lambda>c. sync_locked cb t ok c
             :: (stream_error + ('req, 'resp, 'st, 'cb) stream_effect list \<times> bool) \<times> 'req connections)
        | (cb :: 'cb option) t ok. True}"

lemma connections_inv_sync_locked: "connections_inv c \<Longrightarrow> connections_inv (snd (sync_locked cb t ok c))"
  by (auto simp: sync_locked_def intro: connections_inv_sync split: sum.splits)

lemma connections_inv_send_snd:
  "connections_inv c \<Longrightarrow> previous_updates_processed c \<Longrightarrow> operator_new nt \<Longrightarrow>
     connections_inv (snd (send_body nt call client c))"
  using connections_inv_send(1) by (metis prod.exhaust_sel)

lemma connections_inv_activate_snd:
  "connections_inv c \<Longrightarrow> operator_new nc \<Longrightarrow> operator_new nt \<Longrightarrow>
     connections_inv (snd (activate_body nc nt r0 cb c))"
  using connections_inv_activate by (metis prod.exhaust_sel)

interpretation stream_lock: lock_protected "stream_calls TYPE('resp \<times> 'st \<times> 'cb)"
    "new_connections :: 'req connections" connections_inv
  by unfold_locales
    (auto simp: stream_calls_def use_call_def wait_call_def connections_inv_sync_locked
      connections_inv_send_snd connections_inv_activate_snd connections_inv_request)

section \<open>Properties\<close>

text \<open>
  Claim C1. However the server thread, the writers and the synchronisation thread interleave, gRPC
  never has two writes under way on one stream: the outstanding writing tags belong to different
  connections, \<open>processing\<close> is exactly the set of those connections, and every one of them is still
  active, so no connection is destroyed while a write on it is under way.
\<close>

theorem stream_one_write_at_a_time:
  assumes "stream_reachable s"
  shows "distinct (writes_of (tags (conn_of s)))
    \<and> processing (conn_of s) = set (writes_of (tags (conn_of s)))
    \<and> processing (conn_of s) \<subseteq> set (um_keys (active (conn_of s)))"
  using stream_reachable_inv [OF assms] by (auto simp: stream_inv_def connections_inv_def)

text \<open>
  Claim C18. The tag table holds exactly the tags gRPC still owes, so the assertion in \<open>get_tag\<close> never
  fails: whatever outstanding tag the queue returns, \<open>run_synchronization\<close> finds it.
\<close>

theorem stream_tag_assertion_holds:
  assumes "stream_reachable s" and "environment_allows s (EvSync t ok)"
  shows "stream_step (EvSync t ok) s \<noteq> Some (Inl (TagMissing u))
    \<and> outstanding s = set (um_keys (tags (conn_of s)))"
proof -
  have out: "outstanding s = set (um_keys (tags (conn_of s)))"
    using stream_reachable_inv [OF assms(1)] by (simp add: stream_inv_def)
  with assms(2) obtain tag where "map_of (tags (conn_of s)) t = Some tag"
    by (auto simp: in_um_keys_map_of)
  then have "sync_body (deletion_callback (hdl s)) t ok (conn_of s) \<noteq> Inl (TagMissing u)"
    by (auto simp: sync_body_def get_tag_def remove_stream_def call_deletion_def Let_def
        split: sum.splits tag_label.splits option.splits)
  with out show ?thesis by (auto simp: sync_step_conns split: sum.splits)
qed

text \<open>
  The same invariant holds under the real locking: in the \<open>AtomicData\<close> monitor, where
  threads take the mutex, wait on the predicate, and read and write the data in separate steps, any
  number of threads running the handler's locked bodies keep the invariant of \<open>Connections\<close>.
\<close>

theorem stream_connections_inv_interleaved:
  assumes "monitor_reachable (stream_calls TYPE('resp \<times> 'st \<times> 'cb)) (new_connections :: 'req connections) m"
  shows "connections_inv (shared m)"
  using assms by (rule stream_lock.inv_shared)

text \<open>
  A broadcast on an idle handler sends the update to every active stream exactly once, each
  under a tag of its own that gRPC was not given before, marks exactly the active streams as being
  processed, and leaves the active and waiting connections as they are.
\<close>

theorem write_reaches_every_stream:
  fixes s :: "('req, 'resp, 'st, 'cb) stream_sys"
  assumes "stream_reachable s" and "processing (conn_of s) = {}" and "operator_new new_tag"
  shows "\<exists>ps (out :: ('req, 'resp, 'st, 'cb) send_outcome). write_everyone new_tag update (hdl s) = Some out
    \<and> effects out = map2 (\<lambda>p t. Respond p (OpWrite update) t) (um_keys (active (conn_of s))) ps
    \<and> length ps = length (active (conn_of s)) \<and> distinct ps \<and> set ps \<inter> outstanding s = {}
    \<and> processing (data (conns (handler_after out))) = set (um_keys (active (conn_of s)))
    \<and> active (data (conns (handler_after out))) = active (conn_of s)
    \<and> next_conn (data (conns (handler_after out))) = next_conn (conn_of s)"
proof -
  have inv: "connections_inv (conn_of s)" "outstanding s = set (um_keys (tags (conn_of s)))"
    using stream_reachable_inv [OF assms(1)] by (simp_all add: stream_inv_def)
  obtain notify result c' and es :: "('req, 'resp, 'st, 'cb) stream_effect list" where
    b: "send_body new_tag (OpWrite update) nullptr (conn_of s) = ((notify, result, es), c')"
    by (metis prod.exhaust)
  have t: "targets nullptr (conn_of s) = um_keys (active (conn_of s))" by (simp add: targets_def)
  from send_body_fields [OF assms(3) _ b] inv(1) obtain ps where
    f: "length ps = length (um_keys (active (conn_of s)))" "um_ok (tags c')"
      "c' = (conn_of s)\<lparr>tags := tags (conn_of s) @ zip ps (map (\<lambda>k. mk_Tag k Writing) (um_keys (active (conn_of s)))),
              processing := processing (conn_of s) \<union> set (um_keys (active (conn_of s)))\<rparr>"
      "es = map2 (\<lambda>p t. Respond p (OpWrite update) t) (um_keys (active (conn_of s))) ps"
    unfolding t connections_inv_def by blast
  have "distinct ps \<and> set ps \<inter> outstanding s = {}"
    using f(1,2) inv(2) unfolding f(3) by (auto simp: um_ok_def)
  moreover have "write_everyone new_tag update (hdl s) =
      Some \<lparr>handler_after = (hdl s)\<lparr>conns := (conns (hdl s))\<lparr>data := c'\<rparr>\<rparr>, effects = es,
            notified = notify, returned = True\<rparr>"
    using b assms(2) by (simp add: write_everyone_def send_conns previous_updates_processed_def)
  ultimately show ?thesis
    using f assms(2) by (auto simp: um_keys_def)
qed

text \<open>
  A write or finish for a client that is not connected does nothing and still returns
  true: the local variable \<open>result\<close> that records the failure is never returned.
\<close>

theorem send_to_absent_client_returns_true:
  fixes h :: "('req, 'cb) stream_handler" and update :: 'resp and status :: 'st
  assumes "processing (data (conns h)) = {}" and "client \<noteq> nullptr"
    and "client \<notin> set (um_keys (active (data (conns h))))"
  shows "write_client new_tag update client h =
      Some \<lparr>handler_after = h, effects = [] :: ('req, 'resp, 'st, 'cb) stream_effect list,
        notified = (active (data (conns h)) = []), returned = True\<rparr>
    \<and> finish_client new_tag status client h =
      Some \<lparr>handler_after = h, effects = [] :: ('req, 'resp, 'st, 'cb) stream_effect list,
        notified = (active (data (conns h)) = []), returned = True\<rparr>"
  using assms by (auto simp: send_conns send_body_def previous_updates_processed_def Let_def)


section \<open>A concrete run\<close>

text \<open>Two clients connect and one update is written to both.\<close>

definition two_clients :: "(nat, nat, nat, nat) stream_event list" where
  "two_clients = [EvActivate bump_new bump_new 0, EvRequest 70, EvActivate bump_new bump_new 0,
     EvRequest 71, EvActivate bump_new bump_new 0]"

definition two_clients_state :: "(nat, nat, nat, nat) stream_sys" where
  "two_clients_state =
    \<lparr>hdl = \<lparr>conns = \<lparr>data = \<lparr>next_conn = Some (3, \<lparr>request = 0\<rparr>),
        active = [(1, \<lparr>request = 70\<rparr>), (2, \<lparr>request = 71\<rparr>)], processing = {},
        tags = [(1, mk_Tag 1 Done), (2, mk_Tag 2 Done), (3, mk_Tag 3 Done)]\<rparr>\<rparr>,
        connection_callback = Some 8, deletion_callback = Some 9\<rparr>,
     outstanding = {1, 2, 3},
     trace = [AsyncNotifyWhenDone 1 1, RequestRpc 1, ConnectionCallback 8 70 1, AsyncNotifyWhenDone 2 2,
        RequestRpc 2, ConnectionCallback 8 71 2, AsyncNotifyWhenDone 3 3, RequestRpc 3]\<rparr>"

lemma two_clients_run: "stream_run two_clients (stream_start (Some 8) (Some 9)) = Some (Inr two_clients_state)"
  by (simp add: two_clients_def two_clients_state_def stream_eval insert_commute eval_nat_numeral)

lemma two_clients_reachable: "stream_reachable two_clients_state"
proof (rule stream_run_reachable [OF stream_init _ two_clients_run])
  show "run_allowed two_clients (stream_start (Some 8) (Some 9))"
    by (simp add: two_clients_def stream_eval)
qed

theorem stream_one_write_at_a_time_witness:
  "distinct (writes_of (tags (conn_of two_clients_state)))
    \<and> processing (conn_of two_clients_state) = set (writes_of (tags (conn_of two_clients_state)))
    \<and> processing (conn_of two_clients_state) \<subseteq> {1, 2}"
  using stream_one_write_at_a_time [OF two_clients_reachable] by (simp add: two_clients_state_def)

theorem stream_tag_assertion_holds_witness:
  "1 \<in> outstanding two_clients_state
    \<and> stream_step (EvSync 1 True) two_clients_state \<noteq> Some (Inl (TagMissing 1))"
  using stream_tag_assertion_holds [OF two_clients_reachable, of 1 True 1] by (simp add: two_clients_state_def)

theorem stream_connections_inv_interleaved_witness:
  "connections_inv (shared (monitor_start (new_connections :: nat connections)))"
  using stream_connections_inv_interleaved
    [OF monitor_init [of "stream_calls TYPE(nat \<times> nat \<times> nat)" "new_connections :: nat connections"]] .

theorem write_reaches_every_stream_witness:
  "\<exists>ps (out :: (nat, nat, nat, nat) send_outcome). write_everyone bump_new 5 (hdl two_clients_state) = Some out
    \<and> effects out = map2 (\<lambda>p t. Respond p (OpWrite 5) t) [1, 2] ps \<and> length ps = 2 \<and> distinct ps"
  using write_reaches_every_stream [OF two_clients_reachable _ operator_new_bump, of 5]
  by (auto simp: two_clients_state_def)

theorem send_to_absent_client_returns_true_witness:
  "write_client bump_new 5 42 (hdl two_clients_state) =
     Some \<lparr>handler_after = hdl two_clients_state, effects = [] :: (nat, nat, nat, nat) stream_effect list,
       notified = False, returned = True\<rparr>"
  using send_to_absent_client_returns_true [of "hdl two_clients_state" 42 bump_new "5::nat" "0::nat"]
  by (simp add: two_clients_state_def)


end
