(* ===== verification/Stream_Rpc_Lifecycle.thy ===== *)
theory Stream_Rpc_Lifecycle
  imports Stream_Rpc_Safety
begin

text \<open>
  The life of a stream: the connection callback when a client arrives, the deletion callback when
  it leaves. The comment in \<open>run_synchronization\<close> relies on the order in which gRPC reports the end
  of a call; \<open>stream_discipline\<close> writes that assumption down, and under it every stream that was
  announced is deleted exactly once. The last section shows runs outside the assumption, which the
  completion queue does allow: a deletion callback on a destroyed connection, a stream that is never
  deleted, and a deletion reported before the connection.
\<close>

section \<open>Counting callbacks\<close>

fun is_connect :: "ptr \<Rightarrow> ('req, 'resp, 'st, 'cb) stream_effect \<Rightarrow> bool" where
  "is_connect p (ConnectionCallback cb r q) = (q = p)"
| "is_connect p e = False"

fun is_delete :: "ptr \<Rightarrow> ('req, 'resp, 'st, 'cb) stream_effect \<Rightarrow> bool" where
  "is_delete p (DeletionCallback cb r q) = (q = p)"
| "is_delete p e = False"

definition connects :: "ptr \<Rightarrow> ('req, 'resp, 'st, 'cb) stream_effect list \<Rightarrow> nat" where
  "connects p es = length (filter (is_connect p) es)"

definition deletes :: "ptr \<Rightarrow> ('req, 'resp, 'st, 'cb) stream_effect list \<Rightarrow> nat" where
  "deletes p es = length (filter (is_delete p) es)"

lemma count_simps [simp]:
  "connects p [] = 0" "deletes p [] = 0"
  "connects p (e # es) = (if is_connect p e then 1 else 0) + connects p es"
  "deletes p (e # es) = (if is_delete p e then 1 else 0) + deletes p es"
  "connects p (es @ fs) = connects p es + connects p fs"
  "deletes p (es @ fs) = deletes p es + deletes p fs"
  by (simp_all add: connects_def deletes_def)

lemma counts_responds [simp]:
  "length ps = length ks \<Longrightarrow> connects p (map2 (\<lambda>k t. Respond k call t) ks ps) = 0"
  "length ps = length ks \<Longrightarrow> deletes p (map2 (\<lambda>k t. Respond k call t) ks ps) = 0"
  by (induction ps ks rule: list_induct2) auto

section \<open>The order the code relies on\<close>

text \<open>
  A done notification comes only for a stream that has been activated, and a write reports failure
  exactly when the done notification of its stream has already been returned.
\<close>

fun stream_discipline ::
    "('req, 'resp, 'st, 'cb) stream_sys \<Rightarrow> ('req, 'resp, 'st, 'cb) stream_event \<Rightarrow> bool" where
  "stream_discipline s (EvSync t ok) =
     (case map_of (tags (conn_of s)) t of
        None \<Rightarrow> True
      | Some tag \<Rightarrow>
          (case label tag of
             Writing \<Rightarrow> ok = (tag_data tag \<in> set (dones_of (tags (conn_of s))))
           | Done \<Rightarrow> tag_data tag \<in> set (um_keys (active (conn_of s)))))"
| "stream_discipline s (EvOnConnect cb) = False"
| "stream_discipline s (EvOnDelete cb) = False"
| "stream_discipline s ev = True"

inductive stream_disciplined :: "('req, 'resp, 'st, 'cb) stream_sys \<Rightarrow> bool" where
  disciplined_init: "stream_disciplined (stream_start (Some a) (Some b))"
| disciplined_next: "stream_disciplined s \<Longrightarrow> environment_allows s ev \<Longrightarrow> stream_discipline s ev \<Longrightarrow>
    stream_step ev s = Some (Inr s') \<Longrightarrow> stream_disciplined s'"

lemma disciplined_reachable: "stream_disciplined s \<Longrightarrow> stream_reachable s"
  by (induction rule: stream_disciplined.induct) (blast intro: stream_init stream_next)+

definition dones_inv :: "'req connections \<Rightarrow> bool" where
  "dones_inv c \<longleftrightarrow> distinct (dones_of (tags c)) \<and> set (dones_of (tags c)) \<subseteq> set (live_connections c)
     \<and> (\<forall>p x. next_conn c = Some (p, x) \<longrightarrow> p \<in> set (dones_of (tags c)))
     \<and> set (um_keys (active c)) \<subseteq> set (dones_of (tags c)) \<union> processing c"

definition paired :: "'req connections \<Rightarrow> ('req, 'resp, 'st, 'cb) stream_effect list \<Rightarrow> bool" where
  "paired c es \<longleftrightarrow>
     (\<forall>p. connects p es = deletes p es + (if p \<in> set (um_keys (active c)) then 1 else 0))"

definition life_inv :: "('req, 'resp, 'st, 'cb) stream_sys \<Rightarrow> bool" where
  "life_inv s \<longleftrightarrow> connection_callback (hdl s) \<noteq> None \<and> deletion_callback (hdl s) \<noteq> None
     \<and> stream_inv s \<and> dones_inv (conn_of s) \<and> paired (conn_of s) (trace s)"

subsection \<open>One lemma per locked body\<close>

lemma dones_inv_activate:
  assumes inv: "connections_inv c" and d: "dones_inv c" and new: "operator_new nc" "operator_new nt"
    and body: "activate_body nc nt r0 cb c = (es, c')"
  shows "dones_inv c'"
proof -
  from activate_body_fields [OF inv new body] obtain p t where
    f: "um_keys (active c') = live_connections c" "next_conn c' = Some (p, \<lparr>request = r0\<rparr>)"
      "p \<notin> set (live_connections c)" "tags c' = tags c @ [(t, mk_Tag p Done)]" "processing c' = processing c"
    by blast
  have "set (live_connections c) \<subseteq> set (dones_of (tags c)) \<union> processing c"
    using d by (cases "next_conn c") (auto simp: dones_inv_def live_connections_def)
  with f d show ?thesis by (auto simp: dones_inv_def live_connections_def)
qed

lemma paired_activate:
  assumes inv: "connections_inv c" and new: "operator_new nc" "operator_new nt"
    and body: "activate_body nc nt r0 (Some cb) c = (es, c')" and pre: "paired c tr"
  shows "paired c' (tr @ es)"
proof -
  from activate_body_fields [OF inv new body] obtain p t where
    f: "um_keys (active c') = live_connections c"
      "es = snd (promote_next (Some cb) c) @ [AsyncNotifyWhenDone p t, RequestRpc p]"
    by blast
  have "distinct (live_connections c)" using inv by (simp add: connections_inv_def)
  with f pre show ?thesis
    by (auto simp: paired_def promote_next_def live_connections_def split: option.splits)
qed

lemma send_keeps_life:
  assumes inv: "connections_inv c" and new: "operator_new nt"
    and body: "send_body nt call client c = ((notify, result, es), c')"
  shows "dones_inv c \<Longrightarrow> dones_inv c'" and "paired c tr \<Longrightarrow> paired c' (tr @ es)"
proof -
  have "um_ok (tags c)" using inv by (simp add: connections_inv_def)
  from send_body_fields [OF new this body] obtain ps where
    "length ps = length (targets client c)"
    "c' = c\<lparr>tags := tags c @ zip ps (map (\<lambda>k. mk_Tag k Writing) (targets client c)),
            processing := processing c \<union> set (targets client c)\<rparr>"
    "es = map2 (\<lambda>k t. Respond k call t) (targets client c) ps"
    by blast
  then show "dones_inv c \<Longrightarrow> dones_inv c'" and "paired c tr \<Longrightarrow> paired c' (tr @ es)"
    by (auto simp: dones_inv_def paired_def live_connections_def)
qed

lemma sync_body_deletes:
  assumes "sync_body (Some cb) t ok c = Inr (c', es, all)" and "map_of (tags c) t = Some tag"
  shows "connects p es = 0 \<and> deletes p es =
     (if (if label tag = Writing then \<not> ok else tag_data tag \<notin> processing c) \<and> p = tag_data tag then 1 else 0)"
  using assms
  by (cases "label tag")
    (auto simp: sync_body_def get_tag_def remove_stream_def call_deletion_def Let_def
      split: sum.splits option.splits if_splits)

lemma paired_sync:
  assumes inv: "connections_inv c" and body: "sync_body (Some cb) t ok c = Inr (c', es, all)"
    and tag: "map_of (tags c) t = Some tag"
    and disc: "label tag = Done \<Longrightarrow> tag_data tag \<in> set (um_keys (active c))"
    and pre: "paired c tr"
  shows "paired c' (tr @ es)"
proof -
  have act: "active c' = (if (if label tag = Writing then \<not> ok else tag_data tag \<notin> processing c)
                    then um_erase (tag_data tag) (active c) else active c)"
    using sync_body_fields [OF body] tag by auto
  have "label tag = Writing \<Longrightarrow> tag_data tag \<in> set (um_keys (active c))"
    using inv um_erase_split [of "tags c" t tag] tag by (fastforce simp: connections_inv_def)
  with disc have "tag_data tag \<in> set (um_keys (active c))" by (cases "label tag") auto
  with pre act sync_body_deletes [OF body tag] show ?thesis
    by (auto simp: paired_def um_keys_erase)
qed

lemma dones_inv_sync:
  assumes inv: "connections_inv c" and body: "sync_body cb t ok c = Inr (c', es, all)"
    and tag: "map_of (tags c) t = Some tag" and d: "dones_inv c"
    and disc: "case label tag of Writing \<Rightarrow> ok = (tag_data tag \<in> set (dones_of (tags c)))
       | Done \<Rightarrow> tag_data tag \<in> set (um_keys (active c))"
  shows "dones_inv c'"
proof -
  from sync_body_fields [OF body] tag have
    f: "tags c' = um_erase t (tags c)" "next_conn c' = next_conn c"
      "processing c' = (if label tag = Writing then processing c - {tag_data tag} else processing c)"
      "active c' = (if (if label tag = Writing then \<not> ok else tag_data tag \<notin> processing c)
                    then um_erase (tag_data tag) (active c) else active c)"
    by auto
  have ok: "um_ok (tags c)" and live: "distinct (live_connections c)"
    using inv by (simp_all add: connections_inv_def)
  from um_erase_split [OF ok tag] obtain xs ys where
    ts: "tags c = xs @ (t, tag) # ys" "um_erase t (tags c) = xs @ ys" by blast
  show ?thesis
  proof (cases "label tag")
    case Writing
    with ts have "set (dones_of (tags c')) = set (dones_of (tags c))" "distinct (dones_of (tags c'))"
      using d f(1) by (auto simp: dones_inv_def)
    with Writing disc d f live show ?thesis
      by (cases ok) (auto simp: dones_inv_def live_connections_def um_keys_erase split: option.splits)
  next
    case Done
    with ts d f(1) have "set (dones_of (tags c')) = set (dones_of (tags c)) - {tag_data tag}"
      "distinct (dones_of (tags c'))"
      by (auto simp: dones_inv_def)
    with Done disc d f live show ?thesis
      by (cases "tag_data tag \<in> processing c")
        (auto simp: dones_inv_def live_connections_def um_keys_erase split: option.splits)
  qed
qed

subsection \<open>Every disciplined state\<close>

lemma callbacks_step:
  assumes "stream_step ev s = Some (Inr s')" and "stream_discipline s ev"
  shows "connection_callback (hdl s') = connection_callback (hdl s)
     \<and> deletion_callback (hdl s') = deletion_callback (hdl s)"
  using assms
  by (cases ev) (auto simp: activate_next_conns record_send_def send_conns sync_step_conns
      split: sum.splits prod.splits)

lemma life_inv_step:
  assumes life: "life_inv s" and env: "environment_allows s ev" and disc: "stream_discipline s ev"
    and step: "stream_step ev s = Some (Inr s')"
  shows "life_inv s'"
proof -
  have inv: "connections_inv (conn_of s)" and d: "dones_inv (conn_of s)" and p: "paired (conn_of s) (trace s)"
    using life by (simp_all add: life_inv_def stream_inv_def)
  obtain cc dc where cb: "connection_callback (hdl s) = Some cc" "deletion_callback (hdl s) = Some dc"
    using life by (auto simp: life_inv_def)
  have "dones_inv (conn_of s') \<and> paired (conn_of s') (trace s')"
  proof (cases ev)
    case (EvRequest r)
    then show ?thesis
      using step d p by (cases "next_conn (conn_of s)")
        (auto simp: dones_inv_def paired_def request_arrives_def live_connections_def)
  next
    case (EvActivate nc nt r0)
    then obtain h' es c' where
      r: "activate_body nc nt r0 (Some cc) (conn_of s) = (es, c')"
        "s' = record_effects h' es s" "data (conns h') = c'"
      using step cb by (auto simp: activate_next_conns split: prod.splits)
    with EvActivate env show ?thesis
      using dones_inv_activate [OF inv d _ _ r(1)] paired_activate [OF inv _ _ r(1) p] by simp
  next
    case (EvWrite nt u client)
    then show ?thesis
      using step env d p send_keeps_life [OF inv]
      by (fastforce simp: record_send_def send_conns)
  next
    case (EvFinish nt st client)
    then show ?thesis
      using step env d p send_keeps_life [OF inv]
      by (fastforce simp: record_send_def send_conns)
  next
    case (EvSync t ok)
    then obtain h' es all c' where
      r: "sync_body (Some dc) t ok (conn_of s) = Inr (c', es, all)"
        "s' = record_effects h' es (s\<lparr>outstanding := outstanding s - {t}\<rparr>)" "data (conns h') = c'"
      using step cb by (auto simp: sync_step_conns split: sum.splits prod.splits)
    from sync_body_fields [OF r(1)] obtain tag where tag: "map_of (tags (conn_of s)) t = Some tag" by blast
    with EvSync disc have dt: "case label tag of Writing \<Rightarrow> ok = (tag_data tag \<in> set (dones_of (tags (conn_of s))))
       | Done \<Rightarrow> tag_data tag \<in> set (um_keys (active (conn_of s)))"
      by simp
    then have "label tag = Done \<Longrightarrow> tag_data tag \<in> set (um_keys (active (conn_of s)))" by simp
    with r dones_inv_sync [OF inv r(1) tag d dt] paired_sync [OF inv r(1) tag _ p] show ?thesis by simp
  qed (use disc in auto)
  with callbacks_step [OF step disc] stream_inv_step [OF _ env step] life show ?thesis
    by (simp add: life_inv_def)
qed

lemma life_inv_disciplined: "stream_disciplined s \<Longrightarrow> life_inv s"
proof (induction rule: stream_disciplined.induct)
  case (disciplined_init a b)
  show ?case
    by (simp add: life_inv_def dones_inv_def paired_def)
      (simp add: stream_start_def new_stream_handler_def make_atomic_data_def new_connections_def
        live_connections_def)
next
  case (disciplined_next s ev s')
  then show ?case by (blast intro: life_inv_step)
qed

section \<open>Properties\<close>



section \<open>Runs outside the assumption\<close>

definition write_fails_first :: "(nat, nat, nat, nat) stream_event list" where
  "write_fails_first = two_clients @ [EvWrite bump_new 5 1, EvSync 4 False, EvSync 1 True]"

definition done_comes_first :: "(nat, nat, nat, nat) stream_event list" where
  "done_comes_first = two_clients @ [EvWrite bump_new 5 1, EvSync 1 True, EvSync 4 True]"

definition done_before_activation :: "(nat, nat, nat, nat) stream_event list" where
  "done_before_activation = [EvActivate bump_new bump_new 0, EvRequest 70, EvSync 1 True,
     EvActivate bump_new bump_new 0]"



text \<open>
  The done notification and the start of a call come from different queues and are handled
  by different threads. When the notification is handled first, the deletion callback is made before
  the connection callback, and the dead connection becomes active and stays so.
\<close>

theorem done_before_activation_reverses_callbacks:
  "run_allowed done_before_activation (stream_start (Some 8) (Some 9))
    \<and> (\<exists>s. stream_run done_before_activation (stream_start (Some 8) (Some 9)) = Some (Inr s)
         \<and> trace s = [AsyncNotifyWhenDone 1 1, RequestRpc 1, DeletionCallback 9 70 1,
              ConnectionCallback 8 70 1, AsyncNotifyWhenDone 2 1, RequestRpc 2]
         \<and> um_keys (active (conn_of s)) = [1])"
  by (simp add: done_before_activation_def stream_eval insert_commute eval_nat_numeral)

section \<open>Witnesses\<close>

fun run_disciplined ::
    "('req, 'resp, 'st, 'cb) stream_event list \<Rightarrow> ('req, 'resp, 'st, 'cb) stream_sys \<Rightarrow> bool" where
  "run_disciplined [] s = True"
| "run_disciplined (ev # evs) s =
     (stream_discipline s ev \<and>
      (case stream_step ev s of Some (Inr s') \<Rightarrow> run_disciplined evs s' | _ \<Rightarrow> True))"

lemma stream_run_disciplined:
  "stream_disciplined s \<Longrightarrow> run_allowed evs s \<Longrightarrow> run_disciplined evs s \<Longrightarrow>
    stream_run evs s = Some (Inr s') \<Longrightarrow> stream_disciplined s'"
proof (induction evs arbitrary: s)
  case (Cons ev evs)
  from Cons.prems(4) obtain s1 where s1: "stream_step ev s = Some (Inr s1)" "stream_run evs s1 = Some (Inr s')"
    by (auto split: option.splits sum.splits)
  with Cons.prems(1-3) have "stream_disciplined s1" "run_allowed evs s1" "run_disciplined evs s1"
    by (auto intro: disciplined_next)
  with s1(2) show ?case by (blast intro: Cons.IH)
qed simp

lemma two_clients_disciplined: "stream_disciplined two_clients_state"
proof (rule stream_run_disciplined [OF disciplined_init _ _ two_clients_run])
  show "run_allowed two_clients (stream_start (Some 8) (Some 9))"
    and "run_disciplined two_clients (stream_start (Some 8) (Some 9))"
    by (simp_all add: two_clients_def stream_eval)
qed



end
