(* ===== verification/Simulation.thy ===== *)
theory Simulation
  imports Main
begin

text \<open>
  Runs of labelled steps, and the refinement of a detailed machine to an abstract one: a function
  on states, one that reads the abstract label off a detailed step, and a step of the detailed
  machine being a step of the abstract one under that label.
\<close>

inductive runs :: "('l \<Rightarrow> 's \<Rightarrow> 's \<Rightarrow> bool) \<Rightarrow> 's \<Rightarrow> 'l list \<Rightarrow> 's \<Rightarrow> bool"
  for step s where
  runs_nil: "runs step s [] s"
| runs_snoc: "runs step s ls t \<Longrightarrow> step l t u \<Longrightarrow> runs step s (ls @ [l]) u"

lemma runs_append: "runs step t ms u \<Longrightarrow> runs step s ls t \<Longrightarrow> runs step s (ls @ ms) u"
proof (induction rule: runs.induct)
  case (runs_snoc ms u l v)
  from runs.runs_snoc [OF runs_snoc.IH [OF runs_snoc.prems] runs_snoc.hyps(2)] show ?case by simp
qed simp

lemma runs_Cons: "step l s t \<Longrightarrow> runs step t ls u \<Longrightarrow> runs step s (l # ls) u"
  using runs_append [of step t ls u s "[l]"] runs_snoc [OF runs_nil, of step l s t] by simp

text \<open>A run of the detailed machine together with the abstract labels of its steps.\<close>

inductive observed ::
    "('s \<Rightarrow> 'e \<Rightarrow> 'l) \<Rightarrow> ('e \<Rightarrow> 's \<Rightarrow> 's \<Rightarrow> bool) \<Rightarrow> 's \<Rightarrow> 'e list \<Rightarrow> 'l list \<Rightarrow> 's \<Rightarrow> bool"
  for lab step where
  observed_nil: "observed lab step s [] [] s"
| observed_step: "step e s t \<Longrightarrow> observed lab step t es ls u \<Longrightarrow> observed lab step s (e # es) (lab s e # ls) u"

locale forward_simulation =
  fixes cstep :: "'e \<Rightarrow> 's \<Rightarrow> 's \<Rightarrow> bool" and astep :: "'l \<Rightarrow> 'a \<Rightarrow> 'a \<Rightarrow> bool"
    and inv :: "'s \<Rightarrow> bool" and abs :: "'s \<Rightarrow> 'a" and lab :: "'s \<Rightarrow> 'e \<Rightarrow> 'l"
  assumes inv_step: "inv s \<Longrightarrow> cstep e s t \<Longrightarrow> inv t"
    and simulates: "inv s \<Longrightarrow> cstep e s t \<Longrightarrow> astep (lab s e) (abs s) (abs t)"
begin

lemma simulates_observed:
  "observed lab cstep s es ls t \<Longrightarrow> inv s \<Longrightarrow> inv t \<and> runs astep (abs s) ls (abs t)"
proof (induction rule: observed.induct)
  case (observed_step e s t es ls u)
  then show ?case using inv_step [of s e t] simulates [of s e t] by (auto intro: runs_Cons)
qed (simp add: runs_nil)

end

end
