(* ===== verification/Stream_Rpc_Spec.thy ===== *)
theory Stream_Rpc_Spec
  imports Stream_Rpc_Safety Simulation
begin

text \<open>
  What \<open>StreamRpcHandler\<close> (include/grpcw/server/detail/stream_rpc_handler.hpp) promises: a group of
  sessions. A client joins and leaves; \<open>write\<close> and \<open>finish\<close> give every member, or one of them, the
  next response; the members whose response is on its way are \<open>in_flight\<close>, and no response is given
  while there are any. \<open>group_of\<close> reads the group off the handler and the calls it has made, and
  every step of the handler is a step of the group, or leaves it alone. What a member has been given
  since it joined is then a fact about groups.
\<close>

section \<open>The specification\<close>

record ('resp, 'st) session_group =
  sessions :: "ptr \<rightharpoonup> ('resp, 'st) responder_call list"
  in_flight :: "ptr set"

datatype ('resp, 'st) group_event =
    Join ptr
  | Broadcast "('resp, 'st) responder_call"
  | SendTo ptr "('resp, 'st) responder_call"
  | Written ptr
  | Leave ptr
  | Quiet

fun group_step ::
    "('resp, 'st) group_event \<Rightarrow> ('resp, 'st) session_group \<Rightarrow> ('resp, 'st) session_group \<Rightarrow> bool" where
  "group_step (Join p) g g' \<longleftrightarrow> p \<notin> dom (sessions g) \<and> g' = g\<lparr>sessions := (sessions g)(p \<mapsto> [])\<rparr>"
| "group_step (Broadcast call) g g' \<longleftrightarrow> in_flight g = {}
     \<and> g' = \<lparr>sessions = (\<lambda>p. map_option (\<lambda>given. given @ [call]) (sessions g p)), in_flight = dom (sessions g)\<rparr>"
| "group_step (SendTo p call) g g' \<longleftrightarrow> in_flight g = {}
     \<and> (\<exists>given. sessions g p = Some given
          \<and> g' = \<lparr>sessions = (sessions g)(p \<mapsto> given @ [call]), in_flight = {p}\<rparr>)"
| "group_step (Written p) g g' \<longleftrightarrow> p \<in> in_flight g \<and> g' = g\<lparr>in_flight := in_flight g - {p}\<rparr>"
| "group_step (Leave p) g g' \<longleftrightarrow> p \<in> dom (sessions g)
     \<and> g' = \<lparr>sessions = (sessions g)(p := None), in_flight = in_flight g - {p}\<rparr>"
| "group_step Quiet g g' \<longleftrightarrow> g' = g"

definition empty_group :: "('resp, 'st) session_group" where
  "empty_group = \<lparr>sessions = Map.empty, in_flight = {}\<rparr>"

text \<open>What a member was given since it joined last, according to the events alone.\<close>

fun given_step ::
    "ptr \<Rightarrow> ('resp, 'st) group_event \<Rightarrow> ('resp, 'st) responder_call list \<Rightarrow> ('resp, 'st) responder_call list" where
  "given_step p (Join q) given = (if q = p then [] else given)"
| "given_step p (Broadcast call) given = given @ [call]"
| "given_step p (SendTo q call) given = (if q = p then given @ [call] else given)"
| "given_step p e given = given"

definition given_since_join ::
    "ptr \<Rightarrow> ('resp, 'st) group_event list \<Rightarrow> ('resp, 'st) responder_call list" where
  "given_since_join p events = fold (given_step p) events []"

lemma given_since_join_snoc: "given_since_join p (events @ [e]) = given_step p e (given_since_join p events)"
  by (simp add: given_since_join_def)

lemma sessions_step:
  assumes "group_step e g g'" and "\<forall>p given. sessions g p = Some given \<longrightarrow> given = given_since_join p events"
  shows "\<forall>p given. sessions g' p = Some given \<longrightarrow> given = given_since_join p (events @ [e])"
  using assms by (cases e) (auto simp: given_since_join_snoc split: if_splits)

lemma sessions_given:
  assumes "runs group_step empty_group events g" and "sessions g p = Some given"
  shows "given = given_since_join p events"
proof -
  have "\<forall>p given. sessions g p = Some given \<longrightarrow> given = given_since_join p events"
    using assms(1)
  proof (induction rule: runs.induct)
    case (runs_snoc events g e g')
    from sessions_step [OF runs_snoc.hyps(2) runs_snoc.IH] show ?case .
  qed (simp add: empty_group_def)
  with assms(2) show ?thesis by blast
qed

text \<open>At most one response on its way for each member, and only to members.\<close>

lemma in_flight_members:
  "runs group_step empty_group events g \<Longrightarrow> in_flight g \<subseteq> dom (sessions g)"
proof (induction rule: runs.induct)
  case (runs_snoc events g e g')
  then show ?case by (cases e) (auto split: if_splits)
qed (simp add: empty_group_def)

section \<open>The group behind a handler\<close>

text \<open>The calls on the connection object at \<open>p\<close>: those since gRPC was given the object.\<close>

fun note_call ::
    "ptr \<Rightarrow> ('req, 'resp, 'st, 'cb) stream_effect \<Rightarrow> ('resp, 'st) responder_call list \<Rightarrow> ('resp, 'st) responder_call list" where
  "note_call p (RequestRpc q) given = (if q = p then [] else given)"
| "note_call p (Respond q call tag) given = (if q = p then given @ [call] else given)"
| "note_call p e given = given"

definition calls_on :: "ptr \<Rightarrow> ('req, 'resp, 'st, 'cb) stream_effect list \<Rightarrow> ('resp, 'st) responder_call list" where
  "calls_on p es = fold (note_call p) es []"

definition group_of :: "('req, 'resp, 'st, 'cb) stream_sys \<Rightarrow> ('resp, 'st) session_group" where
  "group_of s =
     \<lparr>sessions = (\<lambda>p. if p \<in> set (um_keys (active (conn_of s))) then Some (calls_on p (trace s)) else None),
      in_flight = processing (conn_of s)\<rparr>"

definition send_event ::
    "('resp, 'st) responder_call \<Rightarrow> ptr \<Rightarrow> 'req connections \<Rightarrow> ('resp, 'st) group_event" where
  "send_event call client c =
     (if client = nullptr then Broadcast call
      else if client \<in> set (um_keys (active c)) then SendTo client call else Quiet)"

definition sync_event :: "ptr \<Rightarrow> bool \<Rightarrow> 'req connections \<Rightarrow> ('resp, 'st) group_event" where
  "sync_event t ok c =
     (case map_of (tags c) t of
        None \<Rightarrow> Quiet
      | Some tag \<Rightarrow>
          (if label tag = Writing \<and> ok then Written (tag_data tag)
           else if label tag \<noteq> Writing \<and> tag_data tag \<in> processing c then Quiet
           else if tag_data tag \<in> set (um_keys (active c)) then Leave (tag_data tag) else Quiet))"

fun group_event_of ::
    "('req, 'resp, 'st, 'cb) stream_sys \<Rightarrow> ('req, 'resp, 'st, 'cb) stream_event \<Rightarrow> ('resp, 'st) group_event" where
  "group_event_of s (EvActivate nc nt r0) =
     (case next_conn (conn_of s) of None \<Rightarrow> Quiet | Some (p, _) \<Rightarrow> Join p)"
| "group_event_of s (EvWrite nt u client) = send_event (OpWrite u) client (conn_of s)"
| "group_event_of s (EvFinish nt st client) = send_event (OpFinish st) client (conn_of s)"
| "group_event_of s (EvSync t ok) = sync_event t ok (conn_of s)"
| "group_event_of s ev = Quiet"

text \<open>The waiting connection has not been given anything.\<close>

definition spec_inv :: "('req, 'resp, 'st, 'cb) stream_sys \<Rightarrow> bool" where
  "spec_inv s \<longleftrightarrow> stream_inv s \<and> (\<forall>p r. next_conn (conn_of s) = Some (p, r) \<longrightarrow> calls_on p (trace s) = [])"

definition allowed_step ::
    "('req, 'resp, 'st, 'cb) stream_event \<Rightarrow> ('req, 'resp, 'st, 'cb) stream_sys
      \<Rightarrow> ('req, 'resp, 'st, 'cb) stream_sys \<Rightarrow> bool" where
  "allowed_step ev s s' \<longleftrightarrow> environment_allows s ev \<and> stream_step ev s = Some (Inr s')"

section \<open>Every step of the handler is a step of the group\<close>

lemma calls_on_append: "calls_on p (es @ fs) = fold (note_call p) fs (calls_on p es)"
  by (simp add: calls_on_def)

lemma note_responds:
  "length ps = length ks \<Longrightarrow> distinct ks \<Longrightarrow>
     fold (note_call p) (map2 (\<lambda>k t. Respond k call t) ks ps) given = (if p \<in> set ks then given @ [call] else given)"
  by (induction ps ks arbitrary: given rule: list_induct2) auto

lemma note_promote: "fold (note_call p) (snd (promote_next cb c)) given = given"
  by (auto simp: promote_next_def split: option.splits)

lemma remove_stream_notes:
  "remove_stream cb q c = Inr (c', es) \<Longrightarrow> fold (note_call p) es given = given"
  by (auto simp: remove_stream_def call_deletion_def split: option.splits sum.splits)

lemma sync_body_notes:
  "sync_body cb t ok c = Inr (c', es, all) \<Longrightarrow> fold (note_call p) es given = given"
  by (auto simp: sync_body_def Let_def dest: remove_stream_notes [where p = p and given = given]
      split: sum.splits prod.splits tag_label.splits if_splits)

lemma active_live: "set (um_keys (active c)) \<subseteq> set (live_connections c)"
  by (simp add: live_connections_def)

lemma next_not_active:
  "distinct (live_connections c) \<Longrightarrow> next_conn c = Some (p, r) \<Longrightarrow> p \<notin> set (um_keys (active c))"
  by (simp add: live_connections_def)

lemma targets_next:
  "distinct (live_connections c) \<Longrightarrow> next_conn c = Some (p, r) \<Longrightarrow> p \<notin> set (targets client c)"
  using next_not_active targets_active by fastforce

text \<open>A send: \<open>call\<close> is given to the targets, which are then the members in flight.\<close>

lemma send_simulates:
  fixes s s' :: "('req, 'resp, 'st, 'cb) stream_sys" and es :: "('req, 'resp, 'st, 'cb) stream_effect list"
  assumes inv: "spec_inv s" and new: "operator_new nt" and idle: "previous_updates_processed (conn_of s)"
    and body: "send_body nt call client (conn_of s) = ((notify, result, es), c')"
    and s': "trace s' = trace s @ es" "conn_of s' = c'"
  shows "group_step (send_event call client (conn_of s)) (group_of s) (group_of s')"
    and "\<forall>p r. next_conn c' = Some (p, r) \<longrightarrow> calls_on p (trace s') = []"
proof -
  have ci: "connections_inv (conn_of s)" and nx: "\<And>p r. next_conn (conn_of s) = Some (p, r) \<Longrightarrow> calls_on p (trace s) = []"
    using inv by (auto simp: spec_inv_def stream_inv_def)
  then have ok: "um_ok (tags (conn_of s))" "um_ok (active (conn_of s))" "distinct (live_connections (conn_of s))"
    and proc: "processing (conn_of s) = {}" using idle
    by (simp_all add: connections_inv_def previous_updates_processed_def)
  from send_body_fields [OF new ok(1) body] obtain ps where
    f: "length ps = length (targets client (conn_of s))"
      "c' = (conn_of s)\<lparr>tags := tags (conn_of s) @ zip ps (map (\<lambda>k. mk_Tag k Writing) (targets client (conn_of s))),
              processing := processing (conn_of s) \<union> set (targets client (conn_of s))\<rparr>"
      "es = map2 (\<lambda>k t. Respond k call t) (targets client (conn_of s)) ps"
    by blast
  have calls: "calls_on p (trace s') =
      (if p \<in> set (targets client (conn_of s)) then calls_on p (trace s) @ [call] else calls_on p (trace s))" for p
    unfolding s'(1) f(3) calls_on_append by (rule note_responds [OF f(1) distinct_targets [OF ok(2)]])
  show "group_step (send_event call client (conn_of s)) (group_of s) (group_of s')"
    using proc s'(2) f(2)
    by (auto simp: send_event_def group_of_def calls targets_def fun_eq_iff split: if_splits)
  show "\<forall>p r. next_conn c' = Some (p, r) \<longrightarrow> calls_on p (trace s') = []"
    using f(2) nx targets_next [OF ok(3)] by (simp add: calls)
qed

text \<open>The activation: the waiting connection, if there is one, joins with nothing given.\<close>

lemma activate_simulates:
  fixes s s' :: "('req, 'resp, 'st, 'cb) stream_sys" and es :: "('req, 'resp, 'st, 'cb) stream_effect list"
  assumes inv: "spec_inv s" and new: "operator_new nc" "operator_new nt"
    and body: "activate_body nc nt r0 cb (conn_of s) = (es, c')"
    and s': "trace s' = trace s @ es" "conn_of s' = c'"
  shows "group_step (group_event_of s (EvActivate nc nt r0)) (group_of s) (group_of s')"
    and "\<forall>p r. next_conn c' = Some (p, r) \<longrightarrow> calls_on p (trace s') = []"
proof -
  have ci: "connections_inv (conn_of s)"
    and nx: "\<And>p r. next_conn (conn_of s) = Some (p, r) \<Longrightarrow> calls_on p (trace s) = []"
    using inv by (auto simp: spec_inv_def stream_inv_def)
  then have live: "distinct (live_connections (conn_of s))" by (simp add: connections_inv_def)
  from activate_body_fields [OF ci new body] obtain q t where
    f: "um_keys (active c') = live_connections (conn_of s)" "next_conn c' = Some (q, \<lparr>request = r0\<rparr>)"
      "q \<notin> set (live_connections (conn_of s))" "processing c' = processing (conn_of s)"
      "es = snd (promote_next cb (conn_of s)) @ [AsyncNotifyWhenDone q t, RequestRpc q]"
    by blast
  have calls: "calls_on p (trace s') = (if p = q then [] else calls_on p (trace s))" for p
    by (simp add: s'(1) f(5) calls_on_append note_promote)
  show "group_step (group_event_of s (EvActivate nc nt r0)) (group_of s) (group_of s')"
    using f(1,3,4) live nx
    by (auto simp: group_of_def calls s'(2) fun_eq_iff live_connections_def split: option.splits)
  show "\<forall>p r. next_conn c' = Some (p, r) \<longrightarrow> calls_on p (trace s') = []"
    by (simp add: calls f(2))
qed

text \<open>An event of the completion queue: a response is out, or a member has left.\<close>

lemma sync_simulates:
  fixes s s' :: "('req, 'resp, 'st, 'cb) stream_sys" and es :: "('req, 'resp, 'st, 'cb) stream_effect list"
  assumes inv: "spec_inv s"
    and body: "sync_body cb t ok (conn_of s) = Inr (c', es, all)"
    and s': "trace s' = trace s @ es" "conn_of s' = c'"
  shows "group_step (sync_event t ok (conn_of s)) (group_of s) (group_of s')"
    and "\<forall>p r. next_conn c' = Some (p, r) \<longrightarrow> calls_on p (trace s') = []"
proof -
  have ci: "connections_inv (conn_of s)"
    and nx: "\<And>p r. next_conn (conn_of s) = Some (p, r) \<Longrightarrow> calls_on p (trace s) = []"
    using inv by (auto simp: spec_inv_def stream_inv_def)
  from sync_body_fields [OF body] obtain tag where
    f: "map_of (tags (conn_of s)) t = Some tag" "next_conn c' = next_conn (conn_of s)"
      "processing c' = (if label tag = Writing then processing (conn_of s) - {tag_data tag} else processing (conn_of s))"
      "active c' = (if (if label tag = Writing then \<not> ok else tag_data tag \<notin> processing (conn_of s))
                    then um_erase (tag_data tag) (active (conn_of s)) else active (conn_of s))"
    by blast
  have "tag_data tag \<in> processing (conn_of s)" if "label tag = Writing"
    using ci f(1) that map_of_SomeD [OF f(1)] by (force simp: connections_inv_def writes_of_def)
  then have member: "tag_data tag \<in> set (um_keys (active (conn_of s)))" if "label tag = Writing"
    using ci that by (auto simp: connections_inv_def)
  have calls: "calls_on p (trace s') = calls_on p (trace s)" for p
    unfolding s'(1) calls_on_append by (rule sync_body_notes [OF body])
  show "group_step (sync_event t ok (conn_of s)) (group_of s) (group_of s')"
    using f(1,3,4) member \<open>label tag = Writing \<Longrightarrow> tag_data tag \<in> processing (conn_of s)\<close> ci
    by (auto simp: sync_event_def group_of_def calls s'(2) fun_eq_iff um_keys_erase um_erase_absent connections_inv_def)
  show "\<forall>p r. next_conn c' = Some (p, r) \<longrightarrow> calls_on p (trace s') = []"
    using nx by (simp add: calls f(2))
qed

lemma handler_simulates:
  fixes s s' :: "('req, 'resp, 'st, 'cb) stream_sys"
  assumes inv: "spec_inv s" and step: "allowed_step ev s s'"
  shows "group_step (group_event_of s ev) (group_of s) (group_of s')
     \<and> (\<forall>p r. next_conn (conn_of s') = Some (p, r) \<longrightarrow> calls_on p (trace s') = [])"
proof (cases ev)
  case (EvActivate nc nt r0)
  then obtain h' es c' where
    r: "activate_body nc nt r0 (connection_callback (hdl s)) (conn_of s) = (es, c')"
      "s' = record_effects h' es s" "data (conns h') = c'"
    using step by (auto simp: allowed_step_def activate_next_conns split: prod.splits)
  with activate_simulates [OF inv _ _ r(1), of s'] EvActivate step show ?thesis
    by (simp add: allowed_step_def)
next
  case (EvWrite nt u client)
  then obtain notify result es c' where
    r: "send_body nt (OpWrite u) client (conn_of s) = ((notify, result, es), c')"
      "s' = record_effects ((hdl s)\<lparr>conns := (conns (hdl s))\<lparr>data := c'\<rparr>\<rparr>) es s"
      "previous_updates_processed (conn_of s)"
    using step by (auto simp: allowed_step_def record_send_def send_conns)
  with send_simulates [OF inv _ r(3,1), of s'] EvWrite step show ?thesis by (simp add: allowed_step_def)
next
  case (EvFinish nt st client)
  then obtain notify result es c' where
    r: "send_body nt (OpFinish st) client (conn_of s) = ((notify, result, es), c')"
      "s' = record_effects ((hdl s)\<lparr>conns := (conns (hdl s))\<lparr>data := c'\<rparr>\<rparr>) es s"
      "previous_updates_processed (conn_of s)"
    using step by (auto simp: allowed_step_def record_send_def send_conns)
  with send_simulates [OF inv _ r(3,1), of s'] EvFinish step show ?thesis by (simp add: allowed_step_def)
next
  case (EvSync t ok)
  then obtain h' es all c' where
    r: "sync_body (deletion_callback (hdl s)) t ok (conn_of s) = Inr (c', es, all)"
      "s' = record_effects h' es (s\<lparr>outstanding := outstanding s - {t}\<rparr>)" "data (conns h') = c'"
    using step by (auto simp: allowed_step_def sync_step_conns split: sum.splits prod.splits)
  with sync_simulates [OF inv r(1), of s'] EvSync show ?thesis by simp
qed (use assms in \<open>auto simp: allowed_step_def spec_inv_def group_of_def request_arrives_def
      setter_on_connect_def on_connect_def setter_on_delete_def on_delete_def fun_eq_iff\<close>)

lemma spec_inv_step: "spec_inv s \<Longrightarrow> allowed_step ev s s' \<Longrightarrow> spec_inv s'"
  using handler_simulates [of s ev s'] stream_inv_step [of s ev s'] by (auto simp: spec_inv_def allowed_step_def)

interpretation handler_group: forward_simulation
    "allowed_step :: ('req, 'resp, 'st, 'cb) stream_event \<Rightarrow> ('req, 'resp, 'st, 'cb) stream_sys \<Rightarrow> ('req, 'resp, 'st, 'cb) stream_sys \<Rightarrow> bool"
    group_step spec_inv group_of group_event_of
  by unfold_locales (blast intro: spec_inv_step, blast dest: handler_simulates)

lemma spec_inv_start [simp]: "spec_inv (stream_start a b)"
  using stream_inv_start [of a b]
  by (simp add: spec_inv_def stream_start_def new_stream_handler_def make_atomic_data_def new_connections_def)

lemma group_of_start [simp]: "group_of (stream_start a b) = empty_group"
  by (simp add: group_of_def empty_group_def stream_start_def new_stream_handler_def make_atomic_data_def
      new_connections_def)

text \<open>The group events of a list of calls and completions, in order.\<close>

fun group_events ::
    "('req, 'resp, 'st, 'cb) stream_sys \<Rightarrow> ('req, 'resp, 'st, 'cb) stream_event list \<Rightarrow> ('resp, 'st) group_event list" where
  "group_events s [] = []"
| "group_events s (ev # evs) =
     group_event_of s ev # (case stream_step ev s of Some (Inr s') \<Rightarrow> group_events s' evs | _ \<Rightarrow> [])"

lemma stream_run_observed:
  "stream_run evs s = Some (Inr s') \<Longrightarrow> run_allowed evs s \<Longrightarrow>
     observed group_event_of allowed_step s evs (group_events s evs) s'"
proof (induction evs arbitrary: s)
  case (Cons ev evs)
  from Cons.prems(1) obtain s1 where s1: "stream_step ev s = Some (Inr s1)" "stream_run evs s1 = Some (Inr s')"
    by (auto split: option.splits sum.splits)
  with Cons.prems(2) have "allowed_step ev s s1" "observed group_event_of allowed_step s1 evs (group_events s1 evs) s'"
    by (auto simp: allowed_step_def intro: Cons.IH)
  with s1(1) show ?case by (auto intro: observed_step)
qed (simp add: observed_nil)

lemma stream_run_group:
  assumes "stream_run evs (stream_start a b) = Some (Inr s)" and "run_allowed evs (stream_start a b)"
  shows "runs group_step empty_group (group_events (stream_start a b) evs) (group_of s)"
  using handler_group.simulates_observed [OF stream_run_observed [OF assms]] by simp

lemma stream_run_append:
  "stream_run (evs @ fs) s = (case stream_run evs s of Some (Inr s') \<Rightarrow> stream_run fs s' | r \<Rightarrow> r)"
  by (induction evs arbitrary: s) (auto split: option.splits sum.splits)

lemma run_allowed_append:
  "run_allowed (evs @ fs) s =
     (run_allowed evs s \<and> (case stream_run evs s of Some (Inr s') \<Rightarrow> run_allowed fs s' | _ \<Rightarrow> True))"
  by (induction evs arbitrary: s) (auto split: option.splits sum.splits)

section \<open>Properties\<close>

text \<open>
  Claim C3. The handler refines the group of sessions: every call, completion and callback change
  that leaves the handler in a state is a step of the group, under the event read off the handler's
  state. Writers that find an update under way wait, a send to an absent client and a done notification
  of a stream being written to change nothing, and no other case is silent.
\<close>

theorem stream_handler_refines_group:
  assumes "stream_reachable s" and "environment_allows s ev" and "stream_step ev s = Some (Inr s')"
  shows "group_step (group_event_of s ev) (group_of s) (group_of s')"
proof -
  have "spec_inv s" using assms(1)
  proof (induction rule: stream_reachable.induct)
    case (stream_next s ev s')
    then show ?case using spec_inv_step [of s ev s'] by (simp add: allowed_step_def)
  qed simp
  with assms show ?thesis using handler_simulates [of s ev s'] by (simp add: allowed_step_def)
qed

text \<open>
  What gRPC has been given on a connected stream is exactly what the server wrote since
  that stream connected: every broadcast and every call for that client, each once, in the order of
  the calls, whatever other streams come, fail and go in between.
\<close>

theorem stream_given_exactly_what_was_written:
  assumes "stream_run evs (stream_start a b) = Some (Inr s)" and "run_allowed evs (stream_start a b)"
    and "p \<in> set (um_keys (active (conn_of s)))"
  shows "calls_on p (trace s) = given_since_join p (group_events (stream_start a b) evs)"
  using sessions_given [OF stream_run_group [OF assms(1,2)], of p "calls_on p (trace s)"] assms(3)
  by (simp add: group_of_def)

section \<open>Witnesses\<close>

text \<open>Two clients; a write to both, one for the first client alone, and one broadcast more.\<close>

definition two_clients_writes :: "(nat, nat, nat, nat) stream_event list" where
  "two_clients_writes = [EvWrite bump_new 5 0, EvSync 4 True, EvSync 5 True, EvWrite bump_new 6 1,
     EvSync 4 True, EvWrite bump_new 7 0]"

definition two_clients_written :: "(nat, nat, nat, nat) stream_sys" where
  "two_clients_written =
    \<lparr>hdl = \<lparr>conns = \<lparr>data = \<lparr>next_conn = Some (3, \<lparr>request = 0\<rparr>),
        active = [(1, \<lparr>request = 70\<rparr>), (2, \<lparr>request = 71\<rparr>)], processing = {1, 2},
        tags = [(1, mk_Tag 1 Done), (2, mk_Tag 2 Done), (3, mk_Tag 3 Done), (4, mk_Tag 1 Writing), (5, mk_Tag 2 Writing)]\<rparr>\<rparr>,
        connection_callback = Some 8, deletion_callback = Some 9\<rparr>,
     outstanding = {1, 2, 3, 4, 5},
     trace = trace two_clients_state @ [Respond 1 (OpWrite 5) 4, Respond 2 (OpWrite 5) 5,
        Respond 1 (OpWrite 6) 4, Respond 1 (OpWrite 7) 4, Respond 2 (OpWrite 7) 5]\<rparr>"

lemma two_clients_writes_run: "stream_run two_clients_writes two_clients_state = Some (Inr two_clients_written)"
  by (simp add: two_clients_writes_def two_clients_state_def two_clients_written_def stream_eval
      insert_commute eval_nat_numeral) auto

lemma two_clients_writes_allowed: "run_allowed two_clients_writes two_clients_state"
  by (simp add: two_clients_writes_def two_clients_state_def stream_eval)

lemma two_clients_allowed: "run_allowed two_clients (stream_start (Some 8) (Some 9))"
  by (simp add: two_clients_def stream_eval)

theorem stream_handler_refines_group_witness:
  "\<exists>s'. stream_step (EvWrite bump_new 5 0) two_clients_state = Some (Inr s')
     \<and> group_step (Broadcast (OpWrite 5)) (group_of two_clients_state) (group_of s')"
proof -
  obtain s' where s': "stream_step (EvWrite bump_new 5 0) two_clients_state = Some (Inr s')"
    by (simp add: two_clients_state_def stream_eval)
  from stream_handler_refines_group [OF two_clients_reachable _ this] have
    "group_step (Broadcast (OpWrite 5)) (group_of two_clients_state) (group_of s')"
    by (simp add: send_event_def)
  with s' show ?thesis by blast
qed

lemma two_clients_full_run:
  "stream_run (two_clients @ two_clients_writes) (stream_start (Some 8) (Some 9)) = Some (Inr two_clients_written)"
  "run_allowed (two_clients @ two_clients_writes) (stream_start (Some 8) (Some 9))"
  using two_clients_run two_clients_writes_run two_clients_writes_allowed two_clients_allowed
  by (simp_all add: stream_run_append run_allowed_append)

theorem stream_given_exactly_what_was_written_witness:
  "calls_on 1 (trace two_clients_written)
     = given_since_join 1 (group_events (stream_start (Some 8) (Some 9)) (two_clients @ two_clients_writes))
   \<and> calls_on 1 (trace two_clients_written) = [OpWrite 5, OpWrite 6, OpWrite 7]"
  using stream_given_exactly_what_was_written [OF two_clients_full_run, of 1]
  by (simp add: two_clients_written_def two_clients_state_def calls_on_def)

end
