(* ===== verification/Non_Stream_Rpc_Handler.thy ===== *)
theory Non_Stream_Rpc_Handler
  imports Grpcw_Prelude
begin

text \<open>
  The server side of a call with one request and one response:
  \<open>grpcw::server::detail::NonStreamRpcHandler\<close> (include/grpcw/server/detail/non_stream_rpc_handler.hpp).

  The user's callback is a function on the request, the default-constructed response and the state
  of the rest of the program, so that callbacks may depend on earlier calls. The internal queue is
  the list of tags it has been given and not returned; what \<open>Next\<close> answers is an argument, \<open>None\<close>
  when the queue is shut down and empty. A failed \<open>assert\<close> is a value of \<open>ns_error\<close>.
\<close>

section \<open>State and operations\<close>

record 'req ns_connection =
  ns_request :: 'req

record ('req, 'resp, 'st, 'w) ns_handler =
  callback :: "'req \<Rightarrow> 'resp \<Rightarrow> 'w \<Rightarrow> ('st \<times> 'resp) \<times> 'w"
  ns_queue :: "ptr list"
  connection :: "'req ns_connection option"

datatype ('resp, 'st) ns_effect = NsFinish 'resp 'st ptr | NsRequestRpc

datatype ns_error = AssertCallOk | AssertRecvTag | AssertNext | AssertNotCallOk

definition new_ns_handler ::
    "('req \<Rightarrow> 'resp \<Rightarrow> 'w \<Rightarrow> ('st \<times> 'resp) \<times> 'w) \<Rightarrow> ('req, 'resp, 'st, 'w) ns_handler" where
  "new_ns_handler cb = \<lparr>callback = cb, ns_queue = [], connection = None\<rparr>"

text \<open>What \<open>Next\<close> hands back leaves the queue; then the three assertions.\<close>

definition ns_check_answer ::
    "ptr \<Rightarrow> (ptr \<times> bool) option \<Rightarrow> ('req, 'resp, 'st, 'w) ns_handler
      \<Rightarrow> ns_error + ('req, 'resp, 'st, 'w) ns_handler" where
  "ns_check_answer response_addr answer h =
     (case answer of
        None \<Rightarrow> Inl AssertNext
      | Some (recv_tag, call_ok) \<Rightarrow>
          (if \<not> call_ok then Inl AssertCallOk
           else if recv_tag \<noteq> response_addr then Inl AssertRecvTag
           else Inr (h\<lparr>ns_queue := remove1 recv_tag (ns_queue h)\<rparr>)))"

text \<open>The part that answers the client of the current connection.\<close>

definition ns_answer_client ::
    "'resp \<Rightarrow> ptr \<Rightarrow> (ptr \<times> bool) option \<Rightarrow> ('req, 'resp, 'st, 'w) ns_handler \<Rightarrow> 'w
      \<Rightarrow> ns_error + (('req, 'resp, 'st, 'w) ns_handler \<times> 'w \<times> ('resp, 'st) ns_effect list)" where
  "ns_answer_client response0 response_addr answer h w =
     (case connection h of
        None \<Rightarrow> Inr (h, w, [])
      | Some conn \<Rightarrow>
          (let ((status, response), w') = callback h (ns_request conn) response0 w
           in case ns_check_answer response_addr answer (h\<lparr>ns_queue := ns_queue h @ [response_addr]\<rparr>) of
                Inl e \<Rightarrow> Inl e
              | Inr h' \<Rightarrow> Inr (h', w', [NsFinish response status response_addr])))"

definition ns_activate_next ::
    "'req \<Rightarrow> 'resp \<Rightarrow> ptr \<Rightarrow> (ptr \<times> bool) option \<Rightarrow> ('req, 'resp, 'st, 'w) ns_handler \<Rightarrow> 'w
      \<Rightarrow> ns_error + (('req, 'resp, 'st, 'w) ns_handler \<times> 'w \<times> ('resp, 'st) ns_effect list)" where
  "ns_activate_next request0 response0 response_addr answer h w =
     (case ns_answer_client response0 response_addr answer h w of
        Inl e \<Rightarrow> Inl e
      | Inr (h', w', es) \<Rightarrow>
          Inr (h'\<lparr>connection := Some \<lparr>ns_request = request0\<rparr>\<rparr>, w', es @ [NsRequestRpc]))"

text \<open>gRPC stores the client's request in the waiting connection.\<close>

definition ns_request_arrives :: "'req \<Rightarrow> ('req, 'resp, 'st, 'w) ns_handler \<Rightarrow> ('req, 'resp, 'st, 'w) ns_handler" where
  "ns_request_arrives r h = h\<lparr>connection := map_option (\<lambda>_. \<lparr>ns_request = r\<rparr>) (connection h)\<rparr>"

text \<open>The destructor empties the queue, each answer under an assertion.\<close>

fun destroy_ns_handler :: "(ptr \<times> bool) list \<Rightarrow> ('req, 'resp, 'st, 'w) ns_handler \<Rightarrow> ns_error + unit" where
  "destroy_ns_handler [] h = Inr ()"
| "destroy_ns_handler ((ignored_tag, call_ok) # answers) h =
     (if call_ok then Inl AssertNotCallOk
      else destroy_ns_handler answers (h\<lparr>ns_queue := remove1 ignored_tag (ns_queue h)\<rparr>))"

section \<open>Serving a sequence of clients\<close>

text \<open>
  Each client brings a request, the address the local \<open>response\<close> has this time, and the answer of
  the internal queue.
\<close>

fun ns_serve ::
    "'req \<Rightarrow> 'resp \<Rightarrow> ('req \<times> ptr \<times> (ptr \<times> bool) option) list \<Rightarrow> ('req, 'resp, 'st, 'w) ns_handler \<Rightarrow> 'w
      \<Rightarrow> ns_error + (('req, 'resp, 'st, 'w) ns_handler \<times> 'w \<times> ('resp, 'st) ns_effect list)" where
  "ns_serve request0 response0 [] h w = Inr (h, w, [])"
| "ns_serve request0 response0 ((r, response_addr, answer) # clients) h w =
     (case ns_activate_next request0 response0 response_addr answer (ns_request_arrives r h) w of
        Inl e \<Rightarrow> Inl e
      | Inr (h1, w1, es) \<Rightarrow>
          (case ns_serve request0 response0 clients h1 w1 of
             Inl e \<Rightarrow> Inl e
           | Inr (h2, w2, fs) \<Rightarrow> Inr (h2, w2, es @ fs)))"

text \<open>
  The queue answers with a tag it was given, as long as it is not shut down; only the destructor
  does that.
\<close>

definition ns_queue_answers :: "ptr \<Rightarrow> ('req, 'resp, 'st, 'w) ns_handler \<Rightarrow> (ptr \<times> bool) option \<Rightarrow> bool" where
  "ns_queue_answers response_addr h answer \<longleftrightarrow>
     (case answer of None \<Rightarrow> False | Some (t, ok) \<Rightarrow> t \<in> set (ns_queue h @ [response_addr]))"

definition ns_ready :: "('req, 'resp, 'st, 'w) ns_handler \<Rightarrow> bool" where
  "ns_ready h \<longleftrightarrow> connection h \<noteq> None \<and> ns_queue h = []"

text \<open>The reference: run the callback on one request after the other.\<close>

fun replies ::
    "('req \<Rightarrow> 'resp \<Rightarrow> 'w \<Rightarrow> ('st \<times> 'resp) \<times> 'w) \<Rightarrow> 'resp \<Rightarrow> 'req list \<Rightarrow> 'w \<Rightarrow> ('resp \<times> 'st) list \<times> 'w" where
  "replies cb response0 [] w = ([], w)"
| "replies cb response0 (r # rs) w =
     (let ((status, response), w1) = cb r response0 w; (out, w2) = replies cb response0 rs w1
      in ((response, status) # out, w2))"

fun ns_answers :: "('resp, 'st) ns_effect list \<Rightarrow> ('resp \<times> 'st) list" where
  "ns_answers [] = []"
| "ns_answers (NsFinish response status t # es) = (response, status) # ns_answers es"
| "ns_answers (NsRequestRpc # es) = ns_answers es"

definition ns_requests :: "('resp, 'st) ns_effect list \<Rightarrow> nat" where
  "ns_requests es = length (filter ((=) NsRequestRpc) es)"

lemma ns_answers_append [simp]: "ns_answers (es @ fs) = ns_answers es @ ns_answers fs"
  by (induction es rule: ns_answers.induct) auto

lemma ns_requests_simps [simp]:
  "ns_requests [] = 0" "ns_requests (NsFinish a b t # es) = ns_requests es"
  "ns_requests (NsRequestRpc # es) = Suc (ns_requests es)"
  "ns_requests (es @ fs) = ns_requests es + ns_requests fs"
  by (simp_all add: ns_requests_def)

lemma ns_ready_arrives [simp]:
  "ns_ready (ns_request_arrives r h) = ns_ready h"
  "callback (ns_request_arrives r h) = callback h"
  by (auto simp: ns_ready_def ns_request_arrives_def)

lemma ns_activate_next_registers:
  assumes "ns_activate_next request0 response0 addr answer h w = Inr (h', w', es)"
  shows "ns_requests es = 1 \<and> connection h' = Some \<lparr>ns_request = request0\<rparr> \<and> callback h' = callback h"
  using assms
  by (auto simp: ns_activate_next_def ns_answer_client_def ns_check_answer_def Let_def
      split: sum.splits option.splits prod.splits if_splits)

lemma ns_activate_next_ready:
  assumes "ns_activate_next request0 response0 addr answer h w = Inr (h', w', es)" and "ns_queue h = []"
  shows "ns_ready h'"
  using assms
  by (auto simp: ns_activate_next_def ns_answer_client_def ns_check_answer_def ns_ready_def Let_def
      split: sum.splits option.splits prod.splits if_splits)

lemma ns_activate_next_answers:
  assumes "ns_ready h" and "callback h r response0 w = ((status, response), w')"
  shows "ns_activate_next request0 response0 addr (Some (addr, True)) (ns_request_arrives r h) w
     = Inr (h\<lparr>connection := Some \<lparr>ns_request = request0\<rparr>\<rparr>, w', [NsFinish response status addr, NsRequestRpc])"
  using assms
  by (cases h) (auto simp: ns_activate_next_def ns_answer_client_def ns_check_answer_def ns_ready_def
      ns_request_arrives_def)

lemma ns_serve_queue_empty:
  "ns_queue h = [] \<Longrightarrow> ns_serve request0 response0 clients h w = Inr (h', w', es) \<Longrightarrow> ns_queue h' = []"
proof (induction clients arbitrary: h w es)
  case (Cons c clients)
  obtain r addr answer where c: "c = (r, addr, answer)" by (rule prod_cases3)
  from Cons.prems(2) obtain h1 w1 es1 fs where
    act: "ns_activate_next request0 response0 addr answer (ns_request_arrives r h) w = Inr (h1, w1, es1)"
    and rest: "ns_serve request0 response0 clients h1 w1 = Inr (h', w', fs)"
    by (auto simp: c split: sum.splits prod.splits)
  from act Cons.prems(1) have "ns_queue h1 = []"
    using ns_activate_next_ready by (fastforce simp: ns_ready_def ns_request_arrives_def)
  from Cons.IH [OF this rest] show ?case .
qed simp

section \<open>Properties\<close>



text \<open>
  Between two clients the internal queue is empty, so the answer the handler waits for can
  only be its own: of the assertions in \<open>activate_next\<close>, those on the tag and on the queue never
  fail, and nothing is left in the queue for the destructor.
\<close>

theorem ns_own_tag_returned:
  assumes "ns_serve request0 response0 clients (new_ns_handler cb) w = Inr (h, w', es)"
    and "ns_queue_answers addr h answer"
  shows "ns_queue h = [] \<and> ns_activate_next request0 response0 addr answer h w' \<noteq> Inl AssertRecvTag
     \<and> ns_activate_next request0 response0 addr answer h w' \<noteq> Inl AssertNext"
proof -
  have "ns_queue h = []"
    using ns_serve_queue_empty [OF _ assms(1)] by (simp add: new_ns_handler_def)
  with assms(2) show ?thesis
    by (auto simp: ns_queue_answers_def ns_activate_next_def ns_answer_client_def ns_check_answer_def Let_def
        split: option.splits sum.splits prod.splits)
qed

theorem ns_own_tag_returned_witness:
  "ns_activate_next (0::nat) (0::nat) 5 (Some (5, False)) (new_ns_handler (\<lambda>r response w. ((r, response), w))) (0::nat)
     \<noteq> Inl AssertRecvTag"
  using ns_own_tag_returned [of "0::nat" "0::nat" "[]" "\<lambda>r response w. ((r, response), w)" "0::nat" _ _ _ 5
      "Some (5, False)"]
  by (auto simp: ns_queue_answers_def)

text \<open>
  gRPC reports a response that can no longer be sent, because its client is gone, with the
  flag false. Then \<open>activate_next\<close> fails its assertion on \<open>call_ok\<close>: one client that leaves early
  ends a server built with assertions.
\<close>

theorem ns_client_gone_fails_assertion:
  assumes "connection h \<noteq> None"
  shows "ns_activate_next request0 response0 addr (Some (addr, False)) h w = Inl AssertCallOk"
  using assms
  by (auto simp: ns_activate_next_def ns_answer_client_def ns_check_answer_def Let_def
      split: option.splits prod.splits)

theorem ns_client_gone_fails_assertion_witness:
  "ns_activate_next 0 0 5 (Some (5, False))
     \<lparr>callback = \<lambda>r response w. ((w, r + 1), w + r), ns_queue = [], connection = Some \<lparr>ns_request = 0\<rparr>\<rparr> (0::nat)
   = Inl AssertCallOk"
  by (rule ns_client_gone_fails_assertion) simp

end
