(* ===== verification/Grpc_Server.thy ===== *)
theory Grpc_Server
  imports Grpcw_Prelude
begin

text \<open>
  The synchronous servers: \<open>GrpcServer\<close> (include/grpcw/server/grpc_server.hpp,
  src/grpcw/server/grpc_server.cpp) and \<open>ScopedGrpcServer\<close> (scoped_grpc_server.hpp,
  scoped_grpc_server.cpp).

  Of \<open>grpc::Server\<close> the model keeps what the code relies on, as gRPC documents it: whether shutdown
  has begun and how many calls are being served. \<open>BuildAndStart\<close> returns a null pointer when the server
  cannot start; that answer is the argument \<open>starts\<close>, and using the null pointer is the error
  \<open>NullServer\<close>. An operation that blocks has no result yet, \<open>None\<close>.
\<close>

section \<open>GrpcServer\<close>

datatype 'svc builder_call =
    RegisterService 'svc
  | AddListeningPort string
  | SetMaxMessageSize int
  | AddCompletionQueue
  | BuildAndStart

definition int_max :: int where
  "int_max = 2147483647"

record grpc_object =
  down :: bool
  calls :: nat

datatype server_error = NullServer

record 'svc grpc_server =
  service :: 'svc
  server :: "grpc_object option"

definition build_and_start :: "bool \<Rightarrow> grpc_object option" where
  "build_and_start starts = (if starts then Some \<lparr>down = False, calls = 0\<rparr> else None)"

definition new_grpc_server :: "bool \<Rightarrow> 'svc \<Rightarrow> string \<Rightarrow> 'svc grpc_server \<times> 'svc builder_call list" where
  "new_grpc_server starts svc server_address =
     (\<lparr>service = svc, server = build_and_start starts\<rparr>,
      [RegisterService svc, SetMaxMessageSize int_max]
      @ (if server_address \<noteq> [] then [AddListeningPort server_address] else [])
      @ [BuildAndStart])"

text \<open>\<open>Wait\<close> returns once shutdown has begun and every call has ended.\<close>

definition server_run :: "'svc grpc_server \<Rightarrow> (server_error + unit) option" where
  "server_run s =
     (case server s of
        None \<Rightarrow> Some (Inl NullServer)
      | Some g \<Rightarrow> if down g \<and> calls g = 0 then Some (Inr ()) else None)"

text \<open>
  \<open>Shutdown\<close> first turns new calls away, then waits for the calls that are being served; with a
  deadline it cancels those that are left when it passes.
\<close>

definition begin_shutdown :: "'svc grpc_server \<Rightarrow> server_error + 'svc grpc_server" where
  "begin_shutdown s =
     (case server s of
        None \<Rightarrow> Inl NullServer
      | Some g \<Rightarrow> Inr (s\<lparr>server := Some (g\<lparr>down := True\<rparr>)\<rparr>))"

definition server_shutdown :: "'svc grpc_server \<Rightarrow> (server_error + 'svc grpc_server) option" where
  "server_shutdown s =
     (case begin_shutdown s of
        Inl e \<Rightarrow> Some (Inl e)
      | Inr s' \<Rightarrow> if server s' = Some \<lparr>down = True, calls = 0\<rparr> then Some (Inr s') else None)"

definition server_shutdown_deadline :: "'svc grpc_server \<Rightarrow> server_error + 'svc grpc_server" where
  "server_shutdown_deadline s =
     (case begin_shutdown s of
        Inl e \<Rightarrow> Inl e
      | Inr s' \<Rightarrow> Inr (s'\<lparr>server := map_option (\<lambda>g. g\<lparr>calls := 0\<rparr>) (server s')\<rparr>))"

datatype 'args channel = InProcessChannel 'args

definition in_process_channel :: "'args \<Rightarrow> 'svc grpc_server \<Rightarrow> server_error + 'args channel" where
  "in_process_channel channel_arguments s =
     (case server s of None \<Rightarrow> Inl NullServer | Some g \<Rightarrow> Inr (InProcessChannel channel_arguments))"

section \<open>ScopedGrpcServer\<close>

text \<open>
  The destructor calls \<open>shutdown\<close> and then joins the thread that \<open>run\<close>s the server. The steps are
  those of the destructor, of that thread, and of the clients.
\<close>

datatype destructor_pc = Alive | ShuttingDown | Joining | Destroyed

record 'svc scoped_server =
  scoped :: "'svc grpc_server"
  run_thread :: thread_state
  pc :: destructor_pc

definition new_scoped_server :: "bool \<Rightarrow> 'svc \<Rightarrow> string \<Rightarrow> 'svc scoped_server \<times> 'svc builder_call list" where
  "new_scoped_server starts svc server_address =
     (let (s, bs) = new_grpc_server starts svc server_address
      in (\<lparr>scoped = s, run_thread = Running, pc = Alive\<rparr>, bs))"

definition scoped_in_process_channel :: "'args \<Rightarrow> 'svc scoped_server \<Rightarrow> server_error + 'args channel" where
  "scoped_in_process_channel channel_arguments s = in_process_channel channel_arguments (scoped s)"

definition scoped_thread :: "'svc scoped_server \<Rightarrow> (server_error + 'svc scoped_server) option" where
  "scoped_thread s =
     (if run_thread s = Running then
        map_option (map_sum id (\<lambda>_. s\<lparr>run_thread := Returned\<rparr>)) (server_run (scoped s))
      else None)"

definition scoped_destructor :: "'svc scoped_server \<Rightarrow> (server_error + 'svc scoped_server) option" where
  "scoped_destructor s =
     (case pc s of
        Alive \<Rightarrow> Some (map_sum id (\<lambda>g. s\<lparr>scoped := g, pc := ShuttingDown\<rparr>) (begin_shutdown (scoped s)))
      | ShuttingDown \<Rightarrow> map_option (map_sum id (\<lambda>g. s\<lparr>scoped := g, pc := Joining\<rparr>)) (server_shutdown (scoped s))
      | Joining \<Rightarrow> if run_thread s = Returned then Some (Inr (s\<lparr>run_thread := Joined, pc := Destroyed\<rparr>)) else None
      | Destroyed \<Rightarrow> None)"

inductive scoped_step :: "'svc scoped_server \<Rightarrow> 'svc scoped_server \<Rightarrow> bool" where
  thread_step: "scoped_thread s = Some (Inr s') \<Longrightarrow> scoped_step s s'"
| destructor_step: "scoped_destructor s = Some (Inr s') \<Longrightarrow> scoped_step s s'"
| call_begins: "server (scoped s) = Some g \<Longrightarrow> \<not> down g \<Longrightarrow> pc s \<noteq> Destroyed \<Longrightarrow>
    scoped_step s (s\<lparr>scoped := (scoped s)\<lparr>server := Some (g\<lparr>calls := Suc (calls g)\<rparr>)\<rparr>\<rparr>)"
| call_ends: "server (scoped s) = Some g \<Longrightarrow> calls g = Suc n \<Longrightarrow> pc s \<noteq> Destroyed \<Longrightarrow>
    scoped_step s (s\<lparr>scoped := (scoped s)\<lparr>server := Some (g\<lparr>calls := n\<rparr>)\<rparr>\<rparr>)"

inductive scoped_reachable :: "'svc scoped_server \<Rightarrow> bool" where
  scoped_init: "new_scoped_server True svc server_address = (s, bs) \<Longrightarrow> scoped_reachable s"
| scoped_next: "scoped_reachable s \<Longrightarrow> scoped_step s s' \<Longrightarrow> scoped_reachable s'"

lemmas scoped_defs = scoped_thread_def scoped_destructor_def server_run_def begin_shutdown_def server_shutdown_def

definition scoped_inv :: "'svc scoped_server \<Rightarrow> bool" where
  "scoped_inv s \<longleftrightarrow> (\<exists>g. server (scoped s) = Some g
     \<and> (pc s \<noteq> Alive \<longrightarrow> down g) \<and> (pc s \<in> {Joining, Destroyed} \<longrightarrow> calls g = 0)
     \<and> (run_thread s \<noteq> Running \<longrightarrow> down g \<and> calls g = 0)
     \<and> run_thread s \<noteq> NoThread \<and> (run_thread s = Joined) = (pc s = Destroyed))"

lemma scoped_inv_step: "scoped_step s s' \<Longrightarrow> scoped_inv s \<Longrightarrow> scoped_inv s'"
  by (induction rule: scoped_step.induct)
    (auto simp: scoped_inv_def scoped_defs split: destructor_pc.splits if_splits)

lemma scoped_reachable_inv: "scoped_reachable s \<Longrightarrow> scoped_inv s"
proof (induction rule: scoped_reachable.induct)
  case (scoped_init svc server_address s bs)
  then show ?case
    by (auto simp: scoped_inv_def new_scoped_server_def new_grpc_server_def build_and_start_def)
next
  case (scoped_next s s')
  then show ?case by (blast intro: scoped_inv_step)
qed

definition teardown_left :: "'svc scoped_server \<Rightarrow> nat" where
  "teardown_left s =
     (case server (scoped s) of None \<Rightarrow> 0 | Some g \<Rightarrow> calls g)
     + (case pc s of Alive \<Rightarrow> 3 | ShuttingDown \<Rightarrow> 2 | Joining \<Rightarrow> 1 | Destroyed \<Rightarrow> 0)
     + (if run_thread s = Running then 1 else 0)"

section \<open>Properties\<close>


definition closing_server :: "nat scoped_server" where
  "closing_server = \<lparr>scoped = \<lparr>service = 0, server = Some \<lparr>down = True, calls = 1\<rparr>\<rparr>,
     run_thread = Running, pc = ShuttingDown\<rparr>"

lemma closing_server_reachable: "scoped_reachable closing_server"
proof -
  let ?s0 = "\<lparr>scoped = \<lparr>service = 0::nat, server = Some \<lparr>down = False, calls = 0\<rparr>\<rparr>, run_thread = Running, pc = Alive\<rparr>"
  let ?s1 = "?s0\<lparr>scoped := \<lparr>service = 0, server = Some \<lparr>down = False, calls = 1\<rparr>\<rparr>\<rparr>"
  have "scoped_reachable ?s0"
    by (rule scoped_init [of 0 "[]"])
      (simp add: new_scoped_server_def new_grpc_server_def build_and_start_def)
  moreover have "scoped_step ?s0 ?s1"
    using call_begins [of ?s0 "\<lparr>down = False, calls = 0\<rparr>"] by simp
  moreover have "scoped_step ?s1 closing_server"
    by (rule destructor_step) (simp add: scoped_defs closing_server_def)
  ultimately show ?thesis by (blast intro: scoped_next)
qed


text \<open>
  \<open>run\<close> comes back only after \<open>shutdown\<close> has begun and every call has ended, and the
  thread that runs the server is never left running or unjoined when the object is destroyed.
\<close>

theorem scoped_run_returns_after_shutdown:
  assumes "scoped_reachable s" and "run_thread s \<noteq> Running"
  shows "\<exists>g. server (scoped s) = Some g \<and> down g \<and> calls g = 0 \<and> (pc s = Destroyed \<longleftrightarrow> run_thread s = Joined)"
  using scoped_reachable_inv [OF assms(1)] assms(2) by (auto simp: scoped_inv_def)

definition stopped_server :: "nat scoped_server" where
  "stopped_server = closing_server\<lparr>scoped := \<lparr>service = 0, server = Some \<lparr>down = True, calls = 0\<rparr>\<rparr>, run_thread := Returned\<rparr>"

lemma stopped_server_reachable: "scoped_reachable stopped_server"
proof -
  let ?s = "closing_server\<lparr>scoped := \<lparr>service = 0, server = Some \<lparr>down = True, calls = 0\<rparr>\<rparr>\<rparr>"
  have "scoped_step closing_server ?s"
    using call_ends [of closing_server "\<lparr>down = True, calls = 1\<rparr>" 0] by (simp add: closing_server_def)
  moreover have "scoped_step ?s stopped_server"
    by (rule thread_step) (simp add: scoped_defs closing_server_def stopped_server_def)
  ultimately show ?thesis using closing_server_reachable by (blast intro: scoped_next)
qed

theorem scoped_run_returns_after_shutdown_witness:
  "run_thread stopped_server = Returned \<and>
    (\<exists>g. server (scoped stopped_server) = Some g \<and> down g \<and> calls g = 0)"
  using scoped_run_returns_after_shutdown [OF stopped_server_reachable]
  by (auto simp: stopped_server_def closing_server_def)

end
