(* ===== verification/Grpc_Async_Server.thy ===== *)
theory Grpc_Async_Server
  imports Stream_Rpc_Safety Non_Stream_Rpc_Handler Grpc_Server
begin

text \<open>
  The asynchronous server \<open>GrpcAsyncServer\<close> (include/grpcw/server/grpc_async_server.hpp) and the
  interface of its handlers (detail/async_rpc_handler_interface.hpp).

  The server owns its handlers by address, and the address of a handler is the tag it registers with
  the server's completion queue. \<open>server_pending\<close> are the tags in that queue, \<open>registering\<close> the
  handlers a registering thread has stored but not activated yet. What the queue answers, the addresses of
  new objects and the default values of the message types are arguments.
\<close>

section \<open>Handlers behind their interface\<close>

datatype ('req, 'resp, 'st, 'cb, 'w) rpc_handler =
    StreamRpc "('req, 'cb) stream_handler"
  | NonStreamRpc "('req, 'resp, 'st, 'w) ns_handler"

datatype ('req, 'resp, 'st, 'cb) rpc_effect =
    StreamEffect "('req, 'resp, 'st, 'cb) stream_effect"
  | NonStreamEffect "('resp, 'st) ns_effect"

record ('req, 'resp) activation =
  new_connection :: "ptr list \<Rightarrow> ptr"
  new_tag :: "ptr list \<Rightarrow> ptr"
  default_request :: 'req
  default_response :: 'resp
  response_addr :: ptr
  queue_answer :: "(ptr \<times> bool) option"
  left_over :: "(ptr \<times> bool) list"

text \<open>The virtual call \<open>activate_next\<close>.\<close>

fun rpc_activate_next ::
    "('req, 'resp) activation \<Rightarrow> ('req, 'resp, 'st, 'cb, 'w) rpc_handler \<times> 'w
      \<Rightarrow> ns_error + ((('req, 'resp, 'st, 'cb, 'w) rpc_handler \<times> 'w) \<times> ('req, 'resp, 'st, 'cb) rpc_effect list)" where
  "rpc_activate_next a (StreamRpc h, w) =
     (let (h', es) = activate_next (new_connection a) (new_tag a) (default_request a) h
      in Inr ((StreamRpc h', w), map StreamEffect es))"
| "rpc_activate_next a (NonStreamRpc h, w) =
     (case ns_activate_next (default_request a) (default_response a) (response_addr a) (queue_answer a) h w of
        Inl e \<Rightarrow> Inl e
      | Inr (h', w', es) \<Rightarrow> Inr ((NonStreamRpc h', w'), map NonStreamEffect es))"

fun rpc_request_arrives ::
    "'req \<Rightarrow> ('req, 'resp, 'st, 'cb, 'w) rpc_handler \<Rightarrow> ('req, 'resp, 'st, 'cb, 'w) rpc_handler" where
  "rpc_request_arrives r (StreamRpc h) =
     StreamRpc (h\<lparr>conns := (conns h)\<lparr>data := request_arrives r (data (conns h))\<rparr>\<rparr>)"
| "rpc_request_arrives r (NonStreamRpc h) = NonStreamRpc (ns_request_arrives r h)"

text \<open>
  What the server relies on, for any handler: a call of \<open>activate_next\<close> that returns has registered
  exactly one request with the queue, and a connection waits for it.
\<close>

fun activations ::
    "('env \<Rightarrow> 'h \<Rightarrow> 'err + ('h \<times> 'eff list)) \<Rightarrow> 'env list \<Rightarrow> 'h \<Rightarrow> 'err + ('h \<times> 'eff list)" where
  "activations activate [] h = Inr (h, [])"
| "activations activate (a # as) h =
     (case activate a h of
        Inl e \<Rightarrow> Inl e
      | Inr (h1, es) \<Rightarrow>
          (case activations activate as h1 of
             Inl e \<Rightarrow> Inl e
           | Inr (h2, fs) \<Rightarrow> Inr (h2, es @ fs)))"

locale async_rpc_handler =
  fixes activate :: "'env \<Rightarrow> 'h \<Rightarrow> 'err + ('h \<times> 'eff list)"
    and registers :: "'eff \<Rightarrow> bool"
    and waiting :: "'h \<Rightarrow> bool"
  assumes activate_registers: "activate a h = Inr (h', es) \<Longrightarrow> length (filter registers es) = 1"
    and activate_waits: "activate a h = Inr (h', es) \<Longrightarrow> waiting h'"
begin

lemma one_registration_per_activation:
  "activations activate as h = Inr (h', es) \<Longrightarrow>
    length (filter registers es) = length as \<and> (as \<noteq> [] \<longrightarrow> waiting h')"
proof (induction as arbitrary: h es)
  case (Cons a as)
  from Cons.prems obtain h1 es1 es2 where
    "activate a h = Inr (h1, es1)" "activations activate as h1 = Inr (h', es2)" "es = es1 @ es2"
    by (auto split: sum.splits prod.splits)
  with Cons.IH [of h1 es2] activate_registers activate_waits show ?case by (cases "as = []") auto
qed simp

end

fun registers_stream :: "('req, 'resp, 'st, 'cb) stream_effect \<Rightarrow> bool" where
  "registers_stream (RequestRpc p) = True"
| "registers_stream e = False"

fun registers_rpc :: "('req, 'resp, 'st, 'cb) rpc_effect \<Rightarrow> bool" where
  "registers_rpc (StreamEffect e) = registers_stream e"
| "registers_rpc (NonStreamEffect e) = (NsRequestRpc = e)"

fun rpc_waiting :: "('req, 'resp, 'st, 'cb, 'w) rpc_handler \<times> 'w \<Rightarrow> bool" where
  "rpc_waiting (StreamRpc h, w) = (next_conn (data (conns h)) \<noteq> None)"
| "rpc_waiting (NonStreamRpc h, w) = (connection h \<noteq> None)"

lemma activate_next_registers:
  fixes es :: "('req, 'resp, 'st, 'cb) stream_effect list"
  assumes "activate_next nc nt r0 h = (h', es)"
  shows "length (filter registers_stream es) = 1 \<and> next_conn (data (conns h')) \<noteq> None"
  using assms
  by (auto simp: activate_next_def activate_body_def promote_next_def use_safely_def Let_def
      split: prod.splits option.splits)

interpretation stream_rpc: async_rpc_handler
  "\<lambda>(nc, nt, r0) h. Inr (activate_next nc nt r0 h) :: ns_error + _" registers_stream
  "\<lambda>h. next_conn (data (conns h)) \<noteq> None"
  using activate_next_registers by unfold_locales (fastforce split: prod.splits)+

interpretation non_stream_rpc: async_rpc_handler
  "\<lambda>(r0, p0, addr, answer) (h, w). map_sum id (\<lambda>(h', w', es). ((h', w'), es)) (ns_activate_next r0 p0 addr answer h w)"
  "(=) NsRequestRpc" "\<lambda>(h, w). connection h \<noteq> None"
  using ns_activate_next_registers
  by unfold_locales (fastforce simp: ns_requests_def map_sum_def split: prod.splits sum.splits)+

interpretation any_rpc: async_rpc_handler rpc_activate_next registers_rpc rpc_waiting
proof
  fix a :: "('a, 'b) activation" and hw hw' :: "('a, 'b, 'c, 'd, 'e) rpc_handler \<times> 'e" and es
  assume act: "rpc_activate_next a hw = Inr (hw', es)"
  obtain h w where hw: "hw = (h, w)" by (rule prod.exhaust)
  have "length (filter registers_rpc es) = 1 \<and> rpc_waiting hw'"
  proof (cases h)
    case (StreamRpc s)
    obtain s' and es' :: "('a, 'b, 'c, 'd) stream_effect list" where
      s': "activate_next (new_connection a) (new_tag a) (default_request a) s = (s', es')"
      by (rule prod.exhaust)
    with act hw StreamRpc activate_next_registers [OF s'] show ?thesis
      by (auto simp: filter_map comp_def)
  next
    case (NonStreamRpc n)
    with act hw obtain n' w' es' where
      n': "ns_activate_next (default_request a) (default_response a) (response_addr a) (queue_answer a) n w
         = Inr (n', w', es')" "hw' = (NonStreamRpc n', w')" "es = map NonStreamEffect es'"
      by (auto split: sum.splits prod.splits)
    from ns_activate_next_registers [OF n'(1)] n'(2,3) show ?thesis
      by (simp add: filter_map comp_def ns_requests_def)
  qed
  then show "length (filter registers_rpc es) = 1" "rpc_waiting hw'" by simp_all
qed

section \<open>The server\<close>

record ('req, 'resp, 'st, 'cb, 'w, 'svc) async_server =
  server_calls :: "'svc builder_call list"
  rpc_handlers :: "(ptr, ('req, 'resp, 'st, 'cb, 'w) rpc_handler) umap atomic_data"
  server_pending :: "ptr list"
  registering :: "ptr list"
  server_down :: bool
  queue_down :: bool
  server_thread :: thread_state
  world :: 'w
  server_trace :: "(ptr \<times> ('req, 'resp, 'st, 'cb) rpc_effect) list"

datatype async_error =
    OutOfRange ptr
  | HandlerGone ptr
  | HandlerAssert ns_error
  | HandlerStream stream_error

text \<open>The virtual destructor; \<open>left_over\<close> are the events still in the handler's own queue.\<close>

fun destroy_rpc_handler ::
    "(ptr \<times> bool) list \<Rightarrow> ('req, 'resp, 'st, 'cb, 'w) rpc_handler
      \<Rightarrow> async_error + ('req, 'resp, 'st, 'cb) rpc_effect list" where
  "destroy_rpc_handler left (StreamRpc h) =
     (case destroy_stream_handler left h of
        Inl e \<Rightarrow> Inl (HandlerStream e)
      | Inr (h', es, n) \<Rightarrow> Inr (map StreamEffect es))"
| "destroy_rpc_handler left (NonStreamRpc h) =
     (case destroy_ns_handler left h of
        Inl e \<Rightarrow> Inl (HandlerAssert e)
      | Inr u \<Rightarrow> Inr [])"

text \<open>The constructor; the thread it starts is the loop below.\<close>

definition new_async_server ::
    "'svc \<Rightarrow> string \<Rightarrow> 'w \<Rightarrow> ('req, 'resp, 'st, 'cb, 'w, 'svc) async_server" where
  "new_async_server svc address w =
     \<lparr>server_calls = [RegisterService svc, AddListeningPort address, SetMaxMessageSize int_max,
        AddCompletionQueue, BuildAndStart],
      rpc_handlers = make_atomic_data [], server_pending = [], registering = [], server_down = False,
      queue_down = False, server_thread = Running, world = w, server_trace = []\<rparr>"

text \<open>
  \<open>activate_next\<close> on the handler at an address: it keeps the handler's changes, and the tags it
  registered join the queue.
\<close>

definition activate_at ::
    "('req, 'resp) activation \<Rightarrow> ptr \<Rightarrow> ('req, 'resp, 'st, 'cb, 'w) rpc_handler
      \<Rightarrow> ('req, 'resp, 'st, 'cb, 'w, 'svc) async_server
      \<Rightarrow> async_error + ('req, 'resp, 'st, 'cb, 'w, 'svc) async_server" where
  "activate_at a p h s =
     (case rpc_activate_next a (h, world s) of
        Inl e \<Rightarrow> Inl (HandlerAssert e)
      | Inr ((h', w'), es) \<Rightarrow>
          Inr (s\<lparr>rpc_handlers := snd (use_safely (\<lambda>m. ((), um_adjust (\<lambda>_. h') p m)) (rpc_handlers s)),
                 server_pending := server_pending s @ replicate (length (filter registers_rpc es)) p,
                 world := w', server_trace := server_trace s @ map (Pair p) es\<rparr>))"

text \<open>
  \<open>register_async\<close> and \<open>register_async_stream\<close> differ in the handler they make. The first half stores
  the handler under its address, with the lock held; the second half activates it through the pointer
  kept from before, without the lock.
\<close>

definition store_handler ::
    "(ptr list \<Rightarrow> ptr) \<Rightarrow> ('req, 'resp, 'st, 'cb, 'w) rpc_handler
      \<Rightarrow> ('req, 'resp, 'st, 'cb, 'w, 'svc) async_server
      \<Rightarrow> ptr \<times> ('req, 'resp, 'st, 'cb, 'w, 'svc) async_server" where
  "store_handler new h s =
     (let tag = new (um_keys (data (rpc_handlers s)))
      in (tag, s\<lparr>rpc_handlers := snd (use_safely (\<lambda>m. ((), um_emplace tag h m)) (rpc_handlers s)),
                 registering := registering s @ [tag]\<rparr>))"

definition activate_stored ::
    "('req, 'resp) activation \<Rightarrow> ptr \<Rightarrow> ('req, 'resp, 'st, 'cb, 'w, 'svc) async_server
      \<Rightarrow> async_error + ('req, 'resp, 'st, 'cb, 'w, 'svc) async_server" where
  "activate_stored a tag s =
     (case map_of (data (rpc_handlers s)) tag of
        None \<Rightarrow> Inl (HandlerGone tag)
      | Some h \<Rightarrow> activate_at a tag h (s\<lparr>registering := remove1 tag (registering s)\<rparr>))"

definition register_async ::
    "(ptr list \<Rightarrow> ptr) \<Rightarrow> ('req, 'resp) activation \<Rightarrow> ('req \<Rightarrow> 'resp \<Rightarrow> 'w \<Rightarrow> ('st \<times> 'resp) \<times> 'w)
      \<Rightarrow> ('req, 'resp, 'st, 'cb, 'w, 'svc) async_server
      \<Rightarrow> async_error + ('req, 'resp, 'st, 'cb, 'w, 'svc) async_server" where
  "register_async new a cb s =
     (let (tag, s1) = store_handler new (NonStreamRpc (new_ns_handler cb)) s in activate_stored a tag s1)"

text \<open>The setter it returns is the pointer to the handler.\<close>

definition register_async_stream ::
    "(ptr list \<Rightarrow> ptr) \<Rightarrow> ('req, 'resp) activation \<Rightarrow> ('req, 'resp, 'st, 'cb, 'w, 'svc) async_server
      \<Rightarrow> async_error + (ptr \<times> ('req, 'resp, 'st, 'cb, 'w, 'svc) async_server)" where
  "register_async_stream new a s =
     (let (tag, s1) = store_handler new (StreamRpc new_stream_handler) s
      in map_sum id (Pair tag) (activate_stored a tag s1))"

text \<open>
  One turn of the loop. With \<open>call_ok\<close> a client has called: gRPC has written its request, and \<open>at\<close>
  throws for an unknown tag. Otherwise the handler is erased, which runs its destructor.
\<close>

definition server_turn ::
    "('req, 'resp) activation \<Rightarrow> 'req \<Rightarrow> ptr \<Rightarrow> bool \<Rightarrow> ('req, 'resp, 'st, 'cb, 'w, 'svc) async_server
      \<Rightarrow> async_error + ('req, 'resp, 'st, 'cb, 'w, 'svc) async_server" where
  "server_turn a r tag call_ok s =
     (let s1 = s\<lparr>server_pending := remove1 tag (server_pending s)\<rparr>
      in if call_ok then
           (case map_of (data (rpc_handlers s1)) tag of
              None \<Rightarrow> Inl (OutOfRange tag)
            | Some h \<Rightarrow> activate_at a tag (rpc_request_arrives r h) s1)
         else
           (case (case map_of (data (rpc_handlers s1)) tag of
                    None \<Rightarrow> Inr []
                  | Some h \<Rightarrow> destroy_rpc_handler (left_over a) h) of
              Inl e \<Rightarrow> Inl e
            | Inr es \<Rightarrow>
                Inr (s1\<lparr>rpc_handlers := snd (use_safely (\<lambda>m. ((), um_erase tag m)) (rpc_handlers s1)),
                        server_trace := server_trace s1 @ map (Pair tag) es\<rparr>)))"

definition shutdown_and_wait ::
    "('req, 'resp, 'st, 'cb, 'w, 'svc) async_server \<Rightarrow> ('req, 'resp, 'st, 'cb, 'w, 'svc) async_server" where
  "shutdown_and_wait s = s\<lparr>server_down := True\<rparr>"

definition force_shutdown_in ::
    "('req, 'resp, 'st, 'cb, 'w, 'svc) async_server \<Rightarrow> ('req, 'resp, 'st, 'cb, 'w, 'svc) async_server" where
  "force_shutdown_in s = s\<lparr>server_down := True\<rparr>"

text \<open>
  The loop ends when the queue is shut down and empty. The destructor shuts both down and joins the
  thread, which takes the turns that are left.
\<close>

fun server_loop ::
    "(('req, 'resp) activation \<times> 'req \<times> ptr \<times> bool) list \<Rightarrow> ('req, 'resp, 'st, 'cb, 'w, 'svc) async_server
      \<Rightarrow> async_error + ('req, 'resp, 'st, 'cb, 'w, 'svc) async_server" where
  "server_loop [] s = Inr (if queue_down s \<and> server_pending s = [] then s\<lparr>server_thread := Returned\<rparr> else s)"
| "server_loop ((a, r, tag, call_ok) # events) s =
     (case server_turn a r tag call_ok s of
        Inl e \<Rightarrow> Inl e
      | Inr s' \<Rightarrow> server_loop events s')"

definition destroy_async_server ::
    "(('req, 'resp) activation \<times> 'req \<times> ptr \<times> bool) list \<Rightarrow> ('req, 'resp, 'st, 'cb, 'w, 'svc) async_server
      \<Rightarrow> (async_error + ('req, 'resp, 'st, 'cb, 'w, 'svc) async_server) option" where
  "destroy_async_server remaining s =
     (case server_loop remaining ((shutdown_and_wait s)\<lparr>queue_down := True\<rparr>) of
        Inl e \<Rightarrow> Some (Inl e)
      | Inr s' \<Rightarrow> if server_thread s' = Returned then Some (Inr (s'\<lparr>server_thread := Joined\<rparr>)) else None)"

section \<open>Reachable servers\<close>

text \<open>
  Registrations, the two halves of each interleaved with everything else; turns of the loop, with the
  queue returning only tags it holds; shutdown; and whatever users and synchronisation threads do to
  a stored handler.
\<close>

inductive server_reachable :: "('req, 'resp, 'st, 'cb, 'w, 'svc) async_server \<Rightarrow> bool" where
  server_init: "server_reachable (new_async_server svc address w)"
| server_store: "server_reachable s \<Longrightarrow> operator_new new \<Longrightarrow> store_handler new h s = (p, s') \<Longrightarrow> server_reachable s'"
| server_activate: "server_reachable s \<Longrightarrow> p \<in> set (registering s) \<Longrightarrow> activate_stored a p s = Inr s' \<Longrightarrow>
    server_reachable s'"
| server_next: "server_reachable s \<Longrightarrow> tag \<in> set (server_pending s) \<Longrightarrow> server_turn a r tag call_ok s = Inr s' \<Longrightarrow>
    server_reachable s'"
| server_stop: "server_reachable s \<Longrightarrow> server_reachable (shutdown_and_wait s)"
| server_force: "server_reachable s \<Longrightarrow> server_reachable (force_shutdown_in s)"
| server_users: "server_reachable s \<Longrightarrow>
    server_reachable (s\<lparr>rpc_handlers := snd (use_safely (\<lambda>m. ((), um_adjust f p m)) (rpc_handlers s))\<rparr>)"

abbreviation handlers_of ::
    "('req, 'resp, 'st, 'cb, 'w, 'svc) async_server \<Rightarrow> (ptr, ('req, 'resp, 'st, 'cb, 'w) rpc_handler) umap" where
  "handlers_of s \<equiv> data (rpc_handlers s)"

definition server_inv :: "('req, 'resp, 'st, 'cb, 'w, 'svc) async_server \<Rightarrow> bool" where
  "server_inv s \<longleftrightarrow> um_ok (handlers_of s) \<and> distinct (server_pending s @ registering s)
     \<and> set (server_pending s @ registering s) = set (um_keys (handlers_of s))"

lemma activate_at_fields:
  assumes "activate_at a p h s = Inr s'"
  obtains h' w' es where "rpc_activate_next a (h, world s) = Inr ((h', w'), es)"
    "handlers_of s' = um_adjust (\<lambda>_. h') p (handlers_of s)" "server_pending s' = server_pending s @ [p]"
    "registering s' = registering s" "world s' = w'" "server_trace s' = server_trace s @ map (Pair p) es"
    "server_down s' = server_down s" "queue_down s' = queue_down s" "server_thread s' = server_thread s"
proof -
  from assms obtain h' w' es where r: "rpc_activate_next a (h, world s) = Inr ((h', w'), es)"
    and s': "s' = s\<lparr>rpc_handlers := snd (use_safely (\<lambda>m. ((), um_adjust (\<lambda>_. h') p m)) (rpc_handlers s)),
        server_pending := server_pending s @ replicate (length (filter registers_rpc es)) p,
        world := w', server_trace := server_trace s @ map (Pair p) es\<rparr>"
    by (auto simp: activate_at_def split: sum.splits prod.splits)
  from any_rpc.activate_registers [OF r] have "length (filter registers_rpc es) = 1" .
  with s' have "handlers_of s' = um_adjust (\<lambda>_. h') p (handlers_of s)" "server_pending s' = server_pending s @ [p]"
    "registering s' = registering s" "world s' = w'" "server_trace s' = server_trace s @ map (Pair p) es"
    "server_down s' = server_down s" "queue_down s' = queue_down s" "server_thread s' = server_thread s"
    by (simp_all add: use_safely_def)
  with r show ?thesis by (rule that)
qed

lemma activate_at_tags:
  "activate_at a p h s = Inr s' \<Longrightarrow> um_keys (handlers_of s') = um_keys (handlers_of s)
     \<and> server_pending s' = server_pending s @ [p] \<and> registering s' = registering s"
  by (erule activate_at_fields) simp

lemma server_inv_store:
  assumes "server_inv s" "operator_new new" "store_handler new h s = (p, s')"
  shows "server_inv s'"
proof -
  have "new (um_keys (handlers_of s)) \<notin> set (um_keys (handlers_of s))"
    using assms(2) by (simp add: operator_new_def)
  with assms show ?thesis
    by (auto simp: server_inv_def store_handler_def use_safely_def um_emplace_def um_ok_def Let_def)
qed

lemma server_inv_activate:
  assumes "server_inv s" "p \<in> set (registering s)" "activate_stored a p s = Inr s'"
  shows "server_inv s'"
proof -
  from assms(3) obtain h where "activate_at a p h (s\<lparr>registering := remove1 p (registering s)\<rparr>) = Inr s'"
    by (auto simp: activate_stored_def split: option.splits)
  from activate_at_tags [OF this] assms(1,2) show ?thesis
    by (auto simp: server_inv_def um_ok_def)
qed

lemma server_turn_fails_fields:
  assumes "server_turn a r tag False s = Inr s'"
  shows "handlers_of s' = um_erase tag (handlers_of s) \<and> server_pending s' = remove1 tag (server_pending s)
     \<and> registering s' = registering s \<and> server_down s' = server_down s \<and> queue_down s' = queue_down s
     \<and> server_thread s' = server_thread s"
  using assms by (auto simp: server_turn_def use_safely_def Let_def split: sum.splits option.splits)

lemma server_inv_turn:
  assumes inv: "server_inv s" and tag: "tag \<in> set (server_pending s)" and turn: "server_turn a r tag call_ok s = Inr s'"
  shows "server_inv s'"
proof (cases call_ok)
  case True
  with turn obtain h where
    "activate_at a tag h (s\<lparr>server_pending := remove1 tag (server_pending s)\<rparr>) = Inr s'"
    by (auto simp: server_turn_def Let_def split: option.splits)
  from activate_at_tags [OF this] inv tag show ?thesis
    by (auto simp: server_inv_def um_ok_def)
next
  case False
  with turn server_turn_fails_fields [of a r tag s s'] inv tag show ?thesis
    by (auto simp: server_inv_def um_keys_erase um_ok_def)
qed

lemma server_reachable_inv: "server_reachable s \<Longrightarrow> server_inv s"
proof (induction rule: server_reachable.induct)
  case (server_init svc address w)
  show ?case by (simp add: server_inv_def new_async_server_def make_atomic_data_def)
next
  case (server_users s f p)
  then show ?case by (simp add: server_inv_def use_safely_def um_ok_def)
next
  case (server_store s new h p s')
  then show ?case by (blast intro: server_inv_store)
next
  case (server_activate s p a s')
  then show ?case by (blast intro: server_inv_activate)
next
  case (server_next s tag a r call_ok s')
  then show ?case by (blast intro: server_inv_turn)
qed (simp_all add: server_inv_def shutdown_and_wait_def force_shutdown_in_def)

text \<open>What the two registrations leave behind.\<close>

lemma store_handler_fields:
  assumes "operator_new new" and "store_handler new h s = (p, s1)"
  shows "map_of (handlers_of s1) p = Some h \<and> world s1 = world s
     \<and> (\<forall>q \<in> set (um_keys (handlers_of s)). q \<noteq> p \<and> map_of (handlers_of s1) q = map_of (handlers_of s) q)"
proof -
  have p: "p = new (um_keys (handlers_of s))" "handlers_of s1 = um_emplace p h (handlers_of s)" "world s1 = world s"
    using assms(2) by (auto simp: store_handler_def use_safely_def Let_def)
  then have "p \<notin> set (um_keys (handlers_of s))" using operator_newD [OF assms(1)] by simp
  with p show ?thesis by (auto simp: map_of_um_emplace in_um_keys_map_of)
qed

lemma register_async_fields:
  assumes "operator_new new" and "register_async new a cb s = Inr s'"
  shows "\<exists>p h. map_of (handlers_of s') p = Some (NonStreamRpc h) \<and> ns_ready h \<and> callback h = cb
     \<and> p \<in> set (server_pending s') \<and> world s' = world s
     \<and> (\<forall>q \<in> set (um_keys (handlers_of s)). map_of (handlers_of s') q = map_of (handlers_of s) q)"
proof -
  obtain p s1 where st: "store_handler new (NonStreamRpc (new_ns_handler cb)) s = (p, s1)" by (rule prod.exhaust)
  note s1 = store_handler_fields [OF assms(1) st]
  have "activate_at a p (NonStreamRpc (new_ns_handler cb)) (s1\<lparr>registering := remove1 p (registering s1)\<rparr>) = Inr s'"
    using assms(2) st s1 by (simp add: register_async_def activate_stored_def)
  then obtain h' w' es where h: "rpc_activate_next a (NonStreamRpc (new_ns_handler cb), world s1) = Inr ((h', w'), es)"
    "handlers_of s' = um_adjust (\<lambda>_. h') p (handlers_of s1)" "p \<in> set (server_pending s')" "world s' = w'"
    by (auto elim: activate_at_fields)
  then have "h' = NonStreamRpc \<lparr>callback = cb, ns_queue = [], connection = Some \<lparr>ns_request = default_request a\<rparr>\<rparr>" "w' = world s1"
    by (auto simp: ns_activate_next_def ns_answer_client_def new_ns_handler_def)
  with h s1 show ?thesis by (auto simp: map_of_um_adjust ns_ready_def)
qed

lemma register_async_stream_fields:
  assumes "operator_new new" and "register_async_stream new a s = Inr (p, s')"
  shows "\<exists>h. map_of (handlers_of s') p = Some (StreamRpc h) \<and> next_conn (data (conns h)) \<noteq> None \<and> world s' = world s
     \<and> active (data (conns h)) = [] \<and> processing (data (conns h)) = {}"
proof -
  obtain p' s1 where st: "store_handler new (StreamRpc new_stream_handler) s = (p', s1)" by (rule prod.exhaust)
  note s1 = store_handler_fields [OF assms(1) st]
  from assms(2) st have p': "p' = p" and act: "activate_stored a p s1 = Inr s'"
    by (auto simp: register_async_stream_def map_sum_def split: sum.splits)
  with s1 have "activate_at a p (StreamRpc new_stream_handler) (s1\<lparr>registering := remove1 p (registering s1)\<rparr>) = Inr s'"
    by (simp add: activate_stored_def)
  then obtain h' w' es where h: "rpc_activate_next a (StreamRpc new_stream_handler, world s1) = Inr ((h', w'), es)"
    "handlers_of s' = um_adjust (\<lambda>_. h') p (handlers_of s1)" "world s' = w'"
    by (auto elim: activate_at_fields)
  then obtain g where g: "h' = StreamRpc g" "active (data (conns g)) = []" "processing (data (conns g)) = {}"
    "w' = world s1"
    by (auto simp: activate_next_def activate_body_def promote_next_def use_safely_def new_stream_handler_def
        make_atomic_data_def new_connections_def Let_def split: prod.splits)
  from any_rpc.activate_waits [OF h(1)] have "rpc_waiting (h', w')" .
  with g h s1 p' show ?thesis by (auto simp: map_of_um_adjust)
qed

section \<open>Properties\<close>

text \<open>
  Claim C13. However registrations, the queue and shutdown interleave, the lookup \<open>at\<close> in the server
  loop never throws for a tag the queue returns, and the pointer a registration activates is that of
  a handler the server still owns.
\<close>

theorem async_server_lookups_succeed:
  assumes "server_reachable s"
  shows "(\<forall>tag \<in> set (server_pending s). \<forall>a r call_ok t. server_turn a r tag call_ok s \<noteq> Inl (OutOfRange t))
     \<and> (\<forall>p \<in> set (registering s). \<forall>a t. activate_stored a p s \<noteq> Inl (HandlerGone t))"
proof -
  have known: "\<exists>h. map_of (handlers_of s) p = Some h" if "p \<in> set (server_pending s @ registering s)" for p
    using that server_reachable_inv [OF assms] by (auto simp: server_inv_def in_um_keys_map_of)
  have "server_turn a r tag call_ok s \<noteq> Inl (OutOfRange t)" if "tag \<in> set (server_pending s)" for a r tag call_ok t
  proof -
    from known [of tag] that obtain h where h: "map_of (handlers_of s) tag = Some h" by auto
    have "destroy_rpc_handler (left_over a) h \<noteq> Inl (OutOfRange t)"
      by (cases h) (auto split: sum.splits prod.splits)
    with h show ?thesis
      by (auto simp: server_turn_def activate_at_def Let_def split: sum.splits prod.splits)
  qed
  moreover have "activate_stored a p s \<noteq> Inl (HandlerGone t)" if "p \<in> set (registering s)" for a p t
    using known [of p] that by (auto simp: activate_stored_def activate_at_def split: sum.splits prod.splits)
  ultimately show ?thesis by blast
qed

text \<open>
  Claim C17. Every handler of the server has exactly one request registered with the queue, unless it
  is just being registered: no client is ever turned away because its handler is not listening, and
  no handler listens twice.
\<close>

theorem async_server_one_registration_each:
  assumes "server_reachable s" and "h \<in> set (um_keys (handlers_of s))" and "h \<notin> set (registering s)"
  shows "count_list (server_pending s) h = 1"
  using server_reachable_inv [OF assms(1)] assms(2,3)
  by (auto simp: server_inv_def count_list_distinct)

lemma server_turn_fails_quietly:
  assumes "left_over a = []"
  shows "\<exists>s'. server_turn a r tag False s = Inr s'"
proof -
  have "destroy_rpc_handler [] h = Inr []" for h :: "('a, 'b, 'c, 'd, 'e) rpc_handler"
    by (cases h) (simp_all add: destroy_stream_handler_def)
  with assms show ?thesis
    by (cases "map_of (handlers_of s) tag") (simp_all add: server_turn_def Let_def)
qed

lemma server_loop_drains:
  assumes "server_inv s" and "registering s = []" and "distinct ts"
    and "set ts = set (server_pending s)" and "queue_down s" and "\<forall>x\<in>set envs. left_over x = []" and "length envs = length ts"
  shows "\<exists>s'. server_loop (map2 (\<lambda>a t. (a, r, t, False)) envs ts) s = Inr s'
     \<and> handlers_of s' = [] \<and> server_pending s' = [] \<and> server_thread s' = Returned"
  using assms(7,1-6)
proof (induction envs ts arbitrary: s rule: list_induct2)
  case Nil
  then have "um_keys (handlers_of s) = []" by (simp add: server_inv_def)
  then have "handlers_of s = []" by (simp add: um_keys_def)
  with Nil show ?case by simp
next
  case (Cons a as t us)
  have t: "t \<in> set (server_pending s)" using Cons.prems by auto
  from Cons.prems(6) obtain s1 where s1: "server_turn a r t False s = Inr s1"
    using server_turn_fails_quietly [of a r t s] by auto
  have inv1: "server_inv s1" by (rule server_inv_turn [OF Cons.prems(1) t s1])
  have "set us = set (server_pending s1)" "registering s1 = []" "queue_down s1"
    using server_turn_fails_fields [OF s1] Cons.prems by (auto simp: server_inv_def)
  with Cons.IH [OF inv1] Cons.prems s1 show ?case by simp
qed


lemma server_turn_answers:
  assumes "map_of (handlers_of s) p = Some (NonStreamRpc h)"
    and "ns_ready h" and "queue_answer a = Some (response_addr a, True)"
    and "callback h r (default_response a) (world s) = ((status, response), w')"
  shows "\<exists>s'. server_turn a r p True s = Inr s'
     \<and> server_trace s' = server_trace s @ [(p, NonStreamEffect (NsFinish response status (response_addr a))),
          (p, NonStreamEffect NsRequestRpc)]
     \<and> world s' = w' \<and> p \<in> set (server_pending s')
     \<and> (\<forall>q. q \<noteq> p \<longrightarrow> map_of (handlers_of s') q = map_of (handlers_of s) q)"
  using assms(1,3) ns_activate_next_answers [OF assms(2,4), of "default_request a" "response_addr a"]
  by (simp add: server_turn_def activate_at_def use_safely_def map_of_um_adjust)


text \<open>
  The comment on \<open>register_async_stream\<close> allows the returned stream to be used until the
  server is destroyed. The loop erases a handler, though, as soon as its tag comes back with \<open>call_ok\<close>
  false, which \<open>shutdown_and_wait\<close> brings about: from then on the pointer the user holds refers to no
  handler, while the server object lives on.
\<close>

theorem async_stream_pointer_dangles_after_shutdown:
  assumes "server_reachable s" and "p \<in> set (server_pending s)"
    and "server_turn a r p False (shutdown_and_wait s) = Inr s'"
  shows "map_of (handlers_of s') p = None \<and> p \<notin> set (server_pending s' @ registering s')
     \<and> server_thread s' = server_thread s \<and> queue_down s' = queue_down s"
proof -
  have p: "p \<in> set (server_pending (shutdown_and_wait s))" using assms(2) by (simp add: shutdown_and_wait_def)
  have inv: "server_inv (shutdown_and_wait s)" by (rule server_reachable_inv [OF server_stop [OF assms(1)]])
  from server_inv_turn [OF inv p assms(3)] server_turn_fails_fields [OF assms(3)] inv show ?thesis
    by (auto simp: server_inv_def shutdown_and_wait_def map_of_um_erase um_keys_erase)
qed

section \<open>Witnesses\<close>

definition quick_env :: "(nat, nat) activation" where
  "quick_env = \<lparr>new_connection = bump_new, new_tag = bump_new, default_request = 0, default_response = 0,
     response_addr = 9, queue_answer = Some (9, True), left_over = []\<rparr>"

definition doubling :: "nat \<Rightarrow> nat \<Rightarrow> nat \<Rightarrow> (nat \<times> nat) \<times> nat" where
  "doubling r response w = ((0, 2 * r), Suc w)"

definition one_method :: "(nat, nat, nat, nat, nat, nat) async_server" where
  "one_method = (new_async_server 1 ''0.0.0.0:9090'' 0)\<lparr>
     rpc_handlers := \<lparr>data = [(1, NonStreamRpc \<lparr>callback = doubling, ns_queue = [], connection = Some \<lparr>ns_request = 0\<rparr>\<rparr>)]\<rparr>,
     server_pending := [1], server_trace := [(1, NonStreamEffect NsRequestRpc)]\<rparr>"

lemmas server_eval = new_async_server_def make_atomic_data_def store_handler_def activate_stored_def
  activate_at_def use_safely_def um_emplace_def um_adjust_def bump_new_def new_ns_handler_def
  ns_activate_next_def ns_answer_client_def

lemma one_method_registered: "register_async bump_new quick_env doubling (new_async_server 1 ''0.0.0.0:9090'' 0) = Inr one_method"
  by (simp add: register_async_def one_method_def quick_env_def server_eval)

lemma one_method_reachable: "server_reachable one_method"
proof -
  let ?s0 = "new_async_server 1 ''0.0.0.0:9090'' 0 :: (nat, nat, nat, nat, nat, nat) async_server"
  obtain p s1 where s1: "store_handler bump_new (NonStreamRpc (new_ns_handler doubling)) ?s0 = (p, s1)"
    by (rule prod.exhaust)
  have "p \<in> set (registering s1)" using s1 by (auto simp: store_handler_def Let_def)
  moreover have "activate_stored quick_env p s1 = Inr one_method"
    using one_method_registered s1 by (simp add: register_async_def)
  ultimately show ?thesis
    using server_activate [OF server_store [OF server_init operator_new_bump s1]] by blast
qed

theorem async_server_lookups_succeed_witness:
  "1 \<in> set (server_pending one_method) \<and> server_turn quick_env 4 1 True one_method \<noteq> Inl (OutOfRange 1)"
  using async_server_lookups_succeed [OF one_method_reachable] by (simp add: one_method_def)

theorem async_server_one_registration_each_witness:
  "count_list (server_pending one_method) 1 = 1"
  using async_server_one_registration_each [OF one_method_reachable, of 1]
  by (simp add: one_method_def new_async_server_def)



theorem async_stream_pointer_dangles_after_shutdown_witness:
  "\<exists>s'. server_turn quick_env 0 1 False (shutdown_and_wait one_method) = Inr s'
     \<and> map_of (handlers_of s') 1 = None \<and> server_thread s' = Running"
proof -
  obtain s' where s': "server_turn quick_env 0 1 False (shutdown_and_wait one_method) = Inr s'"
    using server_turn_fails_quietly [of quick_env 0 1 "shutdown_and_wait one_method"] by (auto simp: quick_env_def)
  have "1 \<in> set (server_pending one_method)" by (simp add: one_method_def)
  from async_stream_pointer_dangles_after_shutdown [OF one_method_reachable this s'] s' show ?thesis
    by (simp add: one_method_def new_async_server_def)
qed

end
