(* ===== verification/Grpc_Client_Stream.thy ===== *)
theory Grpc_Client_Stream
  imports Grpcw_Prelude
begin

text \<open>
  The states of a client (include/grpcw/client/grpc_client_state.hpp, the conversion in
  grpc_client.hpp) and a stream of updates it reads, \<open>GrpcClientStream\<close> with its interface
  (grpc_client_stream.hpp).

  The stream's thread is a \<open>thread_state\<close>. What the reader delivers until it ends, and the status it
  then reports, are arguments. Replacing or destroying a thread that is still joinable calls
  \<open>std::terminate\<close>, and joining one that is not throws; both are errors of the model, as is the
  use of a null pointer.
\<close>

section \<open>Client states\<close>

datatype grpc_client_state = NotConnected | AttemptingToConnect | Connected

datatype connectivity = Idle | Connecting | Ready | TransientFailure | Shutdown

text \<open>
  The values of the enumeration are those of its underlying type \<open>int\<close>, so a cast can make one that is
  no enumerator, for which \<open>to_string\<close> throws \<open>std::invalid_argument\<close>.
\<close>

fun state_value :: "grpc_client_state \<Rightarrow> int" where
  "state_value NotConnected = 0"
| "state_value AttemptingToConnect = 1"
| "state_value Connected = 2"

datatype enum_error = InvalidArgument string

definition to_string :: "int \<Rightarrow> enum_error + string" where
  "to_string state =
     (if state = state_value NotConnected then Inr ''not_connected''
      else if state = state_value AttemptingToConnect then Inr ''attempting_to_connect''
      else if state = state_value Connected then Inr ''connected''
      else Inl (InvalidArgument ''Invalid GrpcClientState''))"

definition print_client_state :: "string \<Rightarrow> int \<Rightarrow> enum_error + string" where
  "print_client_state os state = map_sum id ((@) os) (to_string state)"

text \<open>The \<open>switch\<close> of the conversion covers every enumerator gRPC has for the state of a channel.\<close>

fun to_cnc_client_state :: "connectivity \<Rightarrow> grpc_client_state" where
  "to_cnc_client_state Shutdown = NotConnected"
| "to_cnc_client_state Idle = NotConnected"
| "to_cnc_client_state Connecting = AttemptingToConnect"
| "to_cnc_client_state TransientFailure = AttemptingToConnect"
| "to_cnc_client_state Ready = Connected"

text \<open>The same for any value of gRPC's enumeration: \<open>None\<close> is one that is no enumerator.\<close>

fun to_cnc_client_state_of :: "connectivity option \<Rightarrow> enum_error + grpc_client_state" where
  "to_cnc_client_state_of (Some state) = Inr (to_cnc_client_state state)"
| "to_cnc_client_state_of None = Inl (InvalidArgument ''Invalid grpc_connectivity_state'')"

lemma connected_iff_ready [simp]:
  "to_cnc_client_state s = Connected \<longleftrightarrow> s = Ready" "Connected = to_cnc_client_state s \<longleftrightarrow> s = Ready"
  by (cases s; simp)+

record channel_arguments =
  max_receive_message_size :: int

definition default_channel_arguments :: channel_arguments where
  "default_channel_arguments = \<lparr>max_receive_message_size = 2147483647\<rparr>"

section \<open>GrpcClientStream\<close>

datatype client_context = Open | Cancelled

record ('stub, 'reader, 'cb) client_stream =
  context_of :: "client_context option"
  reader :: "'reader option"
  stream_thread :: thread_state
  init_func :: "'stub \<Rightarrow> 'reader"
  update_callback :: "'cb option"
  finish_callback :: "'cb option"

datatype ('ret, 'st, 'cb) client_stream_effect =
    OnUpdate 'cb 'ret
  | OnFinish 'cb 'st

datatype client_error = Terminate | NotJoinable | NullContext | NullStub | AssertTag

definition new_client_stream :: "('stub \<Rightarrow> 'reader) \<Rightarrow> ('stub, 'reader, 'cb) client_stream" where
  "new_client_stream f = \<lparr>context_of = None, reader = None, stream_thread = NoThread, init_func = f,
     update_callback = None, finish_callback = None\<rparr>"

definition streaming :: "('stub, 'reader, 'cb) client_stream \<Rightarrow> bool" where
  "streaming s \<longleftrightarrow> context_of s \<noteq> None"

definition start_stream ::
    "'stub \<Rightarrow> ('stub, 'reader, 'cb) client_stream \<Rightarrow> client_error + ('stub, 'reader, 'cb) client_stream" where
  "start_stream stub s =
     (if streaming s then Inr s
      else if joinable (stream_thread s) then Inl Terminate
      else Inr (s\<lparr>context_of := Some Open, reader := Some (init_func s stub), stream_thread := Running\<rparr>))"

text \<open>The body of the stream's thread: every update, then the status.\<close>

definition deliver_update :: "'ret \<Rightarrow> ('stub, 'reader, 'cb) client_stream \<Rightarrow> ('ret, 'st, 'cb) client_stream_effect list" where
  "deliver_update update s = (case update_callback s of None \<Rightarrow> [] | Some cb \<Rightarrow> [OnUpdate cb update])"

definition deliver_finish :: "'st \<Rightarrow> ('stub, 'reader, 'cb) client_stream \<Rightarrow> ('ret, 'st, 'cb) client_stream_effect list" where
  "deliver_finish status s = (case finish_callback s of None \<Rightarrow> [] | Some cb \<Rightarrow> [OnFinish cb status])"

fun run_stream_thread ::
    "'ret list \<Rightarrow> 'st \<Rightarrow> ('stub, 'reader, 'cb) client_stream
      \<Rightarrow> ('stub, 'reader, 'cb) client_stream \<times> ('ret, 'st, 'cb) client_stream_effect list" where
  "run_stream_thread [] status s = (s\<lparr>stream_thread := Returned\<rparr>, deliver_finish status s)"
| "run_stream_thread (update # updates) status s =
     (let (s', es) = run_stream_thread updates status s in (s', deliver_update update s @ es))"

text \<open>
  \<open>stop_stream\<close> cancels the call and joins the thread, which first delivers what the reader still has
  (\<open>updates\<close>, \<open>status\<close>) unless it has returned before.
\<close>

definition join_stream_thread ::
    "'ret list \<Rightarrow> 'st \<Rightarrow> ('stub, 'reader, 'cb) client_stream
      \<Rightarrow> client_error + (('stub, 'reader, 'cb) client_stream \<times> ('ret, 'st, 'cb) client_stream_effect list)" where
  "join_stream_thread updates status s =
     (case stream_thread s of
        Running \<Rightarrow> (let (s', es) = run_stream_thread updates status s in Inr (s'\<lparr>stream_thread := Joined\<rparr>, es))
      | Returned \<Rightarrow> Inr (s\<lparr>stream_thread := Joined\<rparr>, [])
      | NoThread \<Rightarrow> Inl NotJoinable
      | Joined \<Rightarrow> Inl NotJoinable)"

definition stop_stream ::
    "'ret list \<Rightarrow> 'st \<Rightarrow> ('stub, 'reader, 'cb) client_stream
      \<Rightarrow> client_error + (('stub, 'reader, 'cb) client_stream \<times> ('ret, 'st, 'cb) client_stream_effect list)" where
  "stop_stream updates status s =
     (if \<not> streaming s then Inr (s, [])
      else
        (case join_stream_thread updates status (s\<lparr>context_of := Some Cancelled\<rparr>) of
           Inl e \<Rightarrow> Inl e
         | Inr (s', es) \<Rightarrow> Inr (s'\<lparr>context_of := None\<rparr>, es)))"

definition on_update ::
    "'cb \<Rightarrow> ('stub, 'reader, 'cb) client_stream \<Rightarrow> ('stub, 'reader, 'cb) client_stream" where
  "on_update cb s = s\<lparr>update_callback := Some cb\<rparr>"

definition on_finish ::
    "'cb \<Rightarrow> ('stub, 'reader, 'cb) client_stream \<Rightarrow> ('stub, 'reader, 'cb) client_stream" where
  "on_finish cb s = s\<lparr>finish_callback := Some cb\<rparr>"

text \<open>The defaulted destructor destroys the thread object.\<close>

definition destroy_client_stream :: "('stub, 'reader, 'cb) client_stream \<Rightarrow> client_error + unit" where
  "destroy_client_stream s = (if joinable (stream_thread s) then Inl Terminate else Inr ())"

section \<open>The interface the client relies on\<close>

text \<open>The client's loops over all its streams, for any implementation of the interface.\<close>

fun start_all :: "('s \<Rightarrow> 'e + 's) \<Rightarrow> (ptr, 's) umap \<Rightarrow> 'e + (ptr, 's) umap" where
  "start_all start [] = Inr []"
| "start_all start ((p, s) # m) =
     (case start s of
        Inl e \<Rightarrow> Inl e
      | Inr s' \<Rightarrow> (case start_all start m of Inl e \<Rightarrow> Inl e | Inr m' \<Rightarrow> Inr ((p, s') # m')))"

fun stop_all :: "(ptr \<Rightarrow> 's \<Rightarrow> 'e + ('s \<times> 'eff list)) \<Rightarrow> (ptr, 's) umap \<Rightarrow> 'e + ((ptr, 's) umap \<times> (ptr \<times> 'eff) list)" where
  "stop_all stop [] = Inr ([], [])"
| "stop_all stop ((p, s) # m) =
     (case stop p s of
        Inl e \<Rightarrow> Inl e
      | Inr (s', es) \<Rightarrow>
          (case stop_all stop m of
             Inl e \<Rightarrow> Inl e
           | Inr (m', fs) \<Rightarrow> Inr ((p, s') # m', map (Pair p) es @ fs)))"

locale client_stream_interface =
  fixes start :: "'stub \<Rightarrow> 's \<Rightarrow> 'e + 's"
    and stop :: "'env \<Rightarrow> 's \<Rightarrow> 'e + ('s \<times> 'eff list)"
    and active :: "'s \<Rightarrow> bool"
    and valid :: "'s \<Rightarrow> bool"
  assumes start_ok: "valid s \<Longrightarrow> \<exists>s'. start stub s = Inr s' \<and> valid s' \<and> active s'"
    and stop_ok: "valid s \<Longrightarrow> \<exists>s' es. stop env s = Inr (s', es) \<and> valid s' \<and> \<not> active s'"
begin

lemma start_all_ok:
  "\<forall>s \<in> snd ` set m. valid s \<Longrightarrow>
    \<exists>m'. start_all (start stub) m = Inr m' \<and> um_keys m' = um_keys m \<and> (\<forall>s \<in> snd ` set m'. valid s \<and> active s)"
proof (induction m)
  case (Cons x m)
  obtain p s where x: "x = (p, s)" by (rule prod.exhaust)
  with Cons obtain m' where "start_all (start stub) m = Inr m'" "um_keys m' = um_keys m"
    "\<forall>s \<in> snd ` set m'. valid s \<and> active s" by auto
  moreover from Cons.prems x obtain s' where "start stub s = Inr s'" "valid s'" "active s'"
    using start_ok [of s stub] by auto
  ultimately show ?case by (auto simp: x)
qed simp

lemma stop_all_ok:
  "\<forall>s \<in> snd ` set m. valid s \<Longrightarrow>
    \<exists>m' es. stop_all (\<lambda>p. stop (env p)) m = Inr (m', es) \<and> um_keys m' = um_keys m
      \<and> (\<forall>s \<in> snd ` set m'. valid s \<and> \<not> active s)"
proof (induction m)
  case (Cons x m)
  obtain p s where x: "x = (p, s)" by (rule prod.exhaust)
  with Cons obtain m' es where "stop_all (\<lambda>p. stop (env p)) m = Inr (m', es)" "um_keys m' = um_keys m"
    "\<forall>s \<in> snd ` set m'. valid s \<and> \<not> active s" by auto
  moreover from Cons.prems x obtain s' fs where "stop (env p) s = Inr (s', fs)" "valid s'" "\<not> active s'"
    using stop_ok [of s "env p"] by auto
  ultimately show ?case by (auto simp: x)
qed simp

end

text \<open>The thread is joinable exactly while the context exists.\<close>

definition stream_ok :: "('stub, 'reader, 'cb) client_stream \<Rightarrow> bool" where
  "stream_ok s \<longleftrightarrow> joinable (stream_thread s) = streaming s \<and> (streaming s \<longrightarrow> reader s \<noteq> None)"

lemma run_stream_thread_fields:
  "fst (run_stream_thread updates status s) = s\<lparr>stream_thread := Returned\<rparr>"
  by (induction updates) (auto split: prod.splits)

lemma start_stream_ok: "stream_ok s \<Longrightarrow> \<exists>s'. start_stream stub s = Inr s' \<and> stream_ok s' \<and> streaming s'"
  by (cases "streaming s") (auto simp: start_stream_def stream_ok_def, auto simp: streaming_def)

lemma stop_stream_ok:
  "stream_ok s \<Longrightarrow> \<exists>s' (es :: ('ret, 'st, 'cb) client_stream_effect list).
     stop_stream updates status s = Inr (s', es) \<and> stream_ok s' \<and> \<not> streaming s'"
  using run_stream_thread_fields [of updates status "s\<lparr>context_of := Some Cancelled\<rparr>"]
  by (cases "stream_thread s")
    (auto simp: stop_stream_def join_stream_thread_def stream_ok_def streaming_def split: prod.splits)

interpretation client_streams: client_stream_interface start_stream
  "\<lambda>(updates, status). stop_stream updates status" streaming stream_ok
proof
  fix s :: "('a, 'b, 'c) client_stream" and stub :: 'a and env :: "'d list \<times> 'e"
  assume "stream_ok s"
  then show "\<exists>s'. start_stream stub s = Inr s' \<and> stream_ok s' \<and> streaming s'" by (rule start_stream_ok)
  from \<open>stream_ok s\<close> show "\<exists>s' es. (case env of (updates, status) \<Rightarrow> stop_stream updates status) s = Inr (s', es)
      \<and> stream_ok s' \<and> \<not> streaming s'"
    using stop_stream_ok by (cases env) fastforce
qed

section \<open>Any sequence of operations\<close>

datatype ('stub, 'ret, 'st, 'cb) stream_op =
    Start 'stub
  | Stop "'ret list" 'st
  | Ends "'ret list" 'st
  | SetUpdate 'cb
  | SetFinish 'cb

text \<open>\<open>Ends\<close>: the server ends the stream, and the thread returns by itself.\<close>

fun stream_operation ::
    "('stub, 'ret, 'st, 'cb) stream_op \<Rightarrow> ('stub, 'reader, 'cb) client_stream
      \<Rightarrow> client_error + (('stub, 'reader, 'cb) client_stream \<times> ('ret, 'st, 'cb) client_stream_effect list)" where
  "stream_operation (Start stub) s = map_sum id (\<lambda>s'. (s', [])) (start_stream stub s)"
| "stream_operation (Stop updates status) s = stop_stream updates status s"
| "stream_operation (Ends updates status) s =
     (if stream_thread s = Running then Inr (run_stream_thread updates status s) else Inr (s, []))"
| "stream_operation (SetUpdate cb) s = Inr (on_update cb s, [])"
| "stream_operation (SetFinish cb) s = Inr (on_finish cb s, [])"

fun stream_operations ::
    "('stub, 'ret, 'st, 'cb) stream_op list \<Rightarrow> ('stub, 'reader, 'cb) client_stream
      \<Rightarrow> client_error + (('stub, 'reader, 'cb) client_stream \<times> ('ret, 'st, 'cb) client_stream_effect list)" where
  "stream_operations [] s = Inr (s, [])"
| "stream_operations (op # ops) s =
     (case stream_operation op s of
        Inl e \<Rightarrow> Inl e
      | Inr (s1, es) \<Rightarrow>
          (case stream_operations ops s1 of
             Inl e \<Rightarrow> Inl e
           | Inr (s2, fs) \<Rightarrow> Inr (s2, es @ fs)))"

lemma stream_operation_ok:
  fixes s :: "('stub, 'reader, 'cb) client_stream"
  assumes "stream_ok s"
  shows "\<exists>s' (es :: ('ret, 'st, 'cb) client_stream_effect list). stream_operation op s = Inr (s', es) \<and> stream_ok s'"
proof (cases op)
  case (Start stub)
  with start_stream_ok [OF assms, of stub] show ?thesis by auto
next
  case (Stop updates status)
  with stop_stream_ok [OF assms, of updates status] show ?thesis by auto
next
  case (Ends updates status)
  have "stream_ok (s\<lparr>stream_thread := Returned\<rparr>)" if "stream_thread s = Running"
    using assms that by (auto simp: stream_ok_def streaming_def)
  with Ends run_stream_thread_fields [of updates status s] assms show ?thesis
    by (cases "run_stream_thread updates status s :: _ \<times> ('ret, 'st, 'cb) client_stream_effect list") auto
qed (use assms in \<open>auto simp: on_update_def on_finish_def stream_ok_def streaming_def\<close>)

section \<open>Properties\<close>

text \<open>
  A stream of updates can be started, stopped, ended by the server and given callbacks in
  any order and any number of times: no thread is ever lost while joinable, none is joined twice, and
  once it is stopped, the stream can be destroyed.
\<close>

theorem client_stream_never_terminates:
  "\<exists>s (es :: ('ret, 'st, 'cb) client_stream_effect list).
     stream_operations (ops @ [Stop updates status]) (new_client_stream f) = Inr (s, es)
     \<and> \<not> streaming s \<and> destroy_client_stream s = Inr ()"
proof -
  have "\<exists>s' (es :: ('ret, 'st, 'cb) client_stream_effect list).
      stream_operations (ops @ [Stop updates status]) s = Inr (s', es) \<and> stream_ok s' \<and> \<not> streaming s'"
    if "stream_ok s" for s :: "('a, 'b, 'cb) client_stream"
    using that
  proof (induction ops arbitrary: s)
    case Nil
    from stop_stream_ok [OF this, of updates status] show ?case by auto
  next
    case (Cons op ops)
    from stream_operation_ok [OF Cons.prems, of op] obtain s1 and es :: "('ret, 'st, 'cb) client_stream_effect list"
      where "stream_operation op s = Inr (s1, es)" "stream_ok s1" by blast
    with Cons.IH [OF this(2)] show ?case by auto
  qed
  moreover have "stream_ok (new_client_stream f :: ('a, 'b, 'cb) client_stream)"
    by (simp add: stream_ok_def new_client_stream_def streaming_def)
  ultimately show ?thesis by (fastforce simp: stream_ok_def destroy_client_stream_def)
qed

text \<open>
  The stream's thread hands every update to the update callback, in the order the server
  sent them, and then the status to the finish callback, once; a callback that is not set is skipped
  and the thread still returns.
\<close>

theorem client_stream_delivers_in_order:
  "run_stream_thread updates status s =
     (s\<lparr>stream_thread := Returned\<rparr>,
      (case update_callback s of None \<Rightarrow> [] | Some cb \<Rightarrow> map (OnUpdate cb) updates)
      @ (case finish_callback s of None \<Rightarrow> [] | Some cb \<Rightarrow> [OnFinish cb status]))"
  by (induction updates) (auto simp: deliver_update_def deliver_finish_def split: option.splits)

text \<open>
  A stream can be restarted: after \<open>stop_stream\<close>, \<open>start_stream\<close> opens a new call on the stub
  it is given and runs a new thread, whereas \<open>start_stream\<close> on a stream that is streaming does nothing.
\<close>

theorem client_stream_restart:
  assumes "stream_ok s" and "stop_stream updates status s = Inr (s1, es)"
  shows "\<exists>s2. start_stream stub s1 = Inr s2 \<and> stream_thread s2 = Running \<and> reader s2 = Some (init_func s stub)
     \<and> context_of s2 = Some Open \<and> start_stream stub' s2 = Inr s2"
proof -
  have s1: "stream_ok s1" "\<not> streaming s1"
    using stop_stream_ok [OF assms(1), of updates status] assms(2) by auto
  have "init_func s1 = init_func s"
    using assms(2) run_stream_thread_fields [of updates status "s\<lparr>context_of := Some Cancelled\<rparr>"]
    by (auto simp: stop_stream_def join_stream_thread_def split: if_splits sum.splits thread_state.splits prod.splits)
  with s1 show ?thesis by (simp add: start_stream_def stream_ok_def streaming_def)
qed

theorem client_stream_restart_witness:
  "\<exists>s2. start_stream 4 (new_client_stream (\<lambda>stub. stub + 1) :: (nat, nat, nat) client_stream) = Inr s2
     \<and> stream_thread s2 = Running \<and> reader s2 = Some 5"
proof -
  let ?s = "new_client_stream (\<lambda>stub. stub + 1) :: (nat, nat, nat) client_stream"
  have ok: "stream_ok ?s" and stop: "stop_stream [] 0 ?s = Inr (?s, [] :: (nat, nat, nat) client_stream_effect list)"
    by (simp_all add: new_client_stream_def stream_ok_def streaming_def stop_stream_def)
  from client_stream_restart [OF ok stop, of 4 0] show ?thesis by (auto simp: new_client_stream_def)
qed

end
