(* ===== verification/Grpc_Client.thy ===== *)
theory Grpc_Client
  imports Grpc_Client_Stream Atomic_Data
begin

text \<open>
  The client \<open>GrpcClient\<close> (include/grpcw/client/grpc_client.hpp): its connection to a server, the
  thread that follows the state of the channel, and the streams it starts and stops with it.

  A channel is a value of a type parameter; the stub made for a channel is identified with it. What
  \<open>GetState\<close> answers is an argument. The completion queue is whether it has been shut down and how
  many notifications it owes. Where a stream is stopped, \<open>rest\<close> gives for each stream the updates its
  reader still delivers and the final status.
\<close>

section \<open>State\<close>

record ('chan, 'reader, 'cb) shared_data =
  connection_state :: connectivity
  channel :: "'chan option"
  stub :: "'chan option"
  streams :: "(ptr, ('chan, 'reader, 'cb) client_stream) umap"

record client_queue =
  queue_shut :: bool
  owed :: nat

record ('chan, 'reader, 'cb) grpc_client =
  shared_of :: "('chan, 'reader, 'cb) shared_data atomic_data"
  using_in_process_server :: bool
  server_address :: string
  event_queue :: "client_queue option"
  follow_thread :: thread_state
  change_callback :: "'cb option"

datatype ('ret, 'st, 'cb) client_effect =
    ConnectionChange 'cb grpc_client_state
  | FromStream ptr "('ret, 'st, 'cb) client_stream_effect"

type_synonym ('ret, 'st) stream_rest = "ptr \<Rightarrow> 'ret list \<times> 'st"

definition new_shared_data :: "('chan, 'reader, 'cb) shared_data" where
  "new_shared_data = \<lparr>connection_state = Idle, channel = None, stub = None, streams = []\<rparr>"

definition new_grpc_client :: "('chan, 'reader, 'cb) grpc_client" where
  "new_grpc_client = \<lparr>shared_of = make_atomic_data new_shared_data, using_in_process_server = False,
     server_address = [], event_queue = None, follow_thread = NoThread, change_callback = None\<rparr>"

abbreviation sd :: "('chan, 'reader, 'cb) grpc_client \<Rightarrow> ('chan, 'reader, 'cb) shared_data" where
  "sd c \<equiv> data (shared_of c)"

text \<open>
  A locked body that can fail: a failure inside \<open>use_safely\<close> leaves through it.
\<close>

definition use_shared ::
    "(('chan, 'reader, 'cb) shared_data \<Rightarrow> client_error + ('r \<times> ('chan, 'reader, 'cb) shared_data))
      \<Rightarrow> ('chan, 'reader, 'cb) grpc_client \<Rightarrow> client_error + ('r \<times> ('chan, 'reader, 'cb) grpc_client)" where
  "use_shared body c =
     (let (r, a) = use_safely (\<lambda>d. case body d of Inl e \<Rightarrow> (Inl e, d) | Inr (x, d') \<Rightarrow> (Inr x, d')) (shared_of c)
      in case r of Inl e \<Rightarrow> Inl e | Inr x \<Rightarrow> Inr (x, c\<lparr>shared_of := a\<rparr>))"

lemma use_shared_simp:
  "use_shared body c =
     (case body (sd c) of Inl e \<Rightarrow> Inl e | Inr (x, d) \<Rightarrow> Inr (x, c\<lparr>shared_of := (shared_of c)\<lparr>data := d\<rparr>\<rparr>))"
  by (simp add: use_shared_def use_safely_def split: sum.splits prod.splits)

section \<open>The thread that follows the channel\<close>

definition starting ::
    "('chan, 'reader, 'cb) shared_data \<Rightarrow> client_error + ('chan, 'reader, 'cb) shared_data" where
  "starting d =
     (case stub d of
        None \<Rightarrow> if streams d = [] then Inr d else Inl NullStub
      | Some st \<Rightarrow> map_sum id (\<lambda>m. d\<lparr>streams := m\<rparr>) (start_all (start_stream st) (streams d)))"

definition stopping ::
    "('ret, 'st) stream_rest \<Rightarrow> ('chan, 'reader, 'cb) shared_data
      \<Rightarrow> client_error + ((ptr \<times> ('ret, 'st, 'cb) client_stream_effect) list \<times> ('chan, 'reader, 'cb) shared_data)" where
  "stopping rest d =
     map_sum id (\<lambda>(m, es). (es, d\<lparr>streams := m\<rparr>)) (stop_all (\<lambda>p. case rest p of (us, st) \<Rightarrow> stop_stream us st) (streams d))"

text \<open>
  The locked part of one turn of \<open>run\<close>. It gives the state to report, if it changed, whether the
  channel was asked for a further notification, and the effects of stopped streams.
\<close>

definition follow_body ::
    "connectivity \<Rightarrow> bool \<Rightarrow> ('ret, 'st) stream_rest \<Rightarrow> ('chan, 'reader, 'cb) shared_data
      \<Rightarrow> client_error + ((grpc_client_state option \<times> bool \<times> (ptr \<times> ('ret, 'st, 'cb) client_stream_effect) list)
           \<times> ('chan, 'reader, 'cb) shared_data)" where
  "follow_body get_state_answer result_ok rest d =
     (if channel d \<noteq> None then
        (if result_ok then
           (let old_client_state = to_cnc_client_state (connection_state d);
                d1 = d\<lparr>connection_state := get_state_answer\<rparr>;
                cnc_client_state = to_cnc_client_state (connection_state d1)
            in if cnc_client_state \<noteq> old_client_state then
                 (if connection_state d1 = Ready then
                    (case starting d1 of
                       Inl e \<Rightarrow> Inl e
                     | Inr d2 \<Rightarrow> Inr ((Some cnc_client_state, True, []), d2))
                  else
                    (case stopping rest d1 of
                       Inl e \<Rightarrow> Inl e
                     | Inr (es, d2) \<Rightarrow> Inr ((Some cnc_client_state, True, es), d2)))
               else Inr ((None, True, []), d1))
         else Inr ((None, True, []), d))
      else if to_cnc_client_state (connection_state d) \<noteq> NotConnected then
        (let d1 = d\<lparr>connection_state := Shutdown\<rparr>
         in Inr ((Some (to_cnc_client_state (connection_state d1)), False, []), d1))
      else Inr ((None, False, []), d))"

definition report :: "'cb option \<Rightarrow> grpc_client_state option \<Rightarrow> ('ret, 'st, 'cb) client_effect list" where
  "report callback changed =
     (case (callback, changed) of (Some cb, Some st) \<Rightarrow> [ConnectionChange cb st] | _ \<Rightarrow> [])"

text \<open>
  One turn: \<open>Next\<close> hands back one of the notifications the queue owes. The queue is only given the
  connection change tag, so the assertion on the tag holds.
\<close>

definition take_notification :: "client_queue \<Rightarrow> client_queue" where
  "take_notification q = q\<lparr>owed := owed q - 1\<rparr>"

definition notify_on_state_change :: "bool \<Rightarrow> client_queue \<Rightarrow> client_queue" where
  "notify_on_state_change again q = (if again then q\<lparr>owed := Suc (owed q)\<rparr> else q)"

definition run_turn ::
    "connectivity \<Rightarrow> bool \<Rightarrow> ('ret, 'st) stream_rest \<Rightarrow> ('chan, 'reader, 'cb) grpc_client
      \<Rightarrow> client_error + (('chan, 'reader, 'cb) grpc_client \<times> ('ret, 'st, 'cb) client_effect list)" where
  "run_turn get_state_answer result_ok rest c =
     (case use_shared (follow_body get_state_answer result_ok rest) c of
        Inl e \<Rightarrow> Inl e
      | Inr ((changed, again, es), c1) \<Rightarrow>
          Inr (c1\<lparr>event_queue := map_option (notify_on_state_change again \<circ> take_notification) (event_queue c1)\<rparr>,
               map (\<lambda>(p, e). FromStream p e) es @ report (change_callback c1) changed))"

section \<open>Connecting and disconnecting\<close>

text \<open>The locked part of \<open>kill_streams_and_channel\<close>.\<close>

definition kill_begin ::
    "('ret, 'st) stream_rest \<Rightarrow> ('chan, 'reader, 'cb) grpc_client
      \<Rightarrow> client_error + (('chan, 'reader, 'cb) grpc_client \<times> ('ret, 'st, 'cb) client_effect list)" where
  "kill_begin rest c =
     (case use_shared (\<lambda>d. case stopping rest d of
                             Inl e \<Rightarrow> Inl e
                           | Inr (es, d1) \<Rightarrow> Inr (es, d1\<lparr>stub := None, channel := None\<rparr>)) c of
        Inl e \<Rightarrow> Inl e
      | Inr (es, c1) \<Rightarrow> Inr (c1, map (\<lambda>(p, e). FromStream p e) es))"

text \<open>
  The rest of it: the queue is shut down, and the thread takes the turns for what the queue still
  owes before \<open>Next\<close> returns false. The channel is gone by then, so the answer of \<open>GetState\<close> and the
  flag do not matter.
\<close>

fun drain_queue ::
    "nat \<Rightarrow> ('ret, 'st) stream_rest \<Rightarrow> ('chan, 'reader, 'cb) grpc_client
      \<Rightarrow> client_error + (('chan, 'reader, 'cb) grpc_client \<times> ('ret, 'st, 'cb) client_effect list)" where
  "drain_queue 0 rest c = Inr (c, [])"
| "drain_queue (Suc n) rest c =
     (case run_turn Shutdown False rest c of
        Inl e \<Rightarrow> Inl e
      | Inr (c1, es) \<Rightarrow>
          (case drain_queue n rest c1 of
             Inl e \<Rightarrow> Inl e
           | Inr (c2, fs) \<Rightarrow> Inr (c2, es @ fs)))"

definition kill_finish ::
    "('ret, 'st) stream_rest \<Rightarrow> ('chan, 'reader, 'cb) grpc_client
      \<Rightarrow> client_error + (('chan, 'reader, 'cb) grpc_client \<times> ('ret, 'st, 'cb) client_effect list)" where
  "kill_finish rest c =
     (let c1 = c\<lparr>event_queue := map_option (queue_shut_update (\<lambda>_. True)) (event_queue c)\<rparr>
      in if joinable (follow_thread c1) then
           (case drain_queue (case event_queue c1 of None \<Rightarrow> 0 | Some q \<Rightarrow> owed q) rest c1 of
              Inl e \<Rightarrow> Inl e
            | Inr (c2, es) \<Rightarrow> Inr (c2\<lparr>follow_thread := Joined\<rparr>, es))
         else Inr (c1, []))"

definition kill_streams_and_channel ::
    "('ret, 'st) stream_rest \<Rightarrow> ('chan, 'reader, 'cb) grpc_client
      \<Rightarrow> client_error + (('chan, 'reader, 'cb) grpc_client \<times> ('ret, 'st, 'cb) client_effect list)" where
  "kill_streams_and_channel rest c =
     (case kill_begin rest c of
        Inl e \<Rightarrow> Inl e
      | Inr (c1, es) \<Rightarrow>
          (case kill_finish rest c1 of
             Inl e \<Rightarrow> Inl e
           | Inr (c2, fs) \<Rightarrow> Inr (c2, es @ fs)))"

definition destroy_grpc_client ::
    "('ret, 'st) stream_rest \<Rightarrow> ('chan, 'reader, 'cb) grpc_client
      \<Rightarrow> client_error + (('chan, 'reader, 'cb) grpc_client \<times> ('ret, 'st, 'cb) client_effect list)" where
  "destroy_grpc_client rest c = kill_streams_and_channel rest c"

text \<open>The locked part of \<open>change_server\<close> for an address: the channel and its stub, and the first state.\<close>

definition connect_body ::
    "'chan \<Rightarrow> connectivity \<Rightarrow> ('chan, 'reader, 'cb) shared_data
      \<Rightarrow> client_error + (grpc_client_state option \<times> ('chan, 'reader, 'cb) shared_data)" where
  "connect_body new_channel new_state d =
     (let d1 = d\<lparr>channel := Some new_channel, stub := Some new_channel\<rparr>;
          cnc_client_state = to_cnc_client_state new_state;
          state_changed = (cnc_client_state \<noteq> to_cnc_client_state (connection_state d1))
      in Inr (if state_changed then Some cnc_client_state else None, d1\<lparr>connection_state := new_state\<rparr>))"

definition change_server ::
    "(string \<Rightarrow> channel_arguments \<Rightarrow> 'chan) \<Rightarrow> connectivity \<Rightarrow> ('ret, 'st) stream_rest \<Rightarrow> string \<Rightarrow> 'cb
      \<Rightarrow> ('chan, 'reader, 'cb) grpc_client
      \<Rightarrow> client_error + (('chan, 'reader, 'cb) grpc_client \<times> ('ret, 'st, 'cb) client_effect list)" where
  "change_server create_channel get_state_answer rest address connection_change_callback c =
     (case kill_streams_and_channel rest c of
        Inl e \<Rightarrow> Inl e
      | Inr (c1, es) \<Rightarrow>
          (let c2 = c1\<lparr>using_in_process_server := False, server_address := address,
                       event_queue := Some \<lparr>queue_shut = False, owed = 0\<rparr>\<rparr>
           in case use_shared (connect_body (create_channel address default_channel_arguments) get_state_answer) c2 of
                Inl e \<Rightarrow> Inl e
              | Inr (changed, c3) \<Rightarrow>
                  if joinable (follow_thread c3) then Inl Terminate
                  else Inr (c3\<lparr>event_queue := map_option (notify_on_state_change True) (event_queue c3),
                              follow_thread := Running, change_callback := Some connection_change_callback\<rparr>,
                            es @ report (Some connection_change_callback) changed)))"

definition in_process_body ::
    "'chan \<Rightarrow> ('chan, 'reader, 'cb) shared_data \<Rightarrow> client_error + (unit \<times> ('chan, 'reader, 'cb) shared_data)" where
  "in_process_body in_process_channel d =
     Inr ((), d\<lparr>channel := Some in_process_channel, stub := Some in_process_channel, connection_state := Ready\<rparr>)"

definition change_server_in_process ::
    "('ret, 'st) stream_rest \<Rightarrow> 'chan \<Rightarrow> ('chan, 'reader, 'cb) grpc_client
      \<Rightarrow> client_error + (('chan, 'reader, 'cb) grpc_client \<times> ('ret, 'st, 'cb) client_effect list)" where
  "change_server_in_process rest in_process_channel c =
     (case kill_streams_and_channel rest c of
        Inl e \<Rightarrow> Inl e
      | Inr (c1, es) \<Rightarrow>
          (case use_shared (in_process_body in_process_channel)
                  (c1\<lparr>using_in_process_server := True, server_address := ''In-Process''\<rparr>) of
             Inl e \<Rightarrow> Inl e
           | Inr (_, c2) \<Rightarrow> Inr (c2, es)))"

section \<open>Streams, state and stub\<close>

definition register_body ::
    "(ptr list \<Rightarrow> ptr) \<Rightarrow> ('chan \<Rightarrow> 'reader) \<Rightarrow> ('chan, 'reader, 'cb) shared_data
      \<Rightarrow> client_error + (ptr \<times> ('chan, 'reader, 'cb) shared_data)" where
  "register_body new f d =
     (let stream = new_client_stream f; key = new (um_keys (streams d))
      in case (if channel d \<noteq> None \<and> connection_state d = Ready then
                 (case stub d of None \<Rightarrow> Inl NullStub | Some st \<Rightarrow> start_stream st stream)
               else Inr stream) of
           Inl e \<Rightarrow> Inl e
         | Inr s' \<Rightarrow> Inr (key, d\<lparr>streams := um_emplace key s' (streams d)\<rparr>))"

definition register_stream ::
    "(ptr list \<Rightarrow> ptr) \<Rightarrow> ('chan \<Rightarrow> 'reader) \<Rightarrow> ('chan, 'reader, 'cb) grpc_client
      \<Rightarrow> client_error + (ptr \<times> ('chan, 'reader, 'cb) grpc_client)" where
  "register_stream new f c = use_shared (register_body new f) c"

definition on_stream_update :: "ptr \<Rightarrow> 'cb \<Rightarrow> ('chan, 'reader, 'cb) grpc_client \<Rightarrow> ('chan, 'reader, 'cb) grpc_client" where
  "on_stream_update key cb c =
     c\<lparr>shared_of := snd (use_safely (\<lambda>d. ((), d\<lparr>streams := um_adjust (on_update cb) key (streams d)\<rparr>)) (shared_of c))\<rparr>"

definition on_stream_finish :: "ptr \<Rightarrow> 'cb \<Rightarrow> ('chan, 'reader, 'cb) grpc_client \<Rightarrow> ('chan, 'reader, 'cb) grpc_client" where
  "on_stream_finish key cb c =
     c\<lparr>shared_of := snd (use_safely (\<lambda>d. ((), d\<lparr>streams := um_adjust (on_finish cb) key (streams d)\<rparr>)) (shared_of c))\<rparr>"

text \<open>The setter returned by \<open>register_stream\<close> holds the client and the key.\<close>

definition callback_setter_on_update :: "ptr \<Rightarrow> 'cb \<Rightarrow> ('chan, 'reader, 'cb) grpc_client \<Rightarrow> ('chan, 'reader, 'cb) grpc_client" where
  "callback_setter_on_update stream cb client = on_stream_update stream cb client"

definition callback_setter_on_finish :: "ptr \<Rightarrow> 'cb \<Rightarrow> ('chan, 'reader, 'cb) grpc_client \<Rightarrow> ('chan, 'reader, 'cb) grpc_client" where
  "callback_setter_on_finish stream cb client = on_stream_finish stream cb client"

definition get_server_address :: "('chan, 'reader, 'cb) grpc_client \<Rightarrow> string" where
  "get_server_address c = server_address c"

definition get_state :: "('chan, 'reader, 'cb) grpc_client \<Rightarrow> grpc_client_state" where
  "get_state c = to_cnc_client_state (fst (use_safely (\<lambda>d. (connection_state d, d)) (shared_of c)))"

definition is_using_in_process_server :: "('chan, 'reader, 'cb) grpc_client \<Rightarrow> bool" where
  "is_using_in_process_server c = using_in_process_server c"

text \<open>\<open>usage_func\<close> is run on the stub; \<open>None\<close>: it was not invoked and the result is false.\<close>

definition use_stub :: "('chan \<Rightarrow> 'r) \<Rightarrow> ('chan, 'reader, 'cb) grpc_client \<Rightarrow> client_error + 'r option" where
  "use_stub usage_func c =
     fst (use_safely
       (\<lambda>d. (if connection_state d = Ready then
               (case stub d of None \<Rightarrow> Inl NullStub | Some st \<Rightarrow> Inr (Some (usage_func st)))
             else Inr None, d)) (shared_of c))"

end
