(* ===== verification/Grpc_Client_Safety.thy ===== *)
theory Grpc_Client_Safety
  imports Grpc_Client
begin

text \<open>
  What holds in every state a client can get into: its invariant, that no operation ends the program,
  and how the connection callback and the streams follow the state of the channel. The machine has
  the client's operations, the turns of its thread and streams that end by themselves, each as one
  step; \<open>kill_begin\<close> is looked at on its own for what other threads see in between.
\<close>

section \<open>Invariant and reachable clients\<close>

abbreviation stream_objects :: "('chan, 'reader, 'cb) grpc_client \<Rightarrow> ('chan, 'reader, 'cb) client_stream set" where
  "stream_objects c \<equiv> snd ` set (streams (sd c))"

definition any_streaming :: "('chan, 'reader, 'cb) grpc_client \<Rightarrow> bool" where
  "any_streaming c \<longleftrightarrow> (\<exists>s \<in> stream_objects c. streaming s)"

definition streams_inv :: "('chan, 'reader, 'cb) shared_data \<Rightarrow> bool" where
  "streams_inv d \<longleftrightarrow> stub d = channel d \<and> um_ok (streams d) \<and> (\<forall>s \<in> snd ` set (streams d). stream_ok s)
     \<and> (\<forall>s \<in> snd ` set (streams d). streaming s \<longrightarrow> channel d \<noteq> None \<and> connection_state d = Ready)"

definition client_inv :: "('chan, 'reader, 'cb) grpc_client \<Rightarrow> bool" where
  "client_inv c \<longleftrightarrow> streams_inv (sd c)
     \<and> (follow_thread c = Running \<longleftrightarrow> channel (sd c) \<noteq> None \<and> \<not> using_in_process_server c)
     \<and> follow_thread c \<noteq> Returned
     \<and> (follow_thread c = Running \<longrightarrow> event_queue c = Some \<lparr>queue_shut = False, owed = 1\<rparr> \<and> change_callback c \<noteq> None)
     \<and> (if using_in_process_server c then connection_state (sd c) = Ready
        else channel (sd c) = None \<longrightarrow> to_cnc_client_state (connection_state (sd c)) = NotConnected)"

fun reports :: "('ret, 'st, 'cb) client_effect list \<Rightarrow> grpc_client_state list" where
  "reports [] = []"
| "reports (ConnectionChange cb st # es) = st # reports es"
| "reports (FromStream p e # es) = reports es"

lemma reports_append [simp]: "reports (es @ fs) = reports es @ reports fs"
  by (induction es rule: reports.induct) auto

lemma reports_streams [simp]: "reports (map (\<lambda>(p, e). FromStream p e) es) = []"
  by (induction es) auto

lemma reports_report [simp]: "reports (report (Some cb) changed) = (case changed of None \<Rightarrow> [] | Some st \<Rightarrow> [st])"
  by (simp add: report_def split: option.splits)

section \<open>The locked bodies\<close>

lemma starting_ok:
  assumes "streams_inv d" and "channel d \<noteq> None" and "connection_state d = Ready"
  shows "\<exists>m. starting d = Inr (d\<lparr>streams := m\<rparr>) \<and> streams_inv (d\<lparr>streams := m\<rparr>) \<and> um_keys m = um_keys (streams d)
     \<and> (\<forall>s \<in> snd ` set m. streaming s)"
proof -
  obtain st where st: "stub d = Some st" using assms by (auto simp: streams_inv_def)
  from assms(1) have "\<forall>s \<in> snd ` set (streams d). stream_ok s" by (simp add: streams_inv_def)
  from client_streams.start_all_ok [OF this, of st] obtain m where
    "start_all (start_stream st) (streams d) = Inr m" "um_keys m = um_keys (streams d)"
    "\<forall>s \<in> snd ` set m. stream_ok s \<and> streaming s"
    by blast
  with assms st show ?thesis by (auto simp: starting_def streams_inv_def um_ok_def)
qed

lemma stopping_ok:
  fixes rest :: "('ret, 'st) stream_rest"
  assumes "\<forall>s \<in> snd ` set (streams d). stream_ok s" and "um_ok (streams d)"
  shows "\<exists>es m. stopping rest d = Inr (es, d\<lparr>streams := m\<rparr>) \<and> um_ok m \<and> um_keys m = um_keys (streams d)
     \<and> (\<forall>s \<in> snd ` set m. stream_ok s \<and> \<not> streaming s)"
proof -
  from client_streams.stop_all_ok [OF assms(1), of rest] obtain m es where
    "stop_all (\<lambda>p. case rest p of (us, st) \<Rightarrow> stop_stream us st) (streams d) = Inr (m, es)"
    "um_keys m = um_keys (streams d)" "\<forall>s \<in> snd ` set m. stream_ok s \<and> \<not> streaming s"
    by blast
  with assms(2) show ?thesis by (auto simp: stopping_def um_ok_def)
qed

text \<open>A turn of the thread while the channel exists.\<close>

lemma follow_connected:
  fixes rest :: "('ret, 'st) stream_rest"
  assumes "streams_inv d" and "channel d \<noteq> None"
  shows "\<exists>es d'. follow_body answer ok rest d =
       Inr ((if ok \<and> to_cnc_client_state answer \<noteq> to_cnc_client_state (connection_state d)
             then Some (to_cnc_client_state answer) else None, True, es), d')
     \<and> streams_inv d' \<and> channel d' = channel d \<and> connection_state d' = (if ok then answer else connection_state d)
     \<and> um_keys (streams d') = um_keys (streams d)
     \<and> (ok \<and> to_cnc_client_state answer \<noteq> to_cnc_client_state (connection_state d) \<longrightarrow>
         (\<forall>s \<in> snd ` set (streams d'). streaming s = (answer = Ready)))"
proof (cases "ok \<and> to_cnc_client_state answer \<noteq> to_cnc_client_state (connection_state d)")
  case False
  have "streams_inv (d\<lparr>connection_state := answer\<rparr>)" if ok
    using assms(1) False that connected_iff_ready [of answer] connected_iff_ready [of "connection_state d"]
    by (auto simp: streams_inv_def)
  with False assms show ?thesis by (auto simp: follow_body_def Let_def)
next
  case True
  let ?d = "d\<lparr>connection_state := answer\<rparr>"
  show ?thesis
  proof (cases "answer = Ready")
    case ready: True
    with True assms have "streams_inv ?d" by (auto simp: streams_inv_def)
    from starting_ok [OF this] assms(2) True ready show ?thesis
      by (auto simp: follow_body_def)
  next
    case False
    from assms(1) obtain es m where
      "stopping rest ?d = Inr (es, ?d\<lparr>streams := m\<rparr>)" "um_ok m" "um_keys m = um_keys (streams d)"
      "\<forall>s \<in> snd ` set m. stream_ok s \<and> \<not> streaming s"
      using stopping_ok [of ?d rest] by (auto simp: streams_inv_def)
    with assms True False show ?thesis
      by (auto simp: follow_body_def streams_inv_def)
  qed
qed

text \<open>A turn after the channel is gone.\<close>

lemma follow_disconnected:
  assumes "channel d = None"
  shows "follow_body answer ok rest d =
     (if to_cnc_client_state (connection_state d) = NotConnected then Inr ((None, False, []), d)
      else Inr ((Some NotConnected, False, []), d\<lparr>connection_state := Shutdown\<rparr>))"
  using assms by (simp add: follow_body_def)

section \<open>Disconnecting\<close>

definition with_shared ::
    "(('chan, 'reader, 'cb) shared_data \<Rightarrow> ('chan, 'reader, 'cb) shared_data)
      \<Rightarrow> ('chan, 'reader, 'cb) grpc_client \<Rightarrow> ('chan, 'reader, 'cb) grpc_client" where
  "with_shared f c = c\<lparr>shared_of := (shared_of c)\<lparr>data := f (sd c)\<rparr>\<rparr>"

lemma with_shared_simps [simp]:
  "sd (with_shared f c) = f (sd c)" "using_in_process_server (with_shared f c) = using_in_process_server c"
  "server_address (with_shared f c) = server_address c" "event_queue (with_shared f c) = event_queue c"
  "follow_thread (with_shared f c) = follow_thread c" "change_callback (with_shared f c) = change_callback c"
  by (simp_all add: with_shared_def)

lemma kill_begin_ok:
  fixes rest :: "('ret, 'st) stream_rest"
  assumes "client_inv c"
  shows "\<exists>m (es :: ('ret, 'st, 'cb) client_effect list).
     kill_begin rest c = Inr (with_shared (\<lambda>d. d\<lparr>streams := m, stub := None, channel := None\<rparr>) c, es)
     \<and> reports es = [] \<and> um_ok m \<and> um_keys m = um_keys (streams (sd c))
     \<and> (\<forall>s \<in> snd ` set m. stream_ok s \<and> \<not> streaming s)"
proof -
  from assms have "\<forall>s \<in> stream_objects c. stream_ok s" "um_ok (streams (sd c))"
    by (auto simp: client_inv_def streams_inv_def)
  from stopping_ok [OF this, of rest] show ?thesis
    by (auto simp: kill_begin_def use_shared_simp with_shared_def)
qed

lemma kill_finish_ok:
  fixes rest :: "('ret, 'st) stream_rest"
  assumes gone: "channel (sd c) = None" and ret: "follow_thread c \<noteq> Returned"
    and run: "follow_thread c = Running \<Longrightarrow> event_queue c = Some \<lparr>queue_shut = False, owed = 1\<rparr> \<and> change_callback c = Some cb"
  shows "\<exists>q. kill_finish rest c =
     (if follow_thread c = Running \<and> to_cnc_client_state (connection_state (sd c)) \<noteq> NotConnected
      then Inr ((with_shared (connection_state_update (\<lambda>_. Shutdown)) c)\<lparr>event_queue := q, follow_thread := Joined\<rparr>,
                [ConnectionChange cb NotConnected])
      else Inr (c\<lparr>event_queue := q, follow_thread := (if follow_thread c = Running then Joined else follow_thread c)\<rparr>,
                [] :: ('ret, 'st, 'cb) client_effect list))"
proof (cases "follow_thread c = Running")
  case True
  with gone run show ?thesis
    by (auto simp: kill_finish_def run_turn_def use_shared_simp follow_disconnected with_shared_def report_def
        take_notification_def notify_on_state_change_def numeral_eq_Suc)
next
  case False
  with ret have "\<not> joinable (follow_thread c)" by (cases "follow_thread c") simp_all
  with False show ?thesis by (auto simp: kill_finish_def)
qed

text \<open>
  The whole of \<open>kill_streams_and_channel\<close>: what it leaves, and what it reports.
\<close>

lemma kill_ok:
  fixes rest :: "('ret, 'st) stream_rest"
  assumes inv: "client_inv c"
  obtains c' and es :: "('ret, 'st, 'cb) client_effect list"
  where "kill_streams_and_channel rest c = Inr (c', es)" and "client_inv c'"
    and "channel (sd c') = None" and "\<forall>s \<in> stream_objects c'. stream_ok s \<and> \<not> streaming s"
    and "um_keys (streams (sd c')) = um_keys (streams (sd c))"
    and "using_in_process_server c' = using_in_process_server c" and "\<not> joinable (follow_thread c')"
    and "reports es = (if \<not> using_in_process_server c \<and> get_state c \<noteq> NotConnected then [NotConnected] else [])"
    and "get_state c' = (if using_in_process_server c then Connected else NotConnected)"
proof -
  from kill_begin_ok [OF inv, of rest] obtain m and es :: "('ret, 'st, 'cb) client_effect list" where
    k: "kill_begin rest c = Inr (with_shared (\<lambda>d. d\<lparr>streams := m, stub := None, channel := None\<rparr>) c, es)"
      "reports es = []" "um_ok m" "um_keys m = um_keys (streams (sd c))" "\<forall>s \<in> snd ` set m. stream_ok s \<and> \<not> streaming s"
    by blast
  let ?c = "with_shared (\<lambda>d. d\<lparr>streams := m, stub := None, channel := None\<rparr>) c"
  obtain cb where cb: "follow_thread ?c = Running \<Longrightarrow>
      event_queue ?c = Some \<lparr>queue_shut = False, owed = 1\<rparr> \<and> change_callback ?c = Some cb"
    using inv by (auto simp: client_inv_def)
  have gone: "channel (sd ?c) = None" by simp
  have ret: "follow_thread c \<noteq> Returned" using inv by (simp add: client_inv_def)
  then have "follow_thread ?c \<noteq> Returned" by simp
  from kill_finish_ok [OF gone this cb, of rest] obtain q where fin: "kill_finish rest ?c =
     (if follow_thread ?c = Running \<and> to_cnc_client_state (connection_state (sd ?c)) \<noteq> NotConnected
      then Inr ((with_shared (connection_state_update (\<lambda>_. Shutdown)) ?c)\<lparr>event_queue := q, follow_thread := Joined\<rparr>,
                [ConnectionChange cb NotConnected])
      else Inr (?c\<lparr>event_queue := q, follow_thread := (if follow_thread ?c = Running then Joined else follow_thread ?c)\<rparr>,
                [] :: ('ret, 'st, 'cb) client_effect list))"
    by blast
  show ?thesis
  proof (cases "follow_thread c = Running \<and> to_cnc_client_state (connection_state (sd c)) \<noteq> NotConnected")
    case True
    let ?c' = "(with_shared (connection_state_update (\<lambda>_. Shutdown)) ?c)\<lparr>event_queue := q, follow_thread := Joined\<rparr>"
    show ?thesis
      by (rule that [of ?c' "es @ [ConnectionChange cb NotConnected]"])
        (use True k fin inv in \<open>auto simp: kill_streams_and_channel_def client_inv_def streams_inv_def
            get_state_def use_safely_def with_shared_def\<close>)
  next
    case False
    let ?c' = "?c\<lparr>event_queue := q, follow_thread := (if follow_thread ?c = Running then Joined else follow_thread ?c)\<rparr>"
    have j: "\<not> joinable (follow_thread ?c')"
      using ret by (cases "follow_thread c") simp_all
    show ?thesis
      by (rule that [of ?c' es])
        (use False k fin inv j in \<open>auto simp: kill_streams_and_channel_def client_inv_def streams_inv_def
            get_state_def use_safely_def with_shared_def\<close>)
  qed
qed

section \<open>Steps\<close>

datatype ('chan, 'reader, 'ret, 'st, 'cb) client_event =
    EvChangeServer "string \<Rightarrow> channel_arguments \<Rightarrow> 'chan" connectivity "('ret, 'st) stream_rest" string 'cb
  | EvInProcess "('ret, 'st) stream_rest" 'chan
  | EvKill "('ret, 'st) stream_rest"
  | EvRegister "ptr list \<Rightarrow> ptr" "'chan \<Rightarrow> 'reader"
  | EvStreamUpdate ptr 'cb
  | EvStreamFinish ptr 'cb
  | EvTurn connectivity bool "('ret, 'st) stream_rest"
  | EvStreamEnds ptr "'ret list" 'st

definition stream_ends_by_itself ::
    "'ret list \<Rightarrow> 'st \<Rightarrow> ('chan, 'reader, 'cb) client_stream \<Rightarrow> ('chan, 'reader, 'cb) client_stream" where
  "stream_ends_by_itself updates status s =
     (if stream_thread s = Running
      then fst (run_stream_thread updates status s ::
             ('chan, 'reader, 'cb) client_stream \<times> ('ret, 'st, 'cb) client_stream_effect list)
      else s)"

fun client_step ::
    "('chan, 'reader, 'ret, 'st, 'cb) client_event \<Rightarrow> ('chan, 'reader, 'cb) grpc_client
      \<Rightarrow> client_error + (('chan, 'reader, 'cb) grpc_client \<times> ('ret, 'st, 'cb) client_effect list)" where
  "client_step (EvChangeServer create answer rest address cb) c = change_server create answer rest address cb c"
| "client_step (EvInProcess rest chan) c = change_server_in_process rest chan c"
| "client_step (EvKill rest) c = kill_streams_and_channel rest c"
| "client_step (EvRegister new f) c = map_sum id (\<lambda>(key, c'). (c', [])) (register_stream new f c)"
| "client_step (EvStreamUpdate key cb) c = Inr (callback_setter_on_update key cb c, [])"
| "client_step (EvStreamFinish key cb) c = Inr (callback_setter_on_finish key cb c, [])"
| "client_step (EvTurn answer ok rest) c = run_turn answer ok rest c"
| "client_step (EvStreamEnds key updates status) c =
     Inr (with_shared (\<lambda>d. d\<lparr>streams := um_adjust (stream_ends_by_itself updates status) key (streams d)\<rparr>) c, [])"

fun client_allowed :: "('chan, 'reader, 'ret, 'st, 'cb) client_event \<Rightarrow> ('chan, 'reader, 'cb) grpc_client \<Rightarrow> bool" where
  "client_allowed (EvTurn answer ok rest) c = (follow_thread c = Running)"
| "client_allowed (EvRegister new f) c = operator_new new"
| "client_allowed ev c = True"

fun is_in_process :: "('chan, 'reader, 'ret, 'st, 'cb) client_event \<Rightarrow> bool" where
  "is_in_process (EvInProcess rest chan) = True"
| "is_in_process ev = False"

text \<open>\<open>used\<close>: an in-process channel has been set at some time.\<close>

inductive client_reachable ::
    "bool \<Rightarrow> ('ret, 'st, 'cb) client_effect list \<Rightarrow> ('chan, 'reader, 'cb) grpc_client \<Rightarrow> bool" where
  client_init: "client_reachable False [] new_grpc_client"
| client_next: "client_reachable used tr c \<Longrightarrow> client_allowed ev c \<Longrightarrow> client_step ev c = Inr (c', es) \<Longrightarrow>
    client_reachable (used \<or> is_in_process ev) (tr @ es) c'"

definition follows :: "grpc_client_state \<Rightarrow> grpc_client_state list \<Rightarrow> grpc_client_state \<Rightarrow> bool" where
  "follows a rs b \<longleftrightarrow> last (a # rs) = b \<and> distinct_adj (a # rs)"

lemma follows_simps [simp]:
  "follows a [] b \<longleftrightarrow> a = b" "follows a [x] b \<longleftrightarrow> x = b \<and> a \<noteq> x"
  by (auto simp: follows_def)

lemma follows_append: "follows a rs b \<Longrightarrow> follows b qs c \<Longrightarrow> follows a (rs @ qs) c"
  unfolding follows_def
  by (induction rs arbitrary: a) (auto simp: distinct_adj_Cons hd_append split: if_splits)

lemma get_state_simp: "get_state c = to_cnc_client_state (connection_state (sd c))"
  by (simp add: get_state_def use_safely_def)

text \<open>What one step must keep.\<close>

definition step_keeps ::
    "bool \<Rightarrow> ('chan, 'reader, 'cb) grpc_client \<Rightarrow> ('ret, 'st, 'cb) client_effect list \<Rightarrow> ('chan, 'reader, 'cb) grpc_client \<Rightarrow> bool" where
  "step_keeps in_process c es c' \<longleftrightarrow> client_inv c'
     \<and> (\<not> in_process \<and> \<not> using_in_process_server c \<longrightarrow>
         \<not> using_in_process_server c' \<and> follows (get_state c) (reports es) (get_state c'))"

lemma kill_keeps:
  fixes rest :: "('ret, 'st) stream_rest"
  assumes "client_inv c"
  shows "\<exists>c' (es :: ('ret, 'st, 'cb) client_effect list).
    kill_streams_and_channel rest c = Inr (c', es) \<and> step_keeps False c es c'"
  by (rule kill_ok [OF assms, of rest]) (auto simp: step_keeps_def)

lemma change_server_keeps:
  fixes rest :: "('ret, 'st) stream_rest"
  assumes "client_inv c"
  shows "\<exists>c' (es :: ('ret, 'st, 'cb) client_effect list).
    change_server create answer rest address cb c = Inr (c', es) \<and> step_keeps False c es c'
      \<and> channel (sd c') = Some (create address default_channel_arguments) \<and> follow_thread c' = Running
      \<and> connection_state (sd c') = answer \<and> \<not> any_streaming c' \<and> \<not> using_in_process_server c'
      \<and> reports es = (if \<not> using_in_process_server c \<and> get_state c \<noteq> NotConnected then [NotConnected] else [])
          @ (if to_cnc_client_state answer \<noteq> (if using_in_process_server c then Connected else NotConnected)
             then [to_cnc_client_state answer] else [])"
proof (rule kill_ok [OF assms, of rest])
  fix c1 and es1 :: "('ret, 'st, 'cb) client_effect list"
  assume k: "kill_streams_and_channel rest c = Inr (c1, es1)" "client_inv c1" "channel (sd c1) = None"
    "\<forall>s \<in> stream_objects c1. stream_ok s \<and> \<not> streaming s" "\<not> joinable (follow_thread c1)"
    "using_in_process_server c1 = using_in_process_server c"
    "reports es1 = (if \<not> using_in_process_server c \<and> get_state c \<noteq> NotConnected then [NotConnected] else [])"
    "get_state c1 = (if using_in_process_server c then Connected else NotConnected)"
  let ?chan = "create address default_channel_arguments"
  let ?c2 = "(with_shared (\<lambda>d. d\<lparr>channel := Some ?chan, stub := Some ?chan, connection_state := answer\<rparr>) c1)
     \<lparr>using_in_process_server := False, server_address := address, event_queue := Some \<lparr>queue_shut = False, owed = 1\<rparr>,
      follow_thread := Running, change_callback := Some cb\<rparr>"
  let ?es2 = "report (Some cb) (if to_cnc_client_state answer \<noteq> get_state c1 then Some (to_cnc_client_state answer) else None)
     :: ('ret, 'st, 'cb) client_effect list"
  have "change_server create answer rest address cb c = Inr (?c2, es1 @ ?es2)"
    using k by (simp add: change_server_def use_shared_simp connect_body_def with_shared_def get_state_simp
        notify_on_state_change_def Let_def)
  moreover have "client_inv ?c2" using k by (auto simp: client_inv_def streams_inv_def with_shared_def)
  moreover have "follows (get_state c) (reports (es1 @ ?es2)) (get_state ?c2)" if "\<not> using_in_process_server c"
  proof -
    have "follows (get_state c1) (reports ?es2) (get_state ?c2)" by (simp add: get_state_simp with_shared_def)
    moreover have "follows (get_state c) (reports es1) (get_state c1)" using that k by simp
    ultimately show ?thesis by (simp add: follows_append)
  qed
  ultimately show ?thesis using k by (auto simp: step_keeps_def any_streaming_def with_shared_def)
qed

lemma in_process_keeps:
  fixes rest :: "('ret, 'st) stream_rest"
  assumes "client_inv c"
  shows "\<exists>c' (es :: ('ret, 'st, 'cb) client_effect list).
    change_server_in_process rest chan c = Inr (c', es) \<and> step_keeps True c es c'
      \<and> get_state c' = Connected \<and> stub (sd c') = Some chan \<and> \<not> any_streaming c' \<and> using_in_process_server c'
      \<and> reports es = (if \<not> using_in_process_server c \<and> get_state c \<noteq> NotConnected then [NotConnected] else [])"
proof (rule kill_ok [OF assms, of rest])
  fix c1 and es1 :: "('ret, 'st, 'cb) client_effect list"
  assume k: "kill_streams_and_channel rest c = Inr (c1, es1)" "client_inv c1" "channel (sd c1) = None"
    "\<forall>s \<in> stream_objects c1. stream_ok s \<and> \<not> streaming s" "\<not> joinable (follow_thread c1)"
    "reports es1 = (if \<not> using_in_process_server c \<and> get_state c \<noteq> NotConnected then [NotConnected] else [])"
  then show ?thesis
    by (cases "follow_thread c1")
      (auto simp: change_server_in_process_def use_shared_simp in_process_body_def step_keeps_def client_inv_def
        streams_inv_def get_state_simp any_streaming_def)
qed

lemma register_keeps:
  assumes "client_inv c" and "operator_new new"
  shows "\<exists>key c'. register_stream new f c = Inr (key, c') \<and> client_inv c' \<and> get_state c' = get_state c
     \<and> using_in_process_server c' = using_in_process_server c
     \<and> (\<exists>s. map_of (streams (sd c')) key = Some s
          \<and> streaming s = (channel (sd c) \<noteq> None \<and> connection_state (sd c) = Ready) \<and> init_func s = f)"
proof -
  let ?d = "sd c" and ?s = "new_client_stream f :: ('a, 'b, 'c) client_stream"
  have ok: "stream_ok ?s" "\<not> streaming ?s" "init_func ?s = f"
    by (simp_all add: new_client_stream_def stream_ok_def streaming_def)
  have fresh: "new (um_keys (streams ?d)) \<notin> set (um_keys (streams ?d))"
    using assms(2) by (simp add: operator_new_def)
  obtain s where s: "(if channel ?d \<noteq> None \<and> connection_state ?d = Ready then
                 (case stub ?d of None \<Rightarrow> Inl NullStub | Some st \<Rightarrow> start_stream st ?s) else Inr ?s) = Inr s"
    "stream_ok s" "streaming s = (channel ?d \<noteq> None \<and> connection_state ?d = Ready)" "init_func s = f"
  proof (cases "channel ?d \<noteq> None \<and> connection_state ?d = Ready")
    case True
    then obtain st where "stub ?d = Some st" using assms(1) by (auto simp: client_inv_def streams_inv_def)
    moreover from start_stream_ok [OF ok(1), of st] obtain s where "start_stream st ?s = Inr s" "stream_ok s" "streaming s"
      by blast
    moreover from this(1) have "init_func s = f" using ok by (auto simp: start_stream_def split: if_splits)
    ultimately show ?thesis using True by (intro that) auto
  qed (use that ok in auto)
  have "streams_inv (?d\<lparr>streams := um_emplace (new (um_keys (streams ?d))) s (streams ?d)\<rparr>)"
    using assms(1) s fresh by (auto simp: client_inv_def streams_inv_def um_emplace_def um_ok_def)
  with assms(1) s fresh show ?thesis
    by (auto simp: register_stream_def register_body_def use_shared_simp Let_def client_inv_def get_state_simp
        map_of_um_emplace)
qed

lemma adjust_keeps:
  assumes "client_inv c" and "\<And>s. stream_ok s \<Longrightarrow> stream_ok (f s) \<and> streaming (f s) = streaming s"
  shows "step_keeps b c [] (with_shared (\<lambda>d. d\<lparr>streams := um_adjust f key (streams d)\<rparr>) c)"
proof -
  let ?m = "um_adjust f key (streams (sd c))"
  have objs: "\<exists>s \<in> stream_objects c. t = s \<or> t = f s" if "t \<in> snd ` set ?m" for t
    using that by (force simp: um_adjust_def)
  have inv: "streams_inv (sd c)" using assms(1) by (simp add: client_inv_def)
  have "stream_ok t \<and> (streaming t \<longrightarrow> channel (sd c) \<noteq> None \<and> connection_state (sd c) = Ready)"
    if "t \<in> snd ` set ?m" for t
    using objs [OF that] inv assms(2) unfolding streams_inv_def by metis
  with inv have "streams_inv ((sd c)\<lparr>streams := ?m\<rparr>)" by (simp add: streams_inv_def um_ok_def)
  with assms(1) show ?thesis by (auto simp: step_keeps_def client_inv_def get_state_simp)
qed

lemma run_turn_keeps:
  fixes rest :: "('ret, 'st) stream_rest"
  assumes "client_inv c" and "follow_thread c = Running"
  shows "\<exists>c' (es :: ('ret, 'st, 'cb) client_effect list). run_turn answer ok rest c = Inr (c', es) \<and> step_keeps False c es c'
    \<and> get_state c' = (if ok then to_cnc_client_state answer else get_state c)
    \<and> reports es = (if get_state c' \<noteq> get_state c then [get_state c'] else [])
    \<and> um_keys (streams (sd c')) = um_keys (streams (sd c))
    \<and> (get_state c' \<noteq> get_state c \<longrightarrow> (\<forall>s \<in> stream_objects c'. streaming s = (get_state c' = Connected)))"
proof -
  from assms have d: "streams_inv (sd c)" "channel (sd c) \<noteq> None" "\<not> using_in_process_server c"
    "event_queue c = Some \<lparr>queue_shut = False, owed = 1\<rparr>"
    by (auto simp: client_inv_def)
  obtain cb where cb: "change_callback c = Some cb" using assms by (auto simp: client_inv_def)
  let ?changed = "if ok \<and> to_cnc_client_state answer \<noteq> to_cnc_client_state (connection_state (sd c))
             then Some (to_cnc_client_state answer) else None"
  from follow_connected [OF d(1,2), of answer ok rest] obtain es d' where
    f: "follow_body answer ok rest (sd c) = Inr ((?changed, True, es), d')"
      "streams_inv d'" "channel d' = channel (sd c)"
      "connection_state d' = (if ok then answer else connection_state (sd c))"
      "um_keys (streams d') = um_keys (streams (sd c))"
      "ok \<and> to_cnc_client_state answer \<noteq> to_cnc_client_state (connection_state (sd c)) \<longrightarrow>
         (\<forall>s \<in> snd ` set (streams d'). streaming s = (answer = Ready))"
    by blast
  let ?c' = "(with_shared (\<lambda>_. d') c)\<lparr>event_queue := Some \<lparr>queue_shut = False, owed = 1\<rparr>\<rparr>"
  have "run_turn answer ok rest c = Inr (?c', map (\<lambda>(p, e). FromStream p e) es @ report (Some cb) ?changed)"
    using d cb f(1) by (auto simp: run_turn_def use_shared_simp with_shared_def take_notification_def notify_on_state_change_def)
  moreover have "client_inv ?c'" using assms f d by (auto simp: client_inv_def)
  ultimately show ?thesis using f d by (auto simp: step_keeps_def get_state_simp)
qed

lemma client_step_keeps:
  fixes c :: "('chan, 'reader, 'cb) grpc_client" and ev :: "('chan, 'reader, 'ret, 'st, 'cb) client_event"
  assumes inv: "client_inv c" and allowed: "client_allowed ev c"
  shows "\<exists>c' (es :: ('ret, 'st, 'cb) client_effect list). client_step ev c = Inr (c', es) \<and> step_keeps (is_in_process ev) c es c'"
proof (cases ev)
  case (EvRegister new f)
  with register_keeps [OF inv, of new f] allowed show ?thesis by (auto simp: step_keeps_def)
next
  case (EvStreamUpdate key cb)
  with adjust_keeps [OF inv, of "on_update cb" False key] show ?thesis
    by (auto simp: callback_setter_on_update_def on_stream_update_def use_safely_def with_shared_def
        on_update_def stream_ok_def streaming_def)
next
  case (EvStreamFinish key cb)
  with adjust_keeps [OF inv, of "on_finish cb" False key] show ?thesis
    by (auto simp: callback_setter_on_finish_def on_stream_finish_def use_safely_def with_shared_def
        on_finish_def stream_ok_def streaming_def)
next
  case (EvStreamEnds key updates status)
  have "stream_ok (stream_ends_by_itself updates status s) \<and> streaming (stream_ends_by_itself updates status s) = streaming s"
    if "stream_ok s" for s :: "('chan, 'reader, 'cb) client_stream"
    using that by (cases "stream_thread s = Running")
      (auto simp: stream_ends_by_itself_def run_stream_thread_fields stream_ok_def streaming_def)
  with EvStreamEnds adjust_keeps [OF inv, of "stream_ends_by_itself updates status" False key] show ?thesis by simp
next
  case (EvTurn answer ok rest)
  with run_turn_keeps [OF inv, of answer ok rest] allowed show ?thesis by auto
qed (use kill_keeps [OF inv] change_server_keeps [OF inv] in_process_keeps [OF inv] in \<open>fastforce+\<close>)

lemma client_reachable_keeps:
  "client_reachable used tr c \<Longrightarrow> client_inv c
     \<and> (\<not> used \<longrightarrow> \<not> using_in_process_server c \<and> follows NotConnected (reports tr) (get_state c))"
proof (induction rule: client_reachable.induct)
  case client_init
  show ?case
    by (simp add: client_inv_def streams_inv_def new_grpc_client_def new_shared_data_def make_atomic_data_def get_state_simp)
next
  case (client_next used tr c ev c' es)
  with client_step_keeps [of c ev] have "step_keeps (is_in_process ev) c es c'" by auto
  with client_next.IH show ?case by (auto simp: step_keeps_def intro: follows_append)
qed

section \<open>Properties\<close>


text \<open>
  A stream runs only while the client has a channel whose state is ready, and channel and
  stub come and go together.
\<close>

theorem client_streams_only_when_connected:
  assumes "client_reachable used tr c"
  shows "(any_streaming c \<longrightarrow> channel (sd c) \<noteq> None \<and> get_state c = Connected) \<and> stub (sd c) = channel (sd c)"
  using client_reachable_keeps [OF assms]
  by (auto simp: client_inv_def streams_inv_def any_streaming_def get_state_simp)

text \<open>
  As long as only servers with an address are used, the connection callbacks tell the whole
  story: two reports in a row never repeat a state, the first is never \<open>not_connected\<close>, and the last
  state reported, or \<open>not_connected\<close> when there was none, is what \<open>get_state\<close> returns.
\<close>

theorem client_callbacks_track_state:
  assumes "client_reachable False tr c"
  shows "get_state c = last (NotConnected # reports tr) \<and> distinct_adj (NotConnected # reports tr)"
  using client_reachable_keeps [OF assms] by (simp add: follows_def)

text \<open>
  One turn of the thread: the callback is called exactly when the state a user sees changes,
  with the new state; and then every registered stream is started if the client is now connected and
  stopped otherwise. A turn that only saw its deadline pass changes nothing.
\<close>

theorem client_turn_follows_channel:
  fixes rest :: "('ret, 'st) stream_rest"
  assumes "client_reachable used (tr :: ('ret, 'st, 'cb) client_effect list) c" and "follow_thread c = Running"
  shows "\<exists>c' (es :: ('ret, 'st, 'cb) client_effect list). run_turn answer ok rest c = Inr (c', es)
    \<and> get_state c' = (if ok then to_cnc_client_state answer else get_state c)
    \<and> reports es = (if get_state c' \<noteq> get_state c then [get_state c'] else [])
    \<and> um_keys (streams (sd c')) = um_keys (streams (sd c))
    \<and> (get_state c' \<noteq> get_state c \<longrightarrow> (\<forall>s \<in> stream_objects c'. streaming s = (get_state c' = Connected)))"
  using run_turn_keeps [OF _ assms(2), of answer ok rest] client_reachable_keeps [OF assms(1)] by blast

text \<open>
  \<open>kill_streams_and_channel\<close> stops every stream but keeps all of them registered, deletes the
  channel, and leaves no thread running. For a server with an address it reports \<open>not_connected\<close> exactly
  once, unless that was the state before, and the state is \<open>not_connected\<close> afterwards.
\<close>

theorem client_kill_disconnects:
  fixes rest :: "('ret, 'st) stream_rest"
  assumes "client_reachable used (tr :: ('ret, 'st, 'cb) client_effect list) c" and "\<not> is_using_in_process_server c"
  shows "\<exists>c' (es :: ('ret, 'st, 'cb) client_effect list). kill_streams_and_channel rest c = Inr (c', es)
    \<and> channel (sd c') = None \<and> \<not> any_streaming c' \<and> um_keys (streams (sd c')) = um_keys (streams (sd c))
    \<and> \<not> joinable (follow_thread c') \<and> get_state c' = NotConnected
    \<and> reports es = (if get_state c \<noteq> NotConnected then [NotConnected] else [])"
proof -
  have "client_inv c" using client_reachable_keeps [OF assms(1)] by simp
  then show ?thesis
    by (rule kill_ok [where rest = rest and thesis = ?thesis])
      (use assms(2) in \<open>auto simp: any_streaming_def is_using_in_process_server_def\<close>)
qed

text \<open>
  With a server that has an address, \<open>use_stub\<close> is safe between operations: it runs the
  function on the stub of the current channel when the client is connected, and otherwise returns false.
\<close>

theorem client_use_stub_safe:
  assumes "client_reachable used tr c" and "\<not> is_using_in_process_server c"
  shows "use_stub f c = Inr (if get_state c = Connected then map_option f (channel (sd c)) else None)
     \<and> (get_state c = Connected \<longrightarrow> channel (sd c) \<noteq> None)"
  using client_reachable_keeps [OF assms(1)] assms(2)
  by (auto simp: use_stub_def use_safely_def get_state_simp client_inv_def streams_inv_def
      is_using_in_process_server_def split: option.splits)

text \<open>
  Claim C31. After an in-process channel has been killed the client still says it is connected, and
  \<open>use_stub\<close> runs the user's function on the null stub: nothing resets the state, as there is no thread
  that follows the channel.
\<close>

theorem client_in_process_kill_leaves_null_stub:
  fixes rest :: "('ret, 'st) stream_rest"
  assumes "client_reachable used (tr :: ('ret, 'st, 'cb) client_effect list) c" and "is_using_in_process_server c"
    and "kill_streams_and_channel rest c = Inr (c', es)"
  shows "get_state c' = Connected \<and> use_stub f c' = Inl NullStub"
proof -
  have "client_inv c" using client_reachable_keeps [OF assms(1)] by simp
  then have "get_state c' = Connected \<and> client_inv c' \<and> channel (sd c') = None"
    by (rule kill_ok [where rest = rest])
      (use assms(2,3) in \<open>auto simp: is_using_in_process_server_def\<close>)
  then show ?thesis
    by (auto simp: use_stub_def use_safely_def get_state_simp client_inv_def streams_inv_def)
qed

text \<open>
  The same null stub is there for other threads while a connected client is being killed or
  moved to another server: between the locked part of \<open>kill_streams_and_channel\<close> and the turn of the
  thread that notices it, \<open>use_stub\<close> finds the state ready and no stub.
\<close>

theorem client_kill_window_null_stub:
  fixes rest :: "('ret, 'st) stream_rest"
  assumes "client_reachable used (tr :: ('ret, 'st, 'cb) client_effect list) c" and "get_state c = Connected"
    and "kill_begin rest c = Inr (c', es)"
  shows "use_stub f c' = Inl NullStub"
proof -
  have "client_inv c" using client_reachable_keeps [OF assms(1)] by simp
  from kill_begin_ok [OF this, of rest] assms(2,3) show ?thesis
    by (auto simp: use_stub_def use_safely_def get_state_simp)
qed

text \<open>
  Streams that were registered before \<open>change_server\<close> are not started when the new channel is
  ready at once. For an in-process channel, which is always ready, they are never started, and for an
  address whose first state is ready the thread starts them only after the connection was lost again:
  while it sees ready, they stay stopped although the client is connected.
\<close>

theorem client_ready_at_once_starts_no_stream:
  fixes rest :: "('ret, 'st) stream_rest"
  assumes "client_reachable used (tr :: ('ret, 'st, 'cb) client_effect list) c"
    and "change_server create Ready rest address cb c = Inr (c1, es)"
    and "run_turn Ready ok rest c1 = Inr (c2, (es' :: ('ret, 'st, 'cb) client_effect list))"
  shows "get_state c1 = Connected \<and> \<not> any_streaming c1 \<and> get_state c2 = Connected \<and> \<not> any_streaming c2
     \<and> (\<exists>c3 (es3 :: ('ret, 'st, 'cb) client_effect list).
          change_server_in_process rest chan c = Inr (c3, es3) \<and> get_state c3 = Connected \<and> \<not> any_streaming c3)"
proof -
  have inv: "client_inv c" using client_reachable_keeps [OF assms(1)] by simp
  from change_server_keeps [OF inv, of create Ready rest address cb] assms(2) have
    1: "client_inv c1" "connection_state (sd c1) = Ready" "channel (sd c1) \<noteq> None" "\<not> any_streaming c1"
    by (auto simp: step_keeps_def)
  then have "follow_body Ready ok rest (sd c1) = Inr ((None, True, []), sd c1)"
    by (cases ok) (simp_all add: follow_body_def)
  with assms(3) have "sd c2 = sd c1" by (auto simp: run_turn_def use_shared_simp)
  with 1 in_process_keeps [OF inv, of rest chan] show ?thesis by (auto simp: get_state_simp any_streaming_def)
qed

section \<open>Witnesses\<close>

definition nothing_left :: "(nat, nat) stream_rest" where
  "nothing_left p = ([], 0)"

definition dial :: "string \<Rightarrow> channel_arguments \<Rightarrow> nat" where
  "dial address arguments = length address"

text \<open>A client that is connecting, with one stream registered; the same client connected; and one in-process.\<close>

definition demo_stream :: "thread_state \<Rightarrow> (nat, nat, nat) client_stream" where
  "demo_stream t = \<lparr>context_of = (if joinable t then Some Open else None), reader = (if joinable t then Some 10 else None),
     stream_thread = t, init_func = (\<lambda>chan. chan + 7), update_callback = None, finish_callback = None\<rparr>"

definition connecting_client :: "(nat, nat, nat) grpc_client" where
  "connecting_client = \<lparr>shared_of = \<lparr>data = \<lparr>connection_state = Connecting, channel = Some 3, stub = Some 3,
       streams = [(1, demo_stream NoThread)]\<rparr>\<rparr>,
     using_in_process_server = False, server_address = ''a:1'',
     event_queue = Some \<lparr>queue_shut = False, owed = 1\<rparr>, follow_thread = Running, change_callback = Some 6\<rparr>"

definition connected_client :: "(nat, nat, nat) grpc_client" where
  "connected_client = with_shared (\<lambda>d. d\<lparr>connection_state := Ready, streams := [(1, demo_stream Running)]\<rparr>) connecting_client"

definition in_process_client :: "(nat, nat, nat) grpc_client" where
  "in_process_client = \<lparr>shared_of = \<lparr>data = \<lparr>connection_state = Ready, channel = Some 8, stub = Some 8, streams = []\<rparr>\<rparr>,
     using_in_process_server = True, server_address = ''In-Process'', event_queue = None,
     follow_thread = NoThread, change_callback = None\<rparr>"

lemmas client_eval = new_grpc_client_def new_shared_data_def make_atomic_data_def use_shared_simp register_stream_def
  register_body_def change_server_def change_server_in_process_def kill_streams_and_channel_def kill_begin_def
  kill_finish_def stopping_def stop_stream_def streaming_def connect_body_def in_process_body_def report_def
  notify_on_state_change_def take_notification_def run_turn_def follow_body_def starting_def start_stream_def
  um_emplace_def bump_new_def new_client_stream_def demo_stream_def connecting_client_def connected_client_def
  in_process_client_def with_shared_def dial_def nothing_left_def Let_def

lemma demo_client_steps:
  "client_step (EvRegister bump_new (\<lambda>chan. chan + 7)) (new_grpc_client :: (nat, nat, nat) grpc_client)
     = Inr (with_shared (\<lambda>d. d\<lparr>streams := [(1, demo_stream NoThread)]\<rparr>) new_grpc_client,
            [] :: (nat, nat, nat) client_effect list)"
  "client_step (EvChangeServer dial Connecting nothing_left ''a:1'' 6)
       (with_shared (\<lambda>d. d\<lparr>streams := [(1, demo_stream NoThread)]\<rparr>) new_grpc_client)
     = Inr (connecting_client, [ConnectionChange 6 AttemptingToConnect])"
  "client_step (EvTurn Ready True nothing_left) connecting_client = Inr (connected_client, [ConnectionChange 6 Connected])"
  "client_step (EvInProcess nothing_left 8) (new_grpc_client :: (nat, nat, nat) grpc_client)
     = Inr (in_process_client, [] :: (nat, nat, nat) client_effect list)"
  by (simp_all add: client_eval)

lemma connecting_reachable:
  "client_reachable False [ConnectionChange 6 AttemptingToConnect :: (nat, nat, nat) client_effect] connecting_client"
  using client_next [OF client_next [OF client_init _ demo_client_steps(1)] _ demo_client_steps(2)]
  by (simp add: operator_new_bump)

lemma connected_reachable:
  "client_reachable False [ConnectionChange 6 AttemptingToConnect, ConnectionChange 6 Connected :: (nat, nat, nat) client_effect]
     connected_client"
  using client_next [OF connecting_reachable _ demo_client_steps(3)] by (simp add: connecting_client_def)

lemma in_process_reachable: "client_reachable True ([] :: (nat, nat, nat) client_effect list) in_process_client"
  using client_next [OF client_init _ demo_client_steps(4)] by simp


theorem client_streams_only_when_connected_witness:
  "any_streaming connected_client \<and> channel (sd connected_client) \<noteq> None \<and> get_state connected_client = Connected"
proof -
  have "any_streaming connected_client"
    by (simp add: any_streaming_def connected_client_def demo_stream_def streaming_def)
  with client_streams_only_when_connected [OF connected_reachable] show ?thesis by simp
qed

theorem client_callbacks_track_state_witness:
  "get_state connected_client = Connected \<and> distinct_adj [NotConnected, AttemptingToConnect, Connected]"
  using client_callbacks_track_state [OF connected_reachable] by simp

theorem client_turn_follows_channel_witness:
  "\<exists>c' (es :: (nat, nat, nat) client_effect list). run_turn TransientFailure True nothing_left connected_client = Inr (c', es)
    \<and> reports es = [AttemptingToConnect] \<and> \<not> any_streaming c'"
proof -
  have "follow_thread connected_client = Running" by (simp add: connected_client_def connecting_client_def)
  moreover have "get_state connected_client = Connected" by (simp add: get_state_simp connected_client_def)
  ultimately show ?thesis
    using client_turn_follows_channel [OF connected_reachable, of TransientFailure True nothing_left]
    by (auto simp: any_streaming_def)
qed

theorem client_kill_disconnects_witness:
  "\<exists>c' (es :: (nat, nat, nat) client_effect list). kill_streams_and_channel nothing_left connected_client = Inr (c', es)
    \<and> \<not> any_streaming c' \<and> reports es = [NotConnected]"
proof -
  have "get_state connected_client = Connected" by (simp add: get_state_simp connected_client_def)
  with client_kill_disconnects [OF connected_reachable, of nothing_left] show ?thesis
    by (auto simp: is_using_in_process_server_def connected_client_def connecting_client_def)
qed

theorem client_use_stub_safe_witness:
  "use_stub (\<lambda>chan. chan + 1) connected_client = Inr (Some 4) \<and> use_stub (\<lambda>chan. chan + 1) connecting_client = Inr None"
  using client_use_stub_safe [OF connected_reachable, of "\<lambda>chan. chan + 1"]
    client_use_stub_safe [OF connecting_reachable, of "\<lambda>chan. chan + 1"]
  by (simp add: is_using_in_process_server_def get_state_simp connected_client_def connecting_client_def)

theorem client_in_process_kill_leaves_null_stub_witness:
  "\<exists>c' (es :: (nat, nat, nat) client_effect list). kill_streams_and_channel nothing_left in_process_client = Inr (c', es)
    \<and> get_state c' = Connected \<and> use_stub (\<lambda>chan. chan) c' = Inl NullStub"
proof -
  have "is_using_in_process_server in_process_client"
    by (simp add: is_using_in_process_server_def in_process_client_def)
  moreover obtain c' and es :: "(nat, nat, nat) client_effect list" where
    "kill_streams_and_channel nothing_left in_process_client = Inr (c', es)"
    by (simp add: client_eval)
  ultimately show ?thesis
    using client_in_process_kill_leaves_null_stub [OF in_process_reachable] by blast
qed

theorem client_kill_window_null_stub_witness:
  "\<exists>c' (es :: (nat, nat, nat) client_effect list). kill_begin nothing_left connected_client = Inr (c', es)
    \<and> use_stub (\<lambda>chan. chan) c' = Inl NullStub"
proof -
  have "client_inv connected_client" using client_reachable_keeps [OF connected_reachable] by simp
  from kill_begin_ok [OF this, of nothing_left] obtain c' and es :: "(nat, nat, nat) client_effect list" where
    "kill_begin nothing_left connected_client = Inr (c', es)" by blast
  moreover have "get_state connected_client = Connected" by (simp add: get_state_simp connected_client_def)
  ultimately show ?thesis using client_kill_window_null_stub [OF connected_reachable] by blast
qed

theorem client_ready_at_once_starts_no_stream_witness:
  "\<exists>c1 (es :: (nat, nat, nat) client_effect list). change_server dial Ready nothing_left ''b:2'' 6 connected_client = Inr (c1, es)
    \<and> um_keys (streams (sd c1)) = [1] \<and> get_state c1 = Connected \<and> \<not> any_streaming c1"
proof -
  let ?ev = "EvChangeServer dial Ready nothing_left ''b:2'' 6 :: (nat, nat, nat, nat, nat) client_event"
  have inv: "client_inv connected_client" using client_reachable_keeps [OF connected_reachable] by simp
  have keys: "change_server dial Ready nothing_left ''b:2'' 6 connected_client = Inr (c1, es) \<Longrightarrow> um_keys (streams (sd c1)) = [1]"
    for c1 and es :: "(nat, nat, nat) client_effect list"
    by (rule kill_ok [OF inv, of nothing_left])
      (auto simp: change_server_def use_shared_simp connect_body_def Let_def connected_client_def split: if_splits)
  from change_server_keeps [OF inv, of dial Ready nothing_left "''b:2''" 6] obtain c1 and es :: "(nat, nat, nat) client_effect list"
    where 1: "change_server dial Ready nothing_left ''b:2'' 6 connected_client = Inr (c1, es)"
      and "client_inv c1" "follow_thread c1 = Running" by (auto simp: step_keeps_def)
  from run_turn_keeps [OF this(2,3), of Ready True nothing_left] obtain c2 and es2 :: "(nat, nat, nat) client_effect list"
    where "run_turn Ready True nothing_left c1 = Inr (c2, es2)" by blast
  from client_ready_at_once_starts_no_stream [OF connected_reachable 1 this] 1 keys [OF 1] show ?thesis by blast
qed

end
