(* ===== verification/Grpc_Client_Typed.thy ===== *)
theory Grpc_Client_Typed
  imports Grpc_Client_Safety
begin

text \<open>
  The result types of a client's streams (include/grpcw/client/grpc_client.hpp). \<open>register_stream<Result>\<close>
  makes a \<open>GrpcClientStream<Service, Result>\<close> and returns a \<open>GrpcClientStreamCallbackSetter<Result>\<close>;
  \<open>on_stream_update<Result>\<close> and \<open>on_stream_finish<Result>\<close> find the stream by its key and cast it down
  with \<open>dynamic_cast\<close>, asserting that the cast succeeds. A type is a number, the dynamic type of the
  stream objects is kept beside the client, and everything else is the client of Grpc_Client.
\<close>

section \<open>State and operations\<close>

type_synonym type_id = nat

record ('chan, 'reader, 'cb) typed_client =
  plain :: "('chan, 'reader, 'cb) grpc_client"
  result_types :: "(ptr, type_id) umap"

record stream_setter =
  setter_result :: type_id
  setter_stream_key :: ptr

datatype cast_error = InClientError client_error | AssertStream

abbreviation stream_keys :: "('chan, 'reader, 'cb) grpc_client \<Rightarrow> ptr list" where
  "stream_keys c \<equiv> um_keys (streams (sd c))"

definition new_typed_client :: "('chan, 'reader, 'cb) typed_client" where
  "new_typed_client = \<lparr>plain = new_grpc_client, result_types = []\<rparr>"

definition register_stream_as ::
    "type_id \<Rightarrow> (ptr list \<Rightarrow> ptr) \<Rightarrow> ('chan \<Rightarrow> 'reader) \<Rightarrow> ('chan, 'reader, 'cb) typed_client
      \<Rightarrow> cast_error + (stream_setter \<times> ('chan, 'reader, 'cb) typed_client)" where
  "register_stream_as T new f c =
     (case register_stream new f (plain c) of
        Inl e \<Rightarrow> Inl (InClientError e)
      | Inr (key, c') \<Rightarrow>
          Inr (\<lparr>setter_result = T, setter_stream_key = key\<rparr>,
               \<lparr>plain = c', result_types = um_emplace key T (result_types c)\<rparr>))"

text \<open>\<open>dynamic_cast\<close> to the stream type of \<open>T\<close> gives null unless that is the type of the object.\<close>

definition cast_stream :: "type_id \<Rightarrow> ptr \<Rightarrow> ('chan, 'reader, 'cb) typed_client \<Rightarrow> bool" where
  "cast_stream T key c = (map_of (result_types c) key = Some T)"

definition on_stream_update_as ::
    "type_id \<Rightarrow> ptr \<Rightarrow> 'cb \<Rightarrow> ('chan, 'reader, 'cb) typed_client \<Rightarrow> cast_error + ('chan, 'reader, 'cb) typed_client" where
  "on_stream_update_as T key cb c =
     (if key \<notin> set (stream_keys (plain c)) then Inr c
      else if \<not> cast_stream T key c then Inl AssertStream
      else Inr (c\<lparr>plain := on_stream_update key cb (plain c)\<rparr>))"

definition on_stream_finish_as ::
    "type_id \<Rightarrow> ptr \<Rightarrow> 'cb \<Rightarrow> ('chan, 'reader, 'cb) typed_client \<Rightarrow> cast_error + ('chan, 'reader, 'cb) typed_client" where
  "on_stream_finish_as T key cb c =
     (if key \<notin> set (stream_keys (plain c)) then Inr c
      else if \<not> cast_stream T key c then Inl AssertStream
      else Inr (c\<lparr>plain := on_stream_finish key cb (plain c)\<rparr>))"

definition typed_setter_on_update ::
    "stream_setter \<Rightarrow> 'cb \<Rightarrow> ('chan, 'reader, 'cb) typed_client \<Rightarrow> cast_error + ('chan, 'reader, 'cb) typed_client" where
  "typed_setter_on_update s cb c = on_stream_update_as (setter_result s) (setter_stream_key s) cb c"

definition typed_setter_on_finish ::
    "stream_setter \<Rightarrow> 'cb \<Rightarrow> ('chan, 'reader, 'cb) typed_client \<Rightarrow> cast_error + ('chan, 'reader, 'cb) typed_client" where
  "typed_setter_on_finish s cb c = on_stream_finish_as (setter_result s) (setter_stream_key s) cb c"

text \<open>Every other operation of the client leaves the stream objects and so their types where they are.\<close>

definition typed_step ::
    "('chan, 'reader, 'ret, 'st, 'cb) client_event \<Rightarrow> ('chan, 'reader, 'cb) typed_client
      \<Rightarrow> cast_error + (('chan, 'reader, 'cb) typed_client \<times> ('ret, 'st, 'cb) client_effect list)" where
  "typed_step ev c =
     (case client_step ev (plain c) of
        Inl e \<Rightarrow> Inl (InClientError e)
      | Inr (c', es) \<Rightarrow> Inr (c\<lparr>plain := c'\<rparr>, es))"

fun is_register :: "('chan, 'reader, 'ret, 'st, 'cb) client_event \<Rightarrow> bool" where
  "is_register (EvRegister new f) = True"
| "is_register ev = False"

text \<open>The client with the setters it has handed out.\<close>

inductive typed_reachable ::
    "('ret, 'st, 'cb) client_effect list \<Rightarrow> stream_setter set \<Rightarrow> ('chan, 'reader, 'cb) typed_client \<Rightarrow> bool" where
  typed_init: "typed_reachable [] {} new_typed_client"
| typed_register: "typed_reachable tr ss c \<Longrightarrow> operator_new new \<Longrightarrow>
    register_stream_as T new f c = Inr (s, c') \<Longrightarrow> typed_reachable tr (insert s ss) c'"
| typed_update: "typed_reachable tr ss c \<Longrightarrow> s \<in> ss \<Longrightarrow> typed_setter_on_update s cb c = Inr c' \<Longrightarrow>
    typed_reachable tr ss c'"
| typed_finish: "typed_reachable tr ss c \<Longrightarrow> s \<in> ss \<Longrightarrow> typed_setter_on_finish s cb c = Inr c' \<Longrightarrow>
    typed_reachable tr ss c'"
| typed_other: "typed_reachable tr ss c \<Longrightarrow> client_allowed ev (plain c) \<Longrightarrow> \<not> is_register ev \<Longrightarrow>
    typed_step ev c = Inr (c', es) \<Longrightarrow> typed_reachable (tr @ es) ss c'"

section \<open>Typing\<close>

text \<open>The typing of a client and its setters: each stream has a type, and each setter the type of its stream.\<close>

definition typed_ok :: "stream_setter set \<Rightarrow> ('chan, 'reader, 'cb) typed_client \<Rightarrow> bool" where
  "typed_ok ss c \<longleftrightarrow> client_inv (plain c) \<and> set (um_keys (result_types c)) = set (stream_keys (plain c))
     \<and> (\<forall>s \<in> ss. map_of (result_types c) (setter_stream_key s) = Some (setter_result s))"

lemma setter_keys: "typed_ok ss c \<Longrightarrow> s \<in> ss \<Longrightarrow> setter_stream_key s \<in> set (stream_keys (plain c))"
  by (force simp: typed_ok_def dest: map_of_Some_um_keys)

lemma start_all_keys: "start_all start m = Inr m' \<Longrightarrow> um_keys m' = um_keys m"
  by (induction m arbitrary: m') (auto split: sum.splits prod.splits)

lemma stop_all_keys: "stop_all stop m = Inr (m', es) \<Longrightarrow> um_keys m' = um_keys m"
  by (induction m arbitrary: m' es) (auto split: sum.splits prod.splits)

lemma starting_keys: "starting d = Inr d' \<Longrightarrow> um_keys (streams d') = um_keys (streams d)"
  by (cases "start_all (start_stream (the (stub d))) (streams d)")
    (auto simp: starting_def start_all_keys split: option.splits if_splits)

lemma stopping_keys:
  "stopping rest d = Inr (es, d') \<Longrightarrow> um_keys (streams d') = um_keys (streams d)"
  by (cases "stop_all (\<lambda>p. case rest p of (us, st) \<Rightarrow> stop_stream us st) (streams d)")
    (auto simp: stopping_def stop_all_keys)

lemma follow_body_keys: "follow_body answer ok rest d = Inr (x, d') \<Longrightarrow> um_keys (streams d') = um_keys (streams d)"
  by (auto simp: follow_body_def Let_def split: if_splits sum.splits dest!: starting_keys stopping_keys)

lemma run_turn_keys: "run_turn answer ok rest c = Inr (c', es) \<Longrightarrow> stream_keys c' = stream_keys c"
  by (auto simp: run_turn_def use_shared_simp split: sum.splits prod.splits dest!: follow_body_keys)

lemma drain_queue_keys: "drain_queue n rest c = Inr (c', es) \<Longrightarrow> stream_keys c' = stream_keys c"
proof (induction n arbitrary: c es)
  case (Suc n)
  then show ?case by (fastforce split: sum.splits prod.splits dest: run_turn_keys)
qed simp

lemma kill_finish_keys: "kill_finish rest c = Inr (c', es) \<Longrightarrow> stream_keys c' = stream_keys c"
  by (auto simp: kill_finish_def Let_def split: if_splits sum.splits prod.splits dest!: drain_queue_keys)

lemma kill_begin_keys: "kill_begin rest c = Inr (c', es) \<Longrightarrow> stream_keys c' = stream_keys c"
  by (auto simp: kill_begin_def use_shared_simp split: sum.splits prod.splits dest!: stopping_keys)

lemma kill_keys: "kill_streams_and_channel rest c = Inr (c', es) \<Longrightarrow> stream_keys c' = stream_keys c"
  by (auto simp: kill_streams_and_channel_def split: sum.splits prod.splits
      dest!: kill_begin_keys kill_finish_keys)

lemma change_server_keys: "change_server create answer rest address cb c = Inr (c', es) \<Longrightarrow> stream_keys c' = stream_keys c"
  by (auto simp: change_server_def use_shared_simp connect_body_def Let_def split: sum.splits prod.splits if_splits
      dest!: kill_keys)

lemma in_process_keys: "change_server_in_process rest chan c = Inr (c', es) \<Longrightarrow> stream_keys c' = stream_keys c"
  by (auto simp: change_server_in_process_def use_shared_simp in_process_body_def split: sum.splits prod.splits
      dest!: kill_keys)

lemma client_step_keys:
  "client_step ev c = Inr (c', es) \<Longrightarrow> \<not> is_register ev \<Longrightarrow> stream_keys c' = stream_keys c"
  by (cases ev)
    (auto simp: callback_setter_on_update_def on_stream_update_def callback_setter_on_finish_def on_stream_finish_def
      use_safely_def dest: change_server_keys in_process_keys kill_keys run_turn_keys)

lemma register_stream_keys:
  "register_stream new f c = Inr (key, c') \<Longrightarrow> operator_new new \<Longrightarrow>
     key \<notin> set (stream_keys c) \<and> set (stream_keys c') = insert key (set (stream_keys c))"
  by (auto simp: register_stream_def use_shared_simp register_body_def Let_def set_keys_um_emplace operator_new_def
      split: sum.splits if_splits)

lemma typed_setter_ok:
  assumes "typed_ok ss c" and "s \<in> ss"
  shows "typed_setter_on_update s cb c = Inr (c\<lparr>plain := on_stream_update (setter_stream_key s) cb (plain c)\<rparr>)"
    and "typed_setter_on_finish s cb c = Inr (c\<lparr>plain := on_stream_finish (setter_stream_key s) cb (plain c)\<rparr>)"
  using assms setter_keys [OF assms]
  by (auto simp: typed_setter_on_update_def on_stream_update_as_def typed_setter_on_finish_def on_stream_finish_as_def
      cast_stream_def typed_ok_def)

lemma typed_ok_plain:
  "typed_ok ss c \<Longrightarrow> client_inv c' \<Longrightarrow> stream_keys c' = stream_keys (plain c) \<Longrightarrow> typed_ok ss (c\<lparr>plain := c'\<rparr>)"
  by (simp add: typed_ok_def)

lemma client_event_ok:
  fixes ev :: "('chan, 'reader, 'ret, 'st, 'cb) client_event"
  assumes "client_inv c" and "client_allowed ev c" and "client_step ev c = Inr (c', es)"
  shows "client_inv c'"
  using client_step_keeps [OF assms(1,2)] assms(3) by (auto simp: step_keeps_def)

lemma set_callback_ok:
  fixes c :: "('chan, 'reader, 'cb) grpc_client"
  assumes "client_inv c"
  shows "client_inv (on_stream_update key cb c) \<and> stream_keys (on_stream_update key cb c) = stream_keys c"
    and "client_inv (on_stream_finish key cb c) \<and> stream_keys (on_stream_finish key cb c) = stream_keys c"
  using client_event_ok [OF assms, of "EvStreamUpdate key cb :: ('chan, 'reader, unit, unit, 'cb) client_event"]
    client_event_ok [OF assms, of "EvStreamFinish key cb :: ('chan, 'reader, unit, unit, 'cb) client_event"]
  by (simp_all add: callback_setter_on_update_def callback_setter_on_finish_def on_stream_update_def
      on_stream_finish_def use_safely_def)

lemma typed_reachable_ok: "typed_reachable tr ss c \<Longrightarrow> typed_ok ss c"
proof (induction rule: typed_reachable.induct)
  case typed_init
  show ?case
    by (simp add: typed_ok_def new_typed_client_def client_inv_def streams_inv_def new_grpc_client_def
        make_atomic_data_def new_shared_data_def)
next
  case (typed_register tr ss c new T f s c')
  then obtain key p where r: "register_stream new f (plain c) = Inr (key, p)"
    "s = \<lparr>setter_result = T, setter_stream_key = key\<rparr>"
    "c' = \<lparr>plain = p, result_types = um_emplace key T (result_types c)\<rparr>"
    by (auto simp: register_stream_as_def split: sum.splits)
  have "client_inv (plain c)" using typed_register.IH by (simp add: typed_ok_def)
  with r(1) register_keeps [OF _ typed_register.hyps(2), of "plain c" f] have "client_inv p" by auto
  moreover note register_stream_keys [OF r(1) typed_register.hyps(2)]
  ultimately show ?case
    using typed_register.IH r(2,3) setter_keys [OF typed_register.IH]
    by (auto simp: typed_ok_def map_of_um_emplace set_keys_um_emplace)
next
  case (typed_update tr ss c s cb c')
  moreover have "client_inv (plain c)" using typed_update.IH by (simp add: typed_ok_def)
  ultimately show ?case
    using typed_setter_ok(1) [of ss c s cb] set_callback_ok(1) [of "plain c" "setter_stream_key s" cb]
      typed_ok_plain [of ss c "on_stream_update (setter_stream_key s) cb (plain c)"]
    by auto
next
  case (typed_finish tr ss c s cb c')
  moreover have "client_inv (plain c)" using typed_finish.IH by (simp add: typed_ok_def)
  ultimately show ?case
    using typed_setter_ok(2) [of ss c s cb] set_callback_ok(2) [of "plain c" "setter_stream_key s" cb]
      typed_ok_plain [of ss c "on_stream_finish (setter_stream_key s) cb (plain c)"]
    by auto
next
  case (typed_other tr ss c ev c' es)
  then obtain p where p: "client_step ev (plain c) = Inr (p, es)" "c' = c\<lparr>plain := p\<rparr>"
    by (auto simp: typed_step_def split: sum.splits)
  moreover have "client_inv (plain c)" using typed_other.IH by (simp add: typed_ok_def)
  ultimately show ?case
    using typed_other client_event_ok [of "plain c" ev] client_step_keys [OF p(1)] typed_ok_plain by blast
qed

section \<open>Properties\<close>

text \<open>
  Claim C6. A setter that came out of \<open>register_stream\<close> can be used at any later time: whatever else has
  been done with the client, its stream is still there, the \<open>dynamic_cast\<close> to the setter's result type
  succeeds, so the assertions hold, and the callback is set on that stream. Only the type parameter of a
  private member could make the assertion fail: with any other type it does.
\<close>

theorem client_setters_well_typed:
  fixes tr :: "('ret, 'st, 'cb) client_effect list" and c :: "('chan, 'reader, 'cb) typed_client"
  assumes "typed_reachable tr ss c" and "s \<in> ss"
  shows "typed_setter_on_update s cb c = Inr (c\<lparr>plain := on_stream_update (setter_stream_key s) cb (plain c)\<rparr>)
     \<and> typed_setter_on_finish s cb c = Inr (c\<lparr>plain := on_stream_finish (setter_stream_key s) cb (plain c)\<rparr>)
     \<and> (\<exists>t. map_of (streams (sd (plain c))) (setter_stream_key s) = Some t)
     \<and> (T \<noteq> setter_result s \<longrightarrow> on_stream_update_as T (setter_stream_key s) cb c = Inl AssertStream)"
proof -
  note ok = typed_reachable_ok [OF assms(1)]
  have key: "setter_stream_key s \<in> set (stream_keys (plain c))" by (rule setter_keys [OF ok assms(2)])
  then have "\<exists>t. map_of (streams (sd (plain c))) (setter_stream_key s) = Some t" by (simp add: in_um_keys_map_of)
  with key typed_setter_ok [OF ok assms(2)] ok assms(2) show ?thesis
    by (auto simp: on_stream_update_as_def cast_stream_def typed_ok_def)
qed

section \<open>Witness\<close>

text \<open>Two streams of different types, and the setter of the first one used after both are registered.\<close>

definition two_typed :: "(nat, nat, nat) typed_client" where
  "two_typed = \<lparr>plain = \<lparr>shared_of = \<lparr>data = \<lparr>connection_state = Idle, channel = None, stub = None,
       streams = [(1, new_client_stream Suc), (2, new_client_stream Suc)]\<rparr>\<rparr>, using_in_process_server = False,
       server_address = [], event_queue = None, follow_thread = NoThread, change_callback = None\<rparr>,
     result_types = [(1, 50), (2, 60)]\<rparr>"

lemma two_typed_reachable:
  "typed_reachable ([] :: (nat, nat, nat) client_effect list)
     {\<lparr>setter_result = 60, setter_stream_key = 2\<rparr>, \<lparr>setter_result = 50, setter_stream_key = 1\<rparr>} two_typed"
proof -
  let ?c0 = "new_typed_client :: (nat, nat, nat) typed_client"
  obtain c1 where 1: "register_stream_as 50 bump_new Suc ?c0 = Inr (\<lparr>setter_result = 50, setter_stream_key = 1\<rparr>, c1)"
    "register_stream_as 60 bump_new Suc c1 = Inr (\<lparr>setter_result = 60, setter_stream_key = 2\<rparr>, two_typed)"
    by (simp add: register_stream_as_def new_typed_client_def new_grpc_client_def make_atomic_data_def
        new_shared_data_def register_stream_def use_shared_simp register_body_def bump_new_def um_emplace_def
        two_typed_def Let_def)
  show ?thesis
    by (rule typed_register [OF typed_register [OF typed_init operator_new_bump 1(1)] operator_new_bump 1(2)])
qed

theorem client_setters_well_typed_witness:
  "typed_setter_on_update \<lparr>setter_result = 50, setter_stream_key = 1\<rparr> 9 two_typed
     = Inr (two_typed\<lparr>plain := on_stream_update 1 9 (plain two_typed)\<rparr>)
   \<and> on_stream_update_as 60 1 9 two_typed = Inl AssertStream"
  using client_setters_well_typed [OF two_typed_reachable, of "\<lparr>setter_result = 50, setter_stream_key = 1\<rparr>" 9 60]
  by simp

end
