(* ===== verification/Grpc_Client_Concurrency.thy ===== *)
theory Grpc_Client_Concurrency
  imports Grpc_Client_Safety
begin

text \<open>
  \<open>GrpcClient\<close> (include/grpcw/client/grpc_client.hpp) among threads. Its locked bodies, run in any order
  by the thread that follows the channel, the thread that kills or registers, and the threads of the
  streams, keep the invariant of the shared data and never fail. The second part looks at a lock that
  is held for long: \<open>kill_streams_and_channel\<close> and the turns of the thread stop the streams, which joins
  their threads, inside the locked body.
\<close>

section \<open>The locked bodies among threads\<close>

definition kill_body ::
    "('ret, 'st) stream_rest \<Rightarrow> ('chan, 'reader, 'cb) shared_data
      \<Rightarrow> client_error + ((ptr \<times> ('ret, 'st, 'cb) client_stream_effect) list \<times> ('chan, 'reader, 'cb) shared_data)" where
  "kill_body rest d =
     (case stopping rest d of
        Inl e \<Rightarrow> Inl e
      | Inr (es, d1) \<Rightarrow> Inr (es, d1\<lparr>stub := None, channel := None\<rparr>))"

lemma kill_begin_body:
  "kill_begin rest c =
     (case use_shared (kill_body rest) c of
        Inl e \<Rightarrow> Inl e
      | Inr (es, c1) \<Rightarrow> Inr (c1, map (\<lambda>(p, e). FromStream p e) es))"
  unfolding kill_begin_def kill_body_def [abs_def] ..

text \<open>A body as a call of the monitor; where it fails the data stays.\<close>

definition client_call ::
    "(('chan, 'reader, 'cb) shared_data \<Rightarrow> client_error + ('r \<times> ('chan, 'reader, 'cb) shared_data))
      \<Rightarrow> ('chan, 'reader, 'cb) shared_data locked_call" where
  "client_call body = use_call (\<lambda>d. case body d of Inl e \<Rightarrow> (Inl e, d) | Inr (x, d') \<Rightarrow> (Inr x, d'))"

definition adjust_call ::
    "(('chan, 'reader, 'cb) client_stream \<Rightarrow> ('chan, 'reader, 'cb) client_stream) \<Rightarrow> ptr
      \<Rightarrow> ('chan, 'reader, 'cb) shared_data locked_call" where
  "adjust_call f key = use_call (\<lambda>d. ((), d\<lparr>streams := um_adjust f key (streams d)\<rparr>))"

inductive_set client_calls :: "('ret \<times> 'st) itself \<Rightarrow> ('chan, 'reader, 'cb) shared_data locked_call set"
  for T :: "('ret \<times> 'st) itself" where
  turn: "client_call (follow_body answer ok (rest :: ('ret, 'st) stream_rest)) \<in> client_calls T"
| register: "operator_new new \<Longrightarrow> client_call (register_body new f) \<in> client_calls T"
| kill: "client_call (kill_body (rest :: ('ret, 'st) stream_rest)) \<in> client_calls T"
| set_update: "adjust_call (on_update cb) key \<in> client_calls T"
| set_finish: "adjust_call (on_finish cb) key \<in> client_calls T"
| stream_ends: "adjust_call (stream_ends_by_itself (updates :: 'ret list) (status :: 'st)) key \<in> client_calls T"

text \<open>The shared data right after \<open>change_server\<close> made a channel.\<close>

definition dialled :: "'chan \<Rightarrow> connectivity \<Rightarrow> ('chan, 'reader, 'cb) shared_data" where
  "dialled chan state = \<lparr>connection_state = state, channel = Some chan, stub = Some chan, streams = []\<rparr>"

lemma register_body_ok:
  assumes "streams_inv d" and "operator_new new"
  shows "\<exists>key d'. register_body new f d = Inr (key, d') \<and> streams_inv d'"
proof -
  let ?s = "new_client_stream f :: ('a, 'b, 'c) client_stream"
  have ok: "stream_ok ?s" "\<not> streaming ?s" by (simp_all add: new_client_stream_def stream_ok_def streaming_def)
  have fresh: "new (um_keys (streams d)) \<notin> set (um_keys (streams d))" using assms(2) by (simp add: operator_new_def)
  show ?thesis
  proof (cases "channel d \<noteq> None \<and> connection_state d = Ready")
    case True
    then obtain st where st: "stub d = Some st" using assms(1) by (auto simp: streams_inv_def)
    from start_stream_ok [OF ok(1), of st] obtain s where "start_stream st ?s = Inr s" "stream_ok s" "streaming s" by blast
    with True st assms(1) fresh show ?thesis by (auto simp: register_body_def Let_def streams_inv_def um_emplace_def um_ok_def)
  next
    case False
    with ok assms(1) fresh show ?thesis by (auto simp: register_body_def Let_def streams_inv_def um_emplace_def um_ok_def)
  qed
qed

lemma kill_body_ok:
  assumes "streams_inv d"
  shows "\<exists>es d'. kill_body rest d = Inr (es, d') \<and> streams_inv d' \<and> channel d' = None"
  using stopping_ok [of d rest] assms by (auto simp: kill_body_def streams_inv_def)

lemma follow_body_ok:
  assumes "streams_inv d"
  shows "\<exists>x d'. follow_body answer ok rest d = Inr (x, d') \<and> streams_inv d'"
proof (cases "channel d = None")
  case True
  then show ?thesis using assms by (auto simp: follow_disconnected streams_inv_def)
next
  case False
  from follow_connected [OF assms False, of answer ok rest] show ?thesis by blast
qed

lemma adjust_ok:
  assumes "streams_inv d" and "\<And>s. stream_ok s \<Longrightarrow> stream_ok (f s) \<and> streaming (f s) = streaming s"
  shows "streams_inv (d\<lparr>streams := um_adjust f key (streams d)\<rparr>)"
proof -
  have "\<exists>s \<in> snd ` set (streams d). t = s \<or> t = f s" if "t \<in> snd ` set (um_adjust f key (streams d))" for t
    using that by (force simp: um_adjust_def)
  then have "stream_ok t \<and> (streaming t \<longrightarrow> channel d \<noteq> None \<and> connection_state d = Ready)"
    if "t \<in> snd ` set (um_adjust f key (streams d))" for t
    using that assms unfolding streams_inv_def by metis
  with assms(1) show ?thesis by (simp add: streams_inv_def um_ok_def)
qed

lemma stream_setters_ok:
  "stream_ok s \<Longrightarrow> stream_ok (on_update cb s) \<and> streaming (on_update cb s) = streaming s"
  "stream_ok s \<Longrightarrow> stream_ok (on_finish cb s) \<and> streaming (on_finish cb s) = streaming s"
  "stream_ok s \<Longrightarrow> stream_ok (stream_ends_by_itself updates status s)
     \<and> streaming (stream_ends_by_itself updates status s) = streaming s"
  by (auto simp: on_update_def on_finish_def stream_ends_by_itself_def run_stream_thread_fields stream_ok_def streaming_def)

lemma client_call_keeps:
  "c \<in> client_calls T \<Longrightarrow> streams_inv d \<Longrightarrow> streams_inv (snd c d)"
proof (induction rule: client_calls.induct)
  case (turn answer ok rest)
  then show ?case using follow_body_ok [of d answer ok rest] by (auto simp: client_call_def use_call_def)
next
  case (register new f)
  then show ?case using register_body_ok [of d new f] by (auto simp: client_call_def use_call_def)
next
  case (kill rest)
  then show ?case using kill_body_ok [of d rest] by (auto simp: client_call_def use_call_def)
qed (simp_all add: adjust_call_def use_call_def adjust_ok stream_setters_ok)

interpretation client_lock: lock_protected "client_calls TYPE('ret \<times> 'st)" "dialled chan state" streams_inv
proof
  show "streams_inv (dialled chan state)" by (simp add: dialled_def streams_inv_def)
qed (rule client_call_keeps)

section \<open>Stopping a stream inside the lock\<close>

text \<open>
  One thread in \<open>kill_streams_and_channel\<close>: it takes the mutex of \<open>shared_data_\<close>, cancels the stream and
  joins its thread, and only then leaves the locked body. The other is the stream's thread: it hands the
  updates that are still to come to the callback, which may call an operation of the client
  (\<open>get_state\<close>, \<open>use_stub\<close>, \<open>register_stream\<close>) that takes the same mutex: \<open>uses_client\<close>.
\<close>

datatype killer_pc = KillerOutside | KillerWaits | KillerJoins | KillerDone

datatype reader_pc = Reads nat | InCallback nat | InClient nat | ReaderEnded

datatype lock_holder = Nobody | Killer | StreamReader

record hang_state =
  mutex :: lock_holder
  killer :: killer_pc
  stream_reader :: reader_pc

definition hang_start :: "nat \<Rightarrow> hang_state" where
  "hang_start n = \<lparr>mutex = Nobody, killer = KillerOutside, stream_reader = Reads n\<rparr>"

inductive hang_step :: "bool \<Rightarrow> hang_state \<Rightarrow> hang_state \<Rightarrow> bool"
  for uses_client where
  kill_called: "killer s = KillerOutside \<Longrightarrow> hang_step uses_client s (s\<lparr>killer := KillerWaits\<rparr>)"
| kill_locks: "killer s = KillerWaits \<Longrightarrow> mutex s = Nobody \<Longrightarrow>
    hang_step uses_client s (s\<lparr>killer := KillerJoins, mutex := Killer\<rparr>)"
| kill_joined: "killer s = KillerJoins \<Longrightarrow> stream_reader s = ReaderEnded \<Longrightarrow>
    hang_step uses_client s (s\<lparr>killer := KillerDone, mutex := Nobody\<rparr>)"
| update_read: "stream_reader s = Reads (Suc n) \<Longrightarrow> hang_step uses_client s (s\<lparr>stream_reader := InCallback n\<rparr>)"
| stream_over: "stream_reader s = Reads 0 \<Longrightarrow> hang_step uses_client s (s\<lparr>stream_reader := ReaderEnded\<rparr>)"
| callback_plain: "stream_reader s = InCallback n \<Longrightarrow> \<not> uses_client \<Longrightarrow>
    hang_step uses_client s (s\<lparr>stream_reader := Reads n\<rparr>)"
| callback_locks: "stream_reader s = InCallback n \<Longrightarrow> uses_client \<Longrightarrow> mutex s = Nobody \<Longrightarrow>
    hang_step uses_client s (s\<lparr>stream_reader := InClient n, mutex := StreamReader\<rparr>)"
| callback_unlocks: "stream_reader s = InClient n \<Longrightarrow>
    hang_step uses_client s (s\<lparr>stream_reader := Reads n, mutex := Nobody\<rparr>)"

inductive hang_reachable :: "bool \<Rightarrow> nat \<Rightarrow> hang_state \<Rightarrow> bool" for uses_client n where
  hang_init: "hang_reachable uses_client n (hang_start n)"
| hang_next: "hang_reachable uses_client n s \<Longrightarrow> hang_step uses_client s t \<Longrightarrow> hang_reachable uses_client n t"

definition hung :: "bool \<Rightarrow> hang_state \<Rightarrow> bool" where
  "hung uses_client s \<longleftrightarrow> killer s \<noteq> KillerDone \<and> (\<forall>t. \<not> hang_step uses_client s t)"

fun killer_work :: "killer_pc \<Rightarrow> nat" where
  "killer_work KillerOutside = 3"
| "killer_work KillerWaits = 2"
| "killer_work KillerJoins = 1"
| "killer_work KillerDone = 0"

fun reader_work :: "reader_pc \<Rightarrow> nat" where
  "reader_work (Reads n) = 3 * n + 1"
| "reader_work (InCallback n) = 3 * n + 3"
| "reader_work (InClient n) = 3 * n + 2"
| "reader_work ReaderEnded = 0"

text \<open>Who holds the mutex, and that every step uses up some of the work.\<close>

lemma hang_step_less:
  "hang_step uses_client s t \<Longrightarrow>
     killer_work (killer t) + reader_work (stream_reader t) < killer_work (killer s) + reader_work (stream_reader s)"
  by (induction rule: hang_step.induct) auto

lemma hang_inv:
  "hang_reachable uses_client n s \<Longrightarrow>
     mutex s = (if killer s = KillerJoins then Killer
                else if \<exists>m. stream_reader s = InClient m then StreamReader else Nobody)
     \<and> (killer s = KillerJoins \<longrightarrow> (\<forall>m. stream_reader s \<noteq> InClient m))
     \<and> (\<not> uses_client \<longrightarrow> (\<forall>m. stream_reader s \<noteq> InClient m))"
proof (induction rule: hang_reachable.induct)
  case (hang_next s t)
  from hang_next.hyps(2) hang_next.IH show ?case
    by (induction rule: hang_step.induct) (auto split: if_splits)
qed (simp add: hang_start_def)

inductive_simps hang_step_simps: "hang_step uses_client s t"

text \<open>The only way to get stuck.\<close>

lemma hung_iff:
  assumes "hang_reachable uses_client n s"
  shows "hung uses_client s \<longleftrightarrow> uses_client \<and> killer s = KillerJoins \<and> (\<exists>m. stream_reader s = InCallback m)"
proof -
  note inv = hang_inv [OF assms]
  show ?thesis
  proof (cases "stream_reader s")
    case (Reads m)
    then show ?thesis by (cases m) (auto simp: hung_def hang_step_simps)
  next
    case (InCallback m)
    with inv show ?thesis
      by (cases "killer s") (auto simp: hung_def hang_step_simps)
  next
    case (InClient m)
    then show ?thesis by (auto simp: hung_def hang_step_simps)
  next
    case ReaderEnded
    with inv show ?thesis by (cases "killer s") (auto simp: hung_def hang_step_simps)
  qed
qed

section \<open>Properties\<close>

text \<open>
  Claim C7. Once \<open>change_server\<close> has made a channel, the turns of the client's thread, registrations,
  callback changes, streams that end and the killing of streams and channel can interleave in any way,
  from any number of threads: streams run only while there is a channel in the ready state, their
  threads match their contexts, and no turn, registration or kill fails.
\<close>

theorem client_bodies_interleaved:
  fixes rest :: "('ret, 'st) stream_rest" and s :: "('chan, 'reader, 'cb) shared_data monitor"
  assumes "monitor_reachable (client_calls TYPE('ret \<times> 'st)) (dialled chan state) s" and "operator_new new"
  shows "streams_inv (shared s)
     \<and> (\<forall>e. follow_body answer ok rest (shared s) \<noteq> Inl e)
     \<and> (\<forall>e. register_body new f (shared s) \<noteq> Inl e)
     \<and> (\<forall>e. kill_body rest (shared s) \<noteq> Inl e)"
proof -
  have inv: "streams_inv (shared s)" by (rule client_lock.inv_shared [OF assms(1)])
  with follow_body_ok [OF inv, of answer ok rest] register_body_ok [OF inv assms(2), of f] kill_body_ok [OF inv, of rest]
  show ?thesis by auto
qed

text \<open>
  Claim C8. A callback of a stream that calls the client can hang the program. The stream's thread has read an
  update and is in the callback when another thread kills the streams: that thread waits for the
  stream's thread to end, inside the lock, and the callback waits for the lock. From then on no thread
  can move. The loop that follows the channel calls its own callback outside the lock
  ``to prevent the user from deadlocking the program''; stopping a stream has no such care.
\<close>

theorem stream_callback_can_deadlock:
  "\<exists>s. hang_reachable True (Suc n) s \<and> hung True s"
proof -
  let ?s = "\<lambda>h k. \<lparr>mutex = h, killer = k, stream_reader = InCallback n\<rparr>"
  have "hang_reachable True (Suc n) (?s Nobody KillerOutside)"
    using hang_next [OF hang_init update_read, of "Suc n" n] by (simp add: hang_start_def)
  from hang_next [OF this kill_called] have "hang_reachable True (Suc n) (?s Nobody KillerWaits)" by simp
  from hang_next [OF this kill_locks] have r: "hang_reachable True (Suc n) (?s Killer KillerJoins)" by simp
  with hung_iff [OF r] show ?thesis by auto
qed



theorem client_bodies_interleaved_witness:
  "streams_inv (shared (monitor_start (dialled 7 Ready :: (nat, nat, nat) shared_data)))"
proof -
  have "monitor_reachable (client_calls TYPE(nat \<times> nat)) (dialled 7 Ready)
      (monitor_start (dialled 7 Ready :: (nat, nat, nat) shared_data))"
    by (rule monitor_init)
  from client_bodies_interleaved [OF this operator_new_bump] show ?thesis by blast
qed

end
