(* ===== verification/Grpc_Client_Kill.thy ===== *)
theory Grpc_Client_Kill
  imports Grpc_Client_Concurrency
begin

text \<open>
  \<open>kill_streams_and_channel\<close> of \<open>GrpcClient\<close> (include/grpcw/client/grpc_client.hpp) is a locked body
  followed by a part outside the lock: the shutdown of the queue and the join of the thread. Between the
  two anything another thread may do can happen: turns of the client's own thread, registrations,
  changes of callbacks, calls of \<open>use_stub\<close>.
\<close>

section \<open>The window between the halves\<close>

fun in_window :: "('chan, 'reader, 'ret, 'st, 'cb) client_event \<Rightarrow> ('chan, 'reader, 'cb) grpc_client \<Rightarrow> bool" where
  "in_window (EvTurn answer ok rest) c = (follow_thread c = Running \<and> (\<exists>q. event_queue c = Some q \<and> 0 < owed q))"
| "in_window (EvRegister new f) c = operator_new new"
| "in_window (EvStreamUpdate key cb) c = True"
| "in_window (EvStreamFinish key cb) c = True"
| "in_window (EvStreamEnds key updates status) c = True"
| "in_window (EvChangeServer create answer rest address cb) c = False"
| "in_window (EvInProcess rest chan) c = False"
| "in_window (EvKill rest) c = False"

inductive kill_window ::
    "('chan, 'reader, 'cb) grpc_client \<Rightarrow> ('ret, 'st, 'cb) client_effect list \<Rightarrow> ('chan, 'reader, 'cb) grpc_client \<Rightarrow> bool"
  for c0 where
  window_opens: "kill_begin (rest :: ('ret, 'st) stream_rest) c0 = Inr (c, es) \<Longrightarrow> kill_window c0 es c"
| window_next: "kill_window c0 tr c \<Longrightarrow> in_window ev c \<Longrightarrow> client_step ev c = Inr (c', es) \<Longrightarrow>
    kill_window c0 (tr @ es) c'"

text \<open>All streams are stopped and stay so, and the thread either still has its one event to handle or has
  reported the disconnection.\<close>

definition stopped :: "('chan, 'reader, 'cb) shared_data \<Rightarrow> bool" where
  "stopped d \<longleftrightarrow> channel d = None \<and> stub d = None \<and> um_ok (streams d)
     \<and> (\<forall>s \<in> snd ` set (streams d). stream_ok s \<and> \<not> streaming s)"

definition window_inv ::
    "('chan, 'reader, 'cb) grpc_client \<Rightarrow> grpc_client_state list \<Rightarrow> ('chan, 'reader, 'cb) grpc_client \<Rightarrow> bool" where
  "window_inv c0 rs c \<longleftrightarrow> stopped (sd c) \<and> follow_thread c = follow_thread c0 \<and> change_callback c = change_callback c0
     \<and> using_in_process_server c = using_in_process_server c0
     \<and> (if follow_thread c0 = Running \<and> event_queue c = Some \<lparr>queue_shut = False, owed = 0\<rparr>
        then get_state c = NotConnected \<and> rs = (if get_state c0 = NotConnected then [] else [NotConnected])
        else event_queue c = event_queue c0 \<and> get_state c = get_state c0 \<and> rs = [])"

lemma window_inv_opens:
  fixes es :: "('ret, 'st, 'cb) client_effect list" and rest :: "('ret, 'st) stream_rest"
  assumes "client_inv c0" and "kill_begin rest c0 = Inr (c, es)"
  shows "window_inv c0 (reports es) c"
  using kill_begin_ok [OF assms(1), of rest] assms
  by (auto simp: window_inv_def stopped_def get_state_simp client_inv_def)

lemma stopped_adjust:
  assumes "stopped d" and "\<And>s. stream_ok s \<Longrightarrow> stream_ok (f s) \<and> streaming (f s) = streaming s"
  shows "stopped (d\<lparr>streams := um_adjust f key (streams d)\<rparr>)"
proof -
  have "streams_inv d" using assms(1) by (auto simp: stopped_def streams_inv_def)
  from adjust_ok [OF this assms(2), of key] assms(1) show ?thesis by (auto simp: stopped_def streams_inv_def)
qed

lemma stopped_register:
  assumes "stopped d" and "operator_new new"
  shows "\<exists>key d'. register_body new f d = Inr (key, d') \<and> stopped d' \<and> connection_state d' = connection_state d"
proof -
  have "streams_inv d" using assms(1) by (auto simp: stopped_def streams_inv_def)
  from register_body_ok [OF this assms(2), of f] assms(1) show ?thesis
    by (auto simp: register_body_def Let_def stopped_def streams_inv_def split: if_splits)
qed

lemma window_inv_shared:
  "window_inv c0 rs c \<Longrightarrow> stopped (f (sd c)) \<Longrightarrow> connection_state (f (sd c)) = connection_state (sd c) \<Longrightarrow>
     window_inv c0 rs (with_shared f c)"
  by (auto simp: window_inv_def get_state_simp split: if_splits)

lemma window_inv_adjust:
  assumes "window_inv c0 rs c" and "\<And>s. stream_ok s \<Longrightarrow> stream_ok (f s) \<and> streaming (f s) = streaming s"
  shows "window_inv c0 rs (with_shared (\<lambda>d. d\<lparr>streams := um_adjust f key (streams d)\<rparr>) c)"
  using assms stopped_adjust [of "sd c" f key] by (intro window_inv_shared) (simp_all add: window_inv_def)

lemma window_inv_next:
  fixes ev :: "('chan, 'reader, 'ret, 'st, 'cb) client_event"
  assumes "client_inv c0" and "window_inv c0 rs c" and "in_window ev c"
  shows "\<exists>c' es. client_step ev c = Inr (c', es) \<and> window_inv c0 (rs @ reports es) c'"
proof (cases ev)
  case (EvTurn answer ok rest)
  with assms have run: "follow_thread c0 = Running" "follow_thread c = Running" "channel (sd c) = None"
    by (auto simp: window_inv_def stopped_def)
  then obtain cb where cb: "change_callback c = Some cb" "change_callback c0 = Some cb" "event_queue c0 = Some \<lparr>queue_shut = False, owed = 1\<rparr>"
    using assms(1,2) by (auto simp: client_inv_def window_inv_def)
  from assms(3) EvTurn obtain q where "event_queue c = Some q" "0 < owed q" by auto
  with assms(2) run cb have w: "event_queue c = Some \<lparr>queue_shut = False, owed = 1\<rparr>" "get_state c = get_state c0" "rs = []"
    by (auto simp: window_inv_def split: if_splits)
  obtain c' and es :: "('ret, 'st, 'cb) client_effect list" where
    s: "client_step ev c = Inr (c', es)" "reports es = (if get_state c = NotConnected then [] else [NotConnected])"
      "sd c' = (if get_state c = NotConnected then sd c else (sd c)\<lparr>connection_state := Shutdown\<rparr>)"
      "event_queue c' = Some \<lparr>queue_shut = False, owed = 0\<rparr>" "follow_thread c' = Running"
      "change_callback c' = change_callback c" "using_in_process_server c' = using_in_process_server c"
    using run cb(1) w(1)
    by (cases "get_state c = NotConnected")
      (auto simp: EvTurn run_turn_def use_shared_simp follow_disconnected report_def take_notification_def
        notify_on_state_change_def get_state_simp)
  moreover have "stopped (sd c)" using assms(2) by (simp add: window_inv_def)
  then have "stopped (sd c')" using s(3) by (simp add: stopped_def)
  moreover have "get_state c' = NotConnected" using s(3) by (simp add: get_state_simp)
  ultimately have "window_inv c0 (rs @ reports es) c'"
    using assms(2) run w by (simp add: window_inv_def)
  with s(1) show ?thesis by blast
next
  case (EvRegister new f)
  with assms stopped_register [of "sd c" new f] obtain key d' where
    r: "register_body new f (sd c) = Inr (key, d')" "stopped d'" "connection_state d' = connection_state (sd c)"
    by (auto simp: window_inv_def)
  with window_inv_shared [OF assms(2), of "\<lambda>_. d'"] show ?thesis
    by (simp add: EvRegister register_stream_def use_shared_simp with_shared_def)
next
  case (EvStreamUpdate key cb)
  have "window_inv c0 rs (with_shared (\<lambda>d. d\<lparr>streams := um_adjust (on_update cb) key (streams d)\<rparr>) c)"
    by (rule window_inv_adjust [OF assms(2) stream_setters_ok(1)])
  with EvStreamUpdate show ?thesis
    by (simp add: callback_setter_on_update_def on_stream_update_def use_safely_def with_shared_def)
next
  case (EvStreamFinish key cb)
  have "window_inv c0 rs (with_shared (\<lambda>d. d\<lparr>streams := um_adjust (on_finish cb) key (streams d)\<rparr>) c)"
    by (rule window_inv_adjust [OF assms(2) stream_setters_ok(2)])
  with EvStreamFinish show ?thesis
    by (simp add: callback_setter_on_finish_def on_stream_finish_def use_safely_def with_shared_def)
next
  case (EvStreamEnds key updates status)
  have "window_inv c0 rs (with_shared (\<lambda>d. d\<lparr>streams := um_adjust (stream_ends_by_itself updates status) key (streams d)\<rparr>) c)"
    by (rule window_inv_adjust [OF assms(2) stream_setters_ok(3)])
  with EvStreamEnds show ?thesis by simp
qed (use assms in auto)

lemma kill_window_inv:
  "kill_window c0 (tr :: ('ret, 'st, 'cb) client_effect list) c \<Longrightarrow> client_inv c0 \<Longrightarrow> window_inv c0 (reports tr) c"
proof (induction rule: kill_window.induct)
  case (window_opens rest c es)
  then show ?case by (blast intro: window_inv_opens)
next
  case (window_next tr c ev c' es)
  then show ?case using window_inv_next [of c0 "reports tr" c ev] by auto
qed

text \<open>The second half, from any moment of the window.\<close>

lemma kill_finish_window:
  fixes rest :: "('ret, 'st) stream_rest"
  assumes "client_inv c0" and "window_inv c0 rs c"
  shows "\<exists>c' (es :: ('ret, 'st, 'cb) client_effect list). kill_finish rest c = Inr (c', es)
     \<and> client_inv c' \<and> stopped (sd c') \<and> streams (sd c') = streams (sd c) \<and> \<not> joinable (follow_thread c')
     \<and> using_in_process_server c' = using_in_process_server c0
     \<and> get_state c' = (if using_in_process_server c0 then get_state c0 else NotConnected)
     \<and> rs @ reports es = (if follow_thread c0 = Running \<and> get_state c0 \<noteq> NotConnected then [NotConnected] else [])"
proof (cases "follow_thread c0 = Running \<and> event_queue c = Some \<lparr>queue_shut = False, owed = 0\<rparr>")
  case True
  with assms have "kill_finish rest c = Inr (c\<lparr>event_queue := Some \<lparr>queue_shut = True, owed = 0\<rparr>, follow_thread := Joined\<rparr>, [])"
    by (simp add: kill_finish_def window_inv_def)
  with True assms show ?thesis
    by (auto simp: window_inv_def client_inv_def stopped_def streams_inv_def get_state_simp)
next
  case False
  with assms(2) have w: "event_queue c = event_queue c0" "get_state c = get_state c0" "rs = []" "stopped (sd c)"
    "follow_thread c = follow_thread c0" "change_callback c = change_callback c0"
    "using_in_process_server c = using_in_process_server c0" by (auto simp: window_inv_def)
  then obtain cb where cb: "follow_thread c = Running \<Longrightarrow>
      event_queue c = Some \<lparr>queue_shut = False, owed = 1\<rparr> \<and> change_callback c = Some cb"
    using assms(1) by (auto simp: client_inv_def)
  have "channel (sd c) = None" "follow_thread c \<noteq> Returned" using w assms(1) by (simp_all add: stopped_def client_inv_def)
  from kill_finish_ok [OF this cb, of rest] obtain q where fin: "kill_finish rest c =
     (if follow_thread c = Running \<and> to_cnc_client_state (connection_state (sd c)) \<noteq> NotConnected
      then Inr ((with_shared (connection_state_update (\<lambda>_. Shutdown)) c)\<lparr>event_queue := q, follow_thread := Joined\<rparr>,
                [ConnectionChange cb NotConnected])
      else Inr (c\<lparr>event_queue := q, follow_thread := (if follow_thread c = Running then Joined else follow_thread c)\<rparr>,
                [] :: ('ret, 'st, 'cb) client_effect list))"
    by blast
  show ?thesis
  proof (cases "follow_thread c = Running \<and> to_cnc_client_state (connection_state (sd c)) \<noteq> NotConnected")
    case True
    with fin w assms(1) show ?thesis
      by (auto simp: client_inv_def stopped_def streams_inv_def get_state_simp)
  next
    case other: False
    moreover have "\<not> joinable (if follow_thread c = Running then Joined else follow_thread c)"
      using \<open>follow_thread c \<noteq> Returned\<close> by (cases "follow_thread c") simp_all
    ultimately show ?thesis using fin w assms(1)
      by (auto simp: client_inv_def stopped_def streams_inv_def get_state_simp)
  qed
qed

section \<open>Properties\<close>


section \<open>Witness\<close>

text \<open>The connected client is killed, a stream is registered in between, and the thread takes its turn.\<close>

definition killed_midway :: "(nat, nat, nat) grpc_client" where
  "killed_midway = with_shared (\<lambda>d. d\<lparr>streams := [(1, (demo_stream Running)\<lparr>context_of := None, stream_thread := Joined\<rparr>)],
     stub := None, channel := None\<rparr>) connected_client"

lemma kill_begins_midway: "kill_begin nothing_left connected_client = Inr (killed_midway, [] :: (nat, nat, nat) client_effect list)"
  by (simp add: client_eval killed_midway_def join_stream_thread_def deliver_finish_def)


end
