(* ===== verification/Grpc_Client_View.thy ===== *)
theory Grpc_Client_View
  imports Grpc_Client_Safety Simulation
begin

text \<open>
  What a user of \<open>GrpcClient\<close> (include/grpcw/client/grpc_client.hpp) sees of it: the state that
  \<open>get_state\<close> returns, whether the server is in-process, and the calls of the state change callback. A
  small machine says what these are from the states the channel takes alone; the client, with its
  thread, queue, streams and shared data, refines it.
\<close>

section \<open>The machine of what is shown\<close>

record client_view =
  shown :: grpc_client_state
  in_process :: bool

datatype view_event = ConnectsTo grpc_client_state | GoesInProcess | Disconnects | Sees grpc_client_state | Nothing

text \<open>The changes along a sequence of states.\<close>

definition changes :: "grpc_client_state \<Rightarrow> grpc_client_state list \<Rightarrow> grpc_client_state list" where
  "changes a states = tl (remdups_adj (a # states))"

text \<open>
  What each event reports, and the view after it. An in-process channel is connected without a report,
  and stays connected in the view when it is killed.
\<close>

fun view_step :: "view_event \<Rightarrow> client_view \<Rightarrow> grpc_client_state list \<times> client_view" where
  "view_step (ConnectsTo st) v =
     (changes (shown v) (if in_process v then [st] else [NotConnected, st]), \<lparr>shown = st, in_process = False\<rparr>)"
| "view_step GoesInProcess v =
     (changes (shown v) (if in_process v then [] else [NotConnected]), \<lparr>shown = Connected, in_process = True\<rparr>)"
| "view_step Disconnects v =
     (if in_process v then ([], v) else (changes (shown v) [NotConnected], v\<lparr>shown := NotConnected\<rparr>))"
| "view_step (Sees st) v = (changes (shown v) [st], v\<lparr>shown := st\<rparr>)"
| "view_step Nothing v = ([], v)"

fun view_run :: "view_event list \<Rightarrow> client_view \<Rightarrow> grpc_client_state list \<times> client_view" where
  "view_run [] v = ([], v)"
| "view_run (e # es) v = (let (rs, v1) = view_step e v; (qs, v2) = view_run es v1 in (rs @ qs, v2))"

definition first_view :: client_view where
  "first_view = \<lparr>shown = NotConnected, in_process = False\<rparr>"

lemma changes_Nil [simp]: "changes a [] = []"
  by (simp add: changes_def)

lemma changes_Cons [simp]: "changes a (b # states) = (if a = b then changes b states else b # changes b states)"
  by (cases states) (simp_all add: changes_def)

lemma changes_append: "changes a (xs @ ys) = changes a xs @ changes (last (a # xs)) ys"
  by (induction xs arbitrary: a) auto

lemma last_changes: "last (a # changes a xs) = last (a # xs)"
proof (induction xs arbitrary: a)
  case (Cons b xs)
  from Cons.IH [of b] show ?case by (cases "a = b") (simp_all del: last.simps add: last_ConsR)
qed simp

section \<open>The view of a client\<close>

definition view_of :: "('chan, 'reader, 'cb) grpc_client \<Rightarrow> client_view" where
  "view_of c = \<lparr>shown = get_state c, in_process = is_using_in_process_server c\<rparr>"

fun view_event_of :: "('chan, 'reader, 'ret, 'st, 'cb) client_event \<Rightarrow> view_event" where
  "view_event_of (EvChangeServer create answer rest address cb) = ConnectsTo (to_cnc_client_state answer)"
| "view_event_of (EvInProcess rest chan) = GoesInProcess"
| "view_event_of (EvKill rest) = Disconnects"
| "view_event_of (EvTurn answer ok rest) = (if ok then Sees (to_cnc_client_state answer) else Nothing)"
| "view_event_of (EvRegister new f) = Nothing"
| "view_event_of (EvStreamUpdate key cb) = Nothing"
| "view_event_of (EvStreamFinish key cb) = Nothing"
| "view_event_of (EvStreamEnds key updates status) = Nothing"

lemma view_of_simp: "view_of c = \<lparr>shown = get_state c, in_process = using_in_process_server c\<rparr>"
  by (simp add: view_of_def is_using_in_process_server_def)

text \<open>Every operation of the client, and every turn of its thread, shows what the machine says.\<close>

lemma client_step_view:
  fixes c :: "('chan, 'reader, 'cb) grpc_client" and ev :: "('chan, 'reader, 'ret, 'st, 'cb) client_event"
  assumes inv: "client_inv c" and allowed: "client_allowed ev c"
  shows "\<exists>c' (es :: ('ret, 'st, 'cb) client_effect list). client_step ev c = Inr (c', es) \<and> client_inv c'
     \<and> view_step (view_event_of ev) (view_of c) = (reports es, view_of c')"
proof (cases ev)
  case (EvChangeServer create answer rest address cb)
  from change_server_keeps [OF inv, of create answer rest address cb] obtain c' and es :: "('ret, 'st, 'cb) client_effect list"
    where k: "change_server create answer rest address cb c = Inr (c', es)" "client_inv c'" "connection_state (sd c') = answer"
      "\<not> using_in_process_server c'"
      "reports es = (if \<not> using_in_process_server c \<and> get_state c \<noteq> NotConnected then [NotConnected] else [])
          @ (if to_cnc_client_state answer \<noteq> (if using_in_process_server c then Connected else NotConnected)
             then [to_cnc_client_state answer] else [])"
    by (auto simp: step_keeps_def)
  have "using_in_process_server c \<Longrightarrow> get_state c = Connected" using inv by (auto simp: client_inv_def get_state_simp)
  then have "view_step (view_event_of ev) (view_of c) = (reports es, view_of c')"
    unfolding k(5) by (cases "using_in_process_server c") (simp_all add: EvChangeServer view_of_simp k(4) get_state_simp k(3))
  with k(1,2) EvChangeServer show ?thesis by auto
next
  case (EvInProcess rest chan)
  with in_process_keeps [OF inv, of rest chan] show ?thesis by (auto simp: view_of_simp step_keeps_def)
next
  case (EvKill rest)
  obtain c' and es :: "('ret, 'st, 'cb) client_effect list"
    where k: "kill_streams_and_channel rest c = Inr (c', es)" "client_inv c'"
      "using_in_process_server c' = using_in_process_server c"
      "reports es = (if \<not> using_in_process_server c \<and> get_state c \<noteq> NotConnected then [NotConnected] else [])"
      "get_state c' = (if using_in_process_server c then Connected else NotConnected)"
    by (rule kill_ok [OF inv, of rest])
  have "using_in_process_server c \<Longrightarrow> get_state c = Connected" using inv by (auto simp: client_inv_def get_state_simp)
  then have "view_step (view_event_of ev) (view_of c) = (reports es, view_of c')"
    by (simp add: EvKill view_of_simp k(3-5))
  with k(1,2) EvKill show ?thesis by auto
next
  case (EvTurn answer ok rest)
  with run_turn_keeps [OF inv, of answer ok rest] allowed inv show ?thesis
    by (auto simp: view_of_simp step_keeps_def client_inv_def)
next
  case (EvRegister new f)
  with register_keeps [OF inv, of new f] allowed show ?thesis by (auto simp: view_of_simp)
qed (use client_step_keeps [OF inv allowed] in \<open>auto simp: view_of_simp step_keeps_def get_state_simp
  callback_setter_on_update_def on_stream_update_def callback_setter_on_finish_def on_stream_finish_def use_safely_def\<close>)

section \<open>Runs\<close>

text \<open>The client over a sequence of operations and turns, its effects in order.\<close>

fun client_run ::
    "('chan, 'reader, 'ret, 'st, 'cb) client_event list \<Rightarrow> ('chan, 'reader, 'cb) grpc_client
      \<Rightarrow> client_error + (('chan, 'reader, 'cb) grpc_client \<times> ('ret, 'st, 'cb) client_effect list)" where
  "client_run [] c = Inr (c, [])"
| "client_run (ev # evs) c =
     (case client_step ev c of
        Inl e \<Rightarrow> Inl e
      | Inr (c1, es) \<Rightarrow> (case client_run evs c1 of Inl e \<Rightarrow> Inl e | Inr (c2, fs) \<Rightarrow> Inr (c2, es @ fs)))"

fun client_run_allowed ::
    "('chan, 'reader, 'ret, 'st, 'cb) client_event list \<Rightarrow> ('chan, 'reader, 'cb) grpc_client \<Rightarrow> bool" where
  "client_run_allowed [] c = True"
| "client_run_allowed (ev # evs) c =
     (client_allowed ev c \<and> (case client_step ev c of Inl e \<Rightarrow> True | Inr (c1, es) \<Rightarrow> client_run_allowed evs c1))"

lemma client_run_view:
  fixes c :: "('chan, 'reader, 'cb) grpc_client" and evs :: "('chan, 'reader, 'ret, 'st, 'cb) client_event list"
  assumes "client_inv c" and "client_run_allowed evs c"
  shows "\<exists>c' (es :: ('ret, 'st, 'cb) client_effect list). client_run evs c = Inr (c', es) \<and> client_inv c'
     \<and> view_run (map view_event_of evs) (view_of c) = (reports es, view_of c')"
  using assms
proof (induction evs arbitrary: c)
  case (Cons ev evs)
  from client_step_view [OF Cons.prems(1), of ev] Cons.prems(2) obtain c1 and es :: "('ret, 'st, 'cb) client_effect list" where
    1: "client_step ev c = Inr (c1, es)" "client_inv c1" "view_step (view_event_of ev) (view_of c) = (reports es, view_of c1)"
    by auto
  with Cons.IH [of c1] Cons.prems(2) show ?case by auto
qed simp

lemma new_client_inv: "client_inv new_grpc_client" and new_client_view: "view_of new_grpc_client = first_view"
  by (simp_all add: client_inv_def streams_inv_def new_grpc_client_def new_shared_data_def make_atomic_data_def
      get_state_simp view_of_simp first_view_def)

text \<open>The states that events with an address show, one after another.\<close>

fun states_shown :: "view_event \<Rightarrow> grpc_client_state list" where
  "states_shown (ConnectsTo st) = [NotConnected, st]"
| "states_shown Disconnects = [NotConnected]"
| "states_shown (Sees st) = [st]"
| "states_shown e = []"

lemma view_run_by_address:
  "GoesInProcess \<notin> set es \<Longrightarrow> \<not> in_process v \<Longrightarrow>
     view_run es v = (changes (shown v) (concat (map states_shown es)),
       v\<lparr>shown := last (shown v # concat (map states_shown es))\<rparr>)"
proof (induction es arbitrary: v)
  case (Cons e es)
  define v1 where "v1 = v\<lparr>shown := last (shown v # states_shown e)\<rparr>"
  have "view_step e v = (changes (shown v) (states_shown e), v1)"
    using Cons.prems by (cases e; cases v) (simp_all add: v1_def)
  moreover have "shown v1 = last (shown v # states_shown e)" "\<not> in_process v1" using Cons.prems by (simp_all add: v1_def)
  moreover have "last (shown v # states_shown e @ states) = last (shown v1 # states)" for states
    by (cases "states = []") (simp_all add: v1_def)
  ultimately show ?case using Cons.IH [of v1] Cons.prems
    by (simp add: changes_append v1_def del: last.simps)
qed simp

section \<open>Properties\<close>


text \<open>
  Claim C5. As long as only servers with an address are used, the callback is called with exactly the changes in the
  sequence of states that the channels took when the client looked, a lost channel counting as not
  connected: each change once, in order, none made up and none left out.
\<close>

theorem client_reports_visible_changes:
  fixes evs :: "('chan, 'reader, 'ret, 'st, 'cb) client_event list"
  assumes "client_run_allowed evs (new_grpc_client :: ('chan, 'reader, 'cb) grpc_client)" and "\<forall>ev \<in> set evs. \<not> is_in_process ev"
    and "states = concat (map (states_shown \<circ> view_event_of) evs)"
  shows "\<exists>c (es :: ('ret, 'st, 'cb) client_effect list). client_run evs new_grpc_client = Inr (c, es)
     \<and> reports es = changes NotConnected states \<and> get_state c = last (NotConnected # states)"
proof -
  have "GoesInProcess \<notin> view_event_of ` set evs"
  proof
    assume "GoesInProcess \<in> view_event_of ` set evs"
    then obtain ev where "ev \<in> set evs" "view_event_of ev = GoesInProcess" by auto
    with assms(2) show False by (cases ev) (auto split: if_splits)
  qed
  then have "view_run (map view_event_of evs) first_view = (changes NotConnected states, first_view\<lparr>shown := last (NotConnected # states)\<rparr>)"
    using view_run_by_address [of "map view_event_of evs" first_view] assms(3) by (simp add: first_view_def comp_def)
  with client_run_view [OF new_client_inv assms(1), unfolded new_client_view] show ?thesis
    by (auto simp: view_of_simp first_view_def simp del: last.simps)
qed

section \<open>Witnesses\<close>

definition one_day :: "(nat, nat, nat, nat, nat) client_event list" where
  "one_day = [EvChangeServer dial Idle nothing_left ''b:2'' 6, EvTurn Connecting True nothing_left,
     EvTurn TransientFailure True nothing_left, EvTurn Ready True nothing_left, EvTurn Idle False nothing_left, EvKill nothing_left]"

lemma one_day_allowed: "client_run_allowed one_day (new_grpc_client :: (nat, nat, nat) grpc_client)"
  by (simp add: one_day_def client_eval)


theorem client_reports_visible_changes_witness:
  "\<exists>c es. client_run one_day new_grpc_client = Inr (c, es :: (nat, nat, nat) client_effect list)
     \<and> reports es = [AttemptingToConnect, Connected, NotConnected] \<and> get_state c = NotConnected"
proof -
  have "\<forall>ev \<in> set one_day. \<not> is_in_process ev" by (simp add: one_day_def)
  from client_reports_visible_changes [OF one_day_allowed this refl] show ?thesis
    by (auto simp: one_day_def)
qed

end
