(* ===== verification/Grpc_Session.thy ===== *)
theory Grpc_Session
  imports Stream_Rpc_Spec Grpc_Client_Stream
begin

text \<open>
  A streaming call from end to end: the server's \<open>StreamRpcHandler\<close> with all its events, one client's
  \<open>GrpcClientStream\<close>, and gRPC between them.

  Of gRPC the model takes what its documentation says of a streaming call: the responses given to one
  call reach the reader of that call, in order; the status comes after them; and a call may break at any
  time, which ends the reading. So the wire is a queue of responses. The server's other clients are in
  the server's events. \<open>history\<close> and \<open>taken\<close> record the events of the group and the responses the reader
  has returned; no step looks at them.
\<close>

section \<open>The joint machine\<close>

datatype session_conn = NotYet | On ptr | Over

record ('req, 'resp, 'st, 'scb, 'stub, 'reader, 'cb) session =
  srv :: "('req, 'resp, 'st, 'scb) stream_sys"
  cli :: "('stub, 'reader, 'cb) client_stream"
  conn :: session_conn
  wire :: "('resp, 'st) responder_call list"
  seen :: "('resp, 'st, 'cb) client_stream_effect list"
  history :: "('resp, 'st) group_event list"
  taken :: "('resp, 'st) responder_call list"

text \<open>\<open>Accept\<close>: the activation that makes this client's call an active connection.\<close>

datatype ('req, 'resp, 'st, 'scb) session_event =
    Serve "('req, 'resp, 'st, 'scb) stream_event"
  | Accept "('req, 'resp, 'st, 'scb) stream_event"
  | Read
  | Break 'st

text \<open>The responses on \<open>p\<close> in the last effects of the server, while the connection lives.\<close>

definition new_calls ::
    "session_conn \<Rightarrow> ('req, 'resp, 'st, 'scb) stream_sys \<Rightarrow> ('req, 'resp, 'st, 'scb) stream_sys
      \<Rightarrow> ('resp, 'st) responder_call list" where
  "new_calls c s s' = (case c of On p \<Rightarrow> calls_on p (drop (length (trace s)) (trace s')) | _ \<Rightarrow> [])"

definition conn_after :: "session_conn \<Rightarrow> ('req, 'resp, 'st, 'scb) stream_sys \<Rightarrow> session_conn" where
  "conn_after c s' = (case c of On p \<Rightarrow> if p \<in> set (um_keys (active (conn_of s'))) then On p else Over | _ \<Rightarrow> c)"

inductive session_step ::
    "('req, 'resp, 'st, 'scb) session_event \<Rightarrow> ('req, 'resp, 'st, 'scb, 'stub, 'reader, 'cb) session
      \<Rightarrow> ('req, 'resp, 'st, 'scb, 'stub, 'reader, 'cb) session \<Rightarrow> bool" where
  serve: "allowed_step ev (srv s) s' \<Longrightarrow>
    session_step (Serve ev) s
      (s\<lparr>srv := s', conn := conn_after (conn s) s', wire := wire s @ new_calls (conn s) (srv s) s',
         history := history s @ [group_event_of (srv s) ev]\<rparr>)"
| accept: "allowed_step ev (srv s) s' \<Longrightarrow> conn s = NotYet \<Longrightarrow> group_event_of (srv s) ev = Join p \<Longrightarrow>
    stream_thread (cli s) = Running \<Longrightarrow>
    session_step (Accept ev) s (s\<lparr>srv := s', conn := On p, history := history s @ [Join p]\<rparr>)"
| read_update: "wire s = OpWrite u # rest \<Longrightarrow> stream_thread (cli s) = Running \<Longrightarrow>
    session_step Read s
      (s\<lparr>wire := rest, taken := taken s @ [OpWrite u], seen := seen s @ deliver_update u (cli s)\<rparr>)"
| read_status: "wire s = OpFinish st # rest \<Longrightarrow> stream_thread (cli s) = Running \<Longrightarrow>
    session_step Read s
      (s\<lparr>wire := rest, taken := taken s @ [OpFinish st], cli := fst (run_stream_thread [] st (cli s) ::
           ('stub, 'reader, 'cb) client_stream \<times> ('resp, 'st, 'cb) client_stream_effect list),
         seen := seen s @ snd (run_stream_thread [] st (cli s))\<rparr>)"
| broken: "stream_thread (cli s) = Running \<Longrightarrow>
    session_step (Break st) s
      (s\<lparr>cli := fst (run_stream_thread [] st (cli s) ::
           ('stub, 'reader, 'cb) client_stream \<times> ('resp, 'st, 'cb) client_stream_effect list),
         seen := seen s @ snd (run_stream_thread [] st (cli s))\<rparr>)"

inductive_cases serveE: "session_step (Serve ev) s t"
inductive_cases acceptE: "session_step (Accept ev) s t"
inductive_cases readE: "session_step Read s t"
inductive_cases breakE: "session_step (Break st) s t"

text \<open>A client that has started its stream, and a server that has just been built.\<close>

definition session_start ::
    "'scb option \<Rightarrow> 'scb option \<Rightarrow> ('stub, 'reader, 'cb) client_stream
      \<Rightarrow> ('req, 'resp, 'st, 'scb, 'stub, 'reader, 'cb) session" where
  "session_start on_conn on_del c =
     \<lparr>srv = stream_start on_conn on_del, cli = c, conn = NotYet, wire = [], seen = [], history = [], taken = []\<rparr>"

section \<open>What the client has seen\<close>

fun updates_of :: "('resp, 'st) responder_call list \<Rightarrow> 'resp list" where
  "updates_of [] = []"
| "updates_of (OpWrite u # calls) = u # updates_of calls"
| "updates_of (OpFinish st # calls) = updates_of calls"

fun updates_seen :: "('resp, 'st, 'cb) client_stream_effect list \<Rightarrow> 'resp list" where
  "updates_seen [] = []"
| "updates_seen (OnUpdate cb u # es) = u # updates_seen es"
| "updates_seen (OnFinish cb st # es) = updates_seen es"

lemma updates_of_append [simp]: "updates_of (xs @ ys) = updates_of xs @ updates_of ys"
  by (induction xs rule: updates_of.induct) auto

lemma updates_seen_append [simp]: "updates_seen (xs @ ys) = updates_seen xs @ updates_seen ys"
  by (induction xs rule: updates_seen.induct) auto

lemma updates_seen_finish [simp]: "updates_seen (deliver_finish st c) = []"
  by (simp add: deliver_finish_def split: option.splits)

definition session_inv ::
    "'cb \<Rightarrow> ('req, 'resp, 'st, 'scb, 'stub, 'reader, 'cb) session \<Rightarrow> bool" where
  "session_inv cb s \<longleftrightarrow> spec_inv (srv s) \<and> runs group_step empty_group (history s) (group_of (srv s))
     \<and> (\<forall>p. conn s = On p \<longrightarrow> p \<in> set (um_keys (active (conn_of (srv s))))
          \<and> taken s @ wire s = calls_on p (trace (srv s)))
     \<and> (conn s = NotYet \<longrightarrow> taken s = [] \<and> wire s = [])
     \<and> update_callback (cli s) = Some cb \<and> updates_seen (seen s) = updates_of (taken s)"

text \<open>A step of the server never asks gRPC for a new call on a connection that is in use.\<close>

lemma remove_stream_requests: "remove_stream cb q c = Inr (c', es) \<Longrightarrow> RequestRpc p \<notin> set es"
  by (auto simp: remove_stream_def call_deletion_def split: option.splits sum.splits)

lemma sync_body_requests: "sync_body cb t ok c = Inr (c', es, all) \<Longrightarrow> RequestRpc p \<notin> set es"
  by (auto simp: sync_body_def Let_def dest: remove_stream_requests [where p = p]
      split: sum.splits prod.splits tag_label.splits if_splits)

lemma responds_requests: "length ps = length ks \<Longrightarrow> RequestRpc p \<notin> set (map2 (\<lambda>k t. Respond k call t) ks ps)"
  by (induction ps ks rule: list_induct2) auto

lemma promote_requests: "RequestRpc p \<notin> set (snd (promote_next cb c))"
  by (auto simp: promote_next_def split: option.splits)

lemma send_requests:
  "operator_new nt \<Longrightarrow> um_ok (tags c) \<Longrightarrow> send_body nt call client c = ((notify, result, es), c') \<Longrightarrow>
     RequestRpc p \<notin> set es"
  using responds_requests by (fastforce dest!: send_body_fields)

lemma new_effects:
  fixes s s' :: "('req, 'resp, 'st, 'cb) stream_sys"
  assumes inv: "spec_inv s" and step: "allowed_step ev s s'" and p: "p \<in> set (live_connections (conn_of s))"
  shows "\<exists>es. trace s' = trace s @ es \<and> RequestRpc p \<notin> set es"
proof -
  have ci: "connections_inv (conn_of s)"
    using inv by (simp add: spec_inv_def stream_inv_def)
  then have ok: "um_ok (tags (conn_of s))" by (simp add: connections_inv_def)
  show ?thesis
  proof (cases ev)
    case (EvActivate nc nt r0)
    with step obtain h' es c' where
      r: "activate_body nc nt r0 (connection_callback (hdl s)) (conn_of s) = (es, c')"
        "s' = record_effects h' es s" "operator_new nc" "operator_new nt"
      by (auto simp: allowed_step_def activate_next_conns split: prod.splits)
    with activate_body_fields [OF ci r(3,4,1)] p promote_requests [of p "connection_callback (hdl s)" "conn_of s"]
    show ?thesis by auto
  next
    case (EvWrite nt u client)
    with step obtain notify result es c' where
      r: "send_body nt (OpWrite u) client (conn_of s) = ((notify, result, es), c')" "trace s' = trace s @ es" "operator_new nt"
      by (auto simp: allowed_step_def record_send_def send_conns)
    with send_requests [OF r(3) ok r(1)] show ?thesis by blast
  next
    case (EvFinish nt st client)
    with step obtain notify result es c' where
      r: "send_body nt (OpFinish st) client (conn_of s) = ((notify, result, es), c')" "trace s' = trace s @ es" "operator_new nt"
      by (auto simp: allowed_step_def record_send_def send_conns)
    with send_requests [OF r(3) ok r(1)] show ?thesis by blast
  next
    case (EvSync t ok)
    with step show ?thesis
      by (auto simp: allowed_step_def sync_step_conns dest: sync_body_requests [where p = p] split: sum.splits prod.splits)
  qed (use step in \<open>auto simp: allowed_step_def\<close>)
qed

lemma note_calls_split:
  "RequestRpc p \<notin> set es \<Longrightarrow> fold (note_call p) es given = given @ fold (note_call p) es []"
proof (induction es arbitrary: given)
  case (Cons e es)
  have "note_call p e given = given @ note_call p e []" using Cons.prems by (cases e) auto
  with Cons.prems Cons.IH [of "given @ note_call p e []"] Cons.IH [of "note_call p e []"] show ?case
    by (simp only: fold_simps(2) list.set insert_iff de_Morgan_disj append_assoc not_False_eq_True simp_thms)
qed simp

lemma new_calls_split:
  assumes "spec_inv s" and "allowed_step ev s s'" and "p \<in> set (um_keys (active (conn_of s)))"
  shows "calls_on p (trace s') = calls_on p (trace s) @ new_calls (On p) s s'"
proof -
  from new_effects [OF assms(1,2), of p] assms(3) obtain es where
    "trace s' = trace s @ es" "RequestRpc p \<notin> set es"
    by (auto simp: live_connections_def)
  with note_calls_split [of p es "calls_on p (trace s)"] show ?thesis
    by (simp add: new_calls_def calls_on_def)
qed

lemma session_inv_step: "session_step e s t \<Longrightarrow> session_inv cb s \<Longrightarrow> session_inv cb t"
proof (induction rule: session_step.induct)
  case (serve ev s s')
  note inv = serve.prems [unfolded session_inv_def]
  have "runs group_step empty_group (history s @ [group_event_of (srv s) ev]) (group_of s')"
    using inv serve handler_simulates [of "srv s" ev s'] by (blast intro: runs_snoc)
  moreover have "taken s @ wire s @ new_calls (On p) (srv s) s' = calls_on p (trace s')" if "conn s = On p" for p
    using inv that new_calls_split [OF _ serve.hyps, of p] by (metis append_assoc)
  ultimately show ?case
    using inv serve spec_inv_step [of "srv s" ev s']
    by (auto simp: session_inv_def conn_after_def new_calls_def split: session_conn.splits)
next
  case (accept ev s s' p)
  note inv = accept.prems [unfolded session_inv_def]
  have step: "group_step (Join p) (group_of (srv s)) (group_of s')"
    using inv accept handler_simulates [of "srv s" ev s'] by metis
  then have "sessions (group_of s') p = Some []" by simp
  then have "p \<in> set (um_keys (active (conn_of s')))" "calls_on p (trace s') = []"
    by (simp_all add: group_of_def split: if_splits)
  with inv accept step show ?case
    by (auto simp: session_inv_def intro: runs_snoc spec_inv_step)
next
  case (read_update s u rest)
  then show ?case by (auto simp: session_inv_def deliver_update_def)
next
  case (read_status s st rest)
  then show ?case by (auto simp: session_inv_def)
next
  case (broken s st)
  then show ?case by (auto simp: session_inv_def)
qed

lemma session_inv_runs:
  "runs session_step s es t \<Longrightarrow> session_inv cb s \<Longrightarrow> session_inv cb t"
  by (induction rule: runs.induct) (auto intro: session_inv_step)

lemma session_inv_start:
  "update_callback c = Some cb \<Longrightarrow> session_inv cb (session_start on_conn on_del c)"
  by (simp add: session_inv_def session_start_def runs_nil)

lemma seen_and_wire:
  assumes "runs session_step (session_start on_conn on_del c) es s"
    and "update_callback c = Some cb" and "conn s = On p"
  shows "updates_seen (seen s) @ updates_of (wire s) = updates_of (given_since_join p (history s))"
proof -
  have inv: "session_inv cb s"
    by (rule session_inv_runs [OF assms(1) session_inv_start [OF assms(2)]])
  with assms(3) have "sessions (group_of (srv s)) p = Some (taken s @ wire s)"
    by (simp add: session_inv_def group_of_def)
  with inv sessions_given [of "history s" "group_of (srv s)" p] have
    "taken s @ wire s = given_since_join p (history s)"
    by (simp add: session_inv_def)
  with inv show ?thesis by (simp add: session_inv_def flip: updates_of_append)
qed

section \<open>Properties\<close>

text \<open>
  From the server's \<open>write\<close> to the client's update callback: while the call is connected, the updates
  the callback has been given, followed by those still on the wire, are the updates of every broadcast
  and every write to this client since it joined, each once and in order, whatever the other clients
  do.
\<close>

theorem client_sees_what_server_writes:
  assumes "runs session_step (session_start on_conn on_del c) es s"
    and "update_callback c = Some cb" and "conn s = On p"
  shows "updates_seen (seen s) @ updates_of (wire s) = updates_of (given_since_join p (history s))"
  by (rule seen_and_wire [OF assms])


section \<open>A concrete session\<close>

text \<open>
  A client calls, the server accepts it and writes two updates, and the client reads the first one.
  \<open>session_do\<close> computes a step from its event.
\<close>

fun session_do ::
    "('req, 'resp, 'st, 'scb) session_event \<Rightarrow> ('req, 'resp, 'st, 'scb, 'stub, 'reader, 'cb) session
      \<Rightarrow> ('req, 'resp, 'st, 'scb, 'stub, 'reader, 'cb) session option" where
  "session_do (Serve ev) s =
     (case stream_step ev (srv s) of
        Some (Inr s') \<Rightarrow> Some (s\<lparr>srv := s', conn := conn_after (conn s) s',
          wire := wire s @ new_calls (conn s) (srv s) s', history := history s @ [group_event_of (srv s) ev]\<rparr>)
      | _ \<Rightarrow> None)"
| "session_do (Accept ev) s =
     (case (stream_step ev (srv s), group_event_of (srv s) ev) of
        (Some (Inr s'), Join p) \<Rightarrow>
          if conn s = NotYet \<and> stream_thread (cli s) = Running
          then Some (s\<lparr>srv := s', conn := On p, history := history s @ [Join p]\<rparr>) else None
      | _ \<Rightarrow> None)"
| "session_do Read s =
     (case wire s of
        OpWrite u # rest \<Rightarrow>
          if stream_thread (cli s) = Running
          then Some (s\<lparr>wire := rest, taken := taken s @ [OpWrite u], seen := seen s @ deliver_update u (cli s)\<rparr>)
          else None
      | _ \<Rightarrow> None)"
| "session_do (Break st) s = None"

fun session_allows ::
    "('req, 'resp, 'st, 'scb) session_event \<Rightarrow> ('req, 'resp, 'st, 'scb, 'stub, 'reader, 'cb) session \<Rightarrow> bool" where
  "session_allows (Serve ev) s = environment_allows (srv s) ev"
| "session_allows (Accept ev) s = environment_allows (srv s) ev"
| "session_allows e s = True"

lemma session_do_step: "session_do e s = Some t \<Longrightarrow> session_allows e s \<Longrightarrow> session_step e s t"
  by (cases e)
    (auto intro!: session_step.intros simp: allowed_step_def
      split: option.splits sum.splits group_event.splits list.splits responder_call.splits if_splits)

fun session_does ::
    "('req, 'resp, 'st, 'scb) session_event list \<Rightarrow> ('req, 'resp, 'st, 'scb, 'stub, 'reader, 'cb) session
      \<Rightarrow> ('req, 'resp, 'st, 'scb, 'stub, 'reader, 'cb) session option" where
  "session_does [] s = Some s"
| "session_does (e # es) s =
     (if session_allows e s then (case session_do e s of None \<Rightarrow> None | Some t \<Rightarrow> session_does es t) else None)"

lemma session_does_runs: "session_does es s = Some t \<Longrightarrow> runs session_step s es t"
  by (induction es arbitrary: s)
    (auto intro: runs_Cons session_do_step runs_nil split: if_splits option.splits)

definition listening_client :: "(nat, nat, nat) client_stream" where
  "listening_client = \<lparr>context_of = Some Open, reader = Some 1, stream_thread = Running, init_func = Suc,
     update_callback = Some 90, finish_callback = Some 91\<rparr>"

definition short_session :: "(nat, nat, nat, nat) session_event list" where
  "short_session = [Serve (EvActivate bump_new bump_new 0), Serve (EvRequest 70),
     Accept (EvActivate bump_new bump_new 0), Serve (EvWrite bump_new 5 0), Serve (EvSync 3 True),
     Serve (EvWrite bump_new 6 1), Read]"

lemma short_session_runs:
  "\<exists>s. runs session_step (session_start (Some 8) (Some 9) listening_client) short_session s
     \<and> conn s = On 1 \<and> wire s = [OpWrite 6] \<and> seen s = [OnUpdate 90 5] \<and> stream_thread (cli s) = Running
     \<and> history s = [Quiet, Quiet, Join 1, Broadcast (OpWrite 5), Written 1, SendTo 1 (OpWrite 6)]"
proof -
  obtain s where s: "session_does short_session (session_start (Some 8) (Some 9) listening_client) = Some s"
    "conn s = On 1" "wire s = [OpWrite 6]" "seen s = [OnUpdate 90 5]" "stream_thread (cli s) = Running"
    "history s = [Quiet, Quiet, Join 1, Broadcast (OpWrite 5), Written 1, SendTo 1 (OpWrite 6)]"
    by (simp add: short_session_def session_start_def listening_client_def stream_eval conn_after_def new_calls_def
        calls_on_def send_event_def sync_event_def deliver_update_def eval_nat_numeral)
  with session_does_runs [OF s(1)] show ?thesis by auto
qed

lemma listening_callback: "update_callback listening_client = Some 90"
  by (simp add: listening_client_def)

theorem client_sees_what_server_writes_witness:
  "\<exists>s. runs session_step (session_start (Some (8::nat)) (Some 9) listening_client) short_session s
     \<and> updates_seen (seen s) @ updates_of (wire s) = [5, 6]
     \<and> given_since_join 1 (history s) = [OpWrite 5, OpWrite 6]"
proof -
  obtain s where s: "runs session_step (session_start (Some 8) (Some 9) listening_client) short_session s"
    "conn s = On 1" "history s = [Quiet, Quiet, Join 1, Broadcast (OpWrite 5), Written 1, SendTo 1 (OpWrite 6)]"
    using short_session_runs by blast
  from client_sees_what_server_writes [OF s(1) listening_callback s(2)] s(1,3) show ?thesis
    by (auto simp: given_since_join_def)
qed


end
