(* ===== verification/Grpc_World.thy ===== *)
theory Grpc_World
  imports Grpc_Session
begin

text \<open>
  One \<open>StreamRpcHandler\<close> and any number of clients, each with its \<open>GrpcClientStream\<close>, which may stop its
  stream and start it again as often as it likes. Grpc_Session follows one client; here every client is
  one of the sessions of the same server.

  \<open>shown\<close> and \<open>read_off\<close> are what the client's callbacks and its reader have got since the stream was
  started last. A call the server has not noticed to be over stays among its connections, without a
  client.
\<close>

section \<open>The server and its clients\<close>

record ('resp, 'st, 'stub, 'reader, 'cb) link =
  stream_of :: "('stub, 'reader, 'cb) client_stream"
  call_state :: session_conn
  on_wire :: "('resp, 'st) responder_call list"
  shown :: "('resp, 'st, 'cb) client_stream_effect list"
  read_off :: "('resp, 'st) responder_call list"

record ('req, 'resp, 'st, 'scb, 'stub, 'reader, 'cb) world =
  handler_sys :: "('req, 'resp, 'st, 'scb) stream_sys"
  links :: "nat \<Rightarrow> ('resp, 'st, 'stub, 'reader, 'cb) link"
  group_history :: "('resp, 'st) group_event list"

text \<open>What client \<open>k\<close> and the server are to each other, and the world after a step of that client.\<close>

definition session_of ::
    "nat \<Rightarrow> ('req, 'resp, 'st, 'scb, 'stub, 'reader, 'cb) world
      \<Rightarrow> ('req, 'resp, 'st, 'scb, 'stub, 'reader, 'cb) session" where
  "session_of k w =
     \<lparr>srv = handler_sys w, cli = stream_of (links w k), conn = call_state (links w k), wire = on_wire (links w k),
      seen = shown (links w k), history = group_history w, taken = read_off (links w k)\<rparr>"

definition link_of ::
    "('req, 'resp, 'st, 'scb, 'stub, 'reader, 'cb) session \<Rightarrow> ('resp, 'st, 'stub, 'reader, 'cb) link" where
  "link_of s = \<lparr>stream_of = cli s, call_state = conn s, on_wire = wire s, shown = seen s, read_off = taken s\<rparr>"

definition with_link ::
    "nat \<Rightarrow> ('resp, 'st, 'stub, 'reader, 'cb) link \<Rightarrow> ('req, 'resp, 'st, 'scb, 'stub, 'reader, 'cb) world
      \<Rightarrow> ('req, 'resp, 'st, 'scb, 'stub, 'reader, 'cb) world" where
  "with_link k l w = w\<lparr>links := (links w)(k := l)\<rparr>"

text \<open>An event of the server: what it gives to a connection goes on the wire to that connection's client.\<close>

definition moved_link ::
    "('req, 'resp, 'st, 'scb) stream_sys \<Rightarrow> ('req, 'resp, 'st, 'scb) stream_sys
      \<Rightarrow> ('resp, 'st, 'stub, 'reader, 'cb) link \<Rightarrow> ('resp, 'st, 'stub, 'reader, 'cb) link" where
  "moved_link s s' l =
     l\<lparr>call_state := conn_after (call_state l) s', on_wire := on_wire l @ new_calls (call_state l) s s'\<rparr>"

definition server_moves ::
    "('req, 'resp, 'st, 'scb) stream_event \<Rightarrow> ('req, 'resp, 'st, 'scb) stream_sys
      \<Rightarrow> ('req, 'resp, 'st, 'scb, 'stub, 'reader, 'cb) world
      \<Rightarrow> ('req, 'resp, 'st, 'scb, 'stub, 'reader, 'cb) world" where
  "server_moves ev s' w =
     \<lparr>handler_sys = s', links = moved_link (handler_sys w) s' \<circ> links w,
      group_history = group_history w @ [group_event_of (handler_sys w) ev]\<rparr>"

text \<open>A stream that is not streaming is started on a new call; \<open>start_stream\<close> leaves one that is alone.\<close>

definition started_link ::
    "('stub, 'reader, 'cb) client_stream \<Rightarrow> ('resp, 'st, 'stub, 'reader, 'cb) link
      \<Rightarrow> ('resp, 'st, 'stub, 'reader, 'cb) link" where
  "started_link c l =
     (if streaming (stream_of l) then l
      else \<lparr>stream_of = c, call_state = NotYet, on_wire = [], shown = [], read_off = []\<rparr>)"

text \<open>\<open>stop_stream\<close> joins the thread, which first reads \<open>updates\<close> off the wire.\<close>

definition stopped_link ::
    "('stub, 'reader, 'cb) client_stream \<Rightarrow> ('resp, 'st, 'cb) client_stream_effect list \<Rightarrow> 'resp list
      \<Rightarrow> ('resp, 'st) responder_call list \<Rightarrow> ('resp, 'st, 'stub, 'reader, 'cb) link
      \<Rightarrow> ('resp, 'st, 'stub, 'reader, 'cb) link" where
  "stopped_link c es updates rest l =
     l\<lparr>stream_of := c, on_wire := rest, shown := shown l @ es, read_off := read_off l @ map OpWrite updates\<rparr>"

datatype ('req, 'resp, 'st, 'scb, 'stub) world_event =
    Serves "('req, 'resp, 'st, 'scb) stream_event"
  | Accepts nat "('req, 'resp, 'st, 'scb) stream_event"
  | Reads nat
  | Breaks nat 'st
  | Starts nat 'stub
  | Stops nat "'resp list" 'st

inductive world_step ::
    "('req, 'resp, 'st, 'scb, 'stub) world_event \<Rightarrow> ('req, 'resp, 'st, 'scb, 'stub, 'reader, 'cb) world
      \<Rightarrow> ('req, 'resp, 'st, 'scb, 'stub, 'reader, 'cb) world \<Rightarrow> bool" where
  serves: "allowed_step ev (handler_sys w) s' \<Longrightarrow> world_step (Serves ev) w (server_moves ev s' w)"
| accepts: "allowed_step ev (handler_sys w) s' \<Longrightarrow> group_event_of (handler_sys w) ev = Join p \<Longrightarrow>
    call_state (links w k) = NotYet \<Longrightarrow> stream_thread (stream_of (links w k)) = Running \<Longrightarrow>
    world_step (Accepts k ev) w (with_link k ((links w k)\<lparr>call_state := On p\<rparr>) (server_moves ev s' w))"
| reads: "session_step Read (session_of k w) s \<Longrightarrow> world_step (Reads k) w (with_link k (link_of s) w)"
| breaks: "session_step (Break st) (session_of k w) s \<Longrightarrow> world_step (Breaks k st) w (with_link k (link_of s) w)"
| starts: "start_stream stub (stream_of (links w k)) = Inr c \<Longrightarrow>
    world_step (Starts k stub) w (with_link k (started_link c (links w k)) w)"
| stops: "stop_stream updates st (stream_of (links w k)) = Inr (c, es) \<Longrightarrow>
    on_wire (links w k) = map OpWrite updates @ rest \<Longrightarrow>
    updates = [] \<or> stream_thread (stream_of (links w k)) = Running \<Longrightarrow>
    world_step (Stops k updates st) w (with_link k (stopped_link c es updates rest (links w k)) w)"

text \<open>A server that has just been built and clients that have not called yet.\<close>

definition world_start ::
    "'scb option \<Rightarrow> 'scb option \<Rightarrow> (nat \<Rightarrow> ('stub, 'reader, 'cb) client_stream)
      \<Rightarrow> ('req, 'resp, 'st, 'scb, 'stub, 'reader, 'cb) world" where
  "world_start on_conn on_del cs =
     \<lparr>handler_sys = stream_start on_conn on_del,
      links = (\<lambda>k. \<lparr>stream_of = cs k, call_state = NotYet, on_wire = [], shown = [], read_off = []\<rparr>),
      group_history = []\<rparr>"

section \<open>Every client is a session\<close>

definition world_inv ::
    "(nat \<Rightarrow> 'cb) \<Rightarrow> ('req, 'resp, 'st, 'scb, 'stub, 'reader, 'cb) world \<Rightarrow> bool" where
  "world_inv cb w \<longleftrightarrow> (\<forall>k. session_inv (cb k) (session_of k w) \<and> stream_ok (stream_of (links w k)))
     \<and> (\<forall>j k p. call_state (links w j) = On p \<longrightarrow> call_state (links w k) = On p \<longrightarrow> j = k)"

lemma session_of_simps [simp]:
  "srv (session_of k w) = handler_sys w" "cli (session_of k w) = stream_of (links w k)"
  "conn (session_of k w) = call_state (links w k)" "wire (session_of k w) = on_wire (links w k)"
  "seen (session_of k w) = shown (links w k)" "history (session_of k w) = group_history w"
  "taken (session_of k w) = read_off (links w k)"
  by (simp_all add: session_of_def)

lemma with_link_simps [simp]:
  "handler_sys (with_link k l w) = handler_sys w" "group_history (with_link k l w) = group_history w"
  "links (with_link k l w) j = (if j = k then l else links w j)"
  by (simp_all add: with_link_def)

lemma link_of_simps [simp]:
  "stream_of (link_of s) = cli s" "call_state (link_of s) = conn s" "on_wire (link_of s) = wire s"
  "shown (link_of s) = seen s" "read_off (link_of s) = taken s"
  by (simp_all add: link_of_def)

lemma session_of_other [simp]: "j \<noteq> k \<Longrightarrow> session_of j (with_link k l w) = session_of j w"
  by (simp add: session_of_def)

lemma server_moves_session:
  assumes "allowed_step ev (handler_sys w) s'"
  shows "session_step (Serve ev) (session_of k w) (session_of k (server_moves ev s' w))"
proof -
  have "session_of k (server_moves ev s' w) =
      session_of k w\<lparr>srv := s', conn := conn_after (conn (session_of k w)) s',
        wire := wire (session_of k w) @ new_calls (conn (session_of k w)) (srv (session_of k w)) s',
        history := history (session_of k w) @ [group_event_of (srv (session_of k w)) ev]\<rparr>"
    by (simp add: session_of_def server_moves_def moved_link_def)
  with assms serve [of ev "session_of k w" s'] show ?thesis by simp
qed

lemma accept_session:
  assumes "allowed_step ev (handler_sys w) s'" and "group_event_of (handler_sys w) ev = Join p"
    and "call_state (links w k) = NotYet" and "stream_thread (stream_of (links w k)) = Running"
  shows "session_step (Accept ev) (session_of k w)
     (session_of k (with_link k ((links w k)\<lparr>call_state := On p\<rparr>) (server_moves ev s' w)))"
proof -
  have "session_of k (with_link k ((links w k)\<lparr>call_state := On p\<rparr>) (server_moves ev s' w)) =
      session_of k w\<lparr>srv := s', conn := On p, history := history (session_of k w) @ [Join p]\<rparr>"
    using assms(2) by (simp add: session_of_def server_moves_def moved_link_def with_link_def)
  with assms accept [of ev "session_of k w" s' p] show ?thesis by simp
qed

lemma client_session: "session_step e (session_of k w) s \<Longrightarrow> (e = Read \<or> e = Break st) \<Longrightarrow>
    session_of k (with_link k (link_of s) w) = s \<and> conn s = call_state (links w k)
    \<and> (stream_ok (stream_of (links w k)) \<longrightarrow> stream_ok (cli s))"
  by (auto simp: session_of_def run_stream_thread_fields stream_ok_def streaming_def elim!: readE breakE)

text \<open>Only a connection of the server is a client's, so one that joins is nobody's.\<close>

lemma joining_is_new:
  assumes "session_inv cb (session_of j w)" and "allowed_step ev (handler_sys w) s'"
    and "group_event_of (handler_sys w) ev = Join p"
  shows "call_state (links w j) \<noteq> On p"
proof
  assume "call_state (links w j) = On p"
  with assms(1) have "p \<in> dom (sessions (group_of (handler_sys w)))"
    by (auto simp: session_inv_def group_of_def)
  moreover have "group_step (Join p) (group_of (handler_sys w)) (group_of s')"
    using assms handler_simulates [of "handler_sys w" ev s'] by (simp add: session_inv_def)
  ultimately show False by simp
qed

lemma conn_after_On: "conn_after c s = On p \<Longrightarrow> c = On p"
  by (auto simp: conn_after_def split: session_conn.splits if_splits)

lemma stop_stream_seen:
  assumes "stop_stream updates st c = Inr (c', es)" and "update_callback c = Some cb"
    and "updates = [] \<or> stream_thread c = Running" and "stream_ok c"
  shows "updates_seen es = updates \<and> update_callback c' = Some cb"
proof -
  have seen: "updates_seen (map (OnUpdate cb) us) = us" for us by (induction us) auto
  from assms show ?thesis
    by (auto simp: stop_stream_def join_stream_thread_def client_stream_delivers_in_order stream_ok_def seen
        split: if_splits thread_state.splits option.splits)
qed

lemma updates_of_writes [simp]: "updates_of (map OpWrite us) = us"
  by (induction us) auto

lemma start_stream_fields:
  "start_stream stub c = Inr c' \<Longrightarrow> update_callback c' = update_callback c"
  by (auto simp: start_stream_def split: if_splits)

lemma start_link_inv:
  assumes "start_stream stub (stream_of (links w k)) = Inr c" and "session_inv cb (session_of k w)"
  shows "session_inv cb (session_of k (with_link k (started_link c (links w k)) w))"
  using assms start_stream_fields [OF assms(1)]
  by (auto simp: session_inv_def started_link_def)

lemma stop_link_inv:
  assumes "stop_stream updates st (stream_of (links w k)) = Inr (c, es)"
    and "on_wire (links w k) = map OpWrite updates @ rest"
    and "updates = [] \<or> stream_thread (stream_of (links w k)) = Running"
    and "session_inv cb (session_of k w)" and "stream_ok (stream_of (links w k))"
  shows "session_inv cb (session_of k (with_link k (stopped_link c es updates rest (links w k)) w))"
  using assms stop_stream_seen [OF assms(1) _ assms(3,5), of cb]
  by (auto simp: session_inv_def stopped_link_def)

text \<open>A client's own step replaces its link and connects it to nothing new.\<close>

lemma world_inv_link:
  assumes "world_inv cb w" and "session_inv (cb k) (session_of k (with_link k l w))" and "stream_ok (stream_of l)"
    and "call_state l = NotYet \<or> call_state l = call_state (links w k)"
  shows "world_inv cb (with_link k l w)"
proof -
  have "session_inv (cb j) (session_of j (with_link k l w)) \<and> stream_ok (stream_of (links (with_link k l w) j))" for j
    using assms(1-3) by (cases "j = k") (simp_all add: world_inv_def)
  moreover have "call_state (links w i) = On p" if "call_state (links (with_link k l w) i) = On p" for i p
    using that assms(4) by (auto split: if_splits)
  ultimately show ?thesis
    using assms(1) unfolding world_inv_def by blast
qed

lemma world_inv_step: "world_step e w w' \<Longrightarrow> world_inv cb w \<Longrightarrow> world_inv cb w'"
proof (induction rule: world_step.induct)
  case (serves ev w s')
  then have "session_inv (cb k) (session_of k (server_moves ev s' w))" for k
    using session_inv_step [OF server_moves_session [OF serves.hyps]] by (simp add: world_inv_def)
  with serves show ?case by (auto simp: world_inv_def server_moves_def moved_link_def dest!: conn_after_On)
next
  case (accepts ev w s' p k)
  let ?w = "with_link k ((links w k)\<lparr>call_state := On p\<rparr>) (server_moves ev s' w)"
  have "session_inv (cb j) (session_of j ?w)" for j
    using accepts session_inv_step [OF accept_session [OF accepts.hyps]]
      session_inv_step [OF server_moves_session [OF accepts.hyps(1)]]
    by (cases "j = k") (simp_all add: world_inv_def)
  moreover have "call_state (links w j) \<noteq> On p" for j
    using accepts joining_is_new by (metis world_inv_def)
  ultimately show ?case
    using accepts by (auto simp: world_inv_def server_moves_def moved_link_def dest!: conn_after_On split: if_splits)
next
  case (reads k w s)
  from client_session [OF reads.hyps] reads session_inv_step [OF reads.hyps, of "cb k"] show ?case
    by (intro world_inv_link) (simp_all add: world_inv_def)
next
  case (breaks st k w s)
  from client_session [OF breaks.hyps] breaks session_inv_step [OF breaks.hyps, of "cb k"] show ?case
    by (intro world_inv_link) (simp_all add: world_inv_def)
next
  case (starts stub w k c)
  then have inv: "session_inv (cb k) (session_of k w)" and ok: "stream_ok (stream_of (links w k))"
    by (simp_all add: world_inv_def)
  from start_stream_ok [OF ok, of stub] starts.hyps have "stream_ok (stream_of (started_link c (links w k)))"
    by (simp add: started_link_def ok)
  with start_link_inv [OF starts.hyps inv] starts.prems show ?case
    by (intro world_inv_link) (simp_all add: started_link_def)
next
  case (stops updates st w k c es rest)
  then have inv: "session_inv (cb k) (session_of k w)" and ok: "stream_ok (stream_of (links w k))"
    by (simp_all add: world_inv_def)
  from stop_stream_ok [OF ok, of updates st] stops.hyps(1) have "stream_ok c"
    by force
  with stop_link_inv [OF stops.hyps inv ok] stops.prems show ?case
    by (intro world_inv_link) (simp_all add: stopped_link_def)
qed

lemma world_inv_start:
  "(\<And>k. update_callback (cs k) = Some (cb k) \<and> stream_ok (cs k)) \<Longrightarrow> world_inv cb (world_start on_conn on_del cs)"
  by (simp add: world_inv_def world_start_def session_inv_def runs_nil)

lemma world_inv_runs: "runs world_step w es w' \<Longrightarrow> world_inv cb w \<Longrightarrow> world_inv cb w'"
  by (induction rule: runs.induct) (auto intro: world_inv_step)

text \<open>Clients as they are before their first call, with an update callback set.\<close>

definition idle_client :: "('stub, 'reader, 'cb) client_stream \<Rightarrow> bool" where
  "idle_client c \<longleftrightarrow> stream_ok c \<and> update_callback c \<noteq> None"

lemma idle_clients_inv:
  assumes "\<forall>k. idle_client (cs k)"
  shows "\<exists>cb. world_inv cb (world_start on_conn on_del cs)"
proof (intro exI world_inv_start)
  fix k
  from assms show "update_callback (cs k) = Some (the (update_callback (cs k))) \<and> stream_ok (cs k)"
    by (auto simp: idle_client_def)
qed

lemma world_runs_inv:
  assumes "runs world_step (world_start on_conn on_del cs) es w" and "\<forall>k. idle_client (cs k)"
  shows "\<exists>cb. world_inv cb w"
  using idle_clients_inv [OF assms(2)] world_inv_runs [OF assms(1)] by blast

lemma link_calls:
  assumes "world_inv cb w" and "call_state (links w k) = On p"
  shows "p \<in> set (um_keys (active (conn_of (handler_sys w))))"
    and "read_off (links w k) @ on_wire (links w k) = calls_on p (trace (handler_sys w))"
    and "sessions (group_of (handler_sys w)) p = Some (read_off (links w k) @ on_wire (links w k))"
proof -
  have "session_inv (cb k) (session_of k w)" using assms(1) by (simp add: world_inv_def)
  with assms(2) show "p \<in> set (um_keys (active (conn_of (handler_sys w))))"
    "read_off (links w k) @ on_wire (links w k) = calls_on p (trace (handler_sys w))"
    by (simp_all add: session_inv_def)
  then show "sessions (group_of (handler_sys w)) p = Some (read_off (links w k) @ on_wire (links w k))"
    by (simp add: group_of_def)
qed

lemma link_seen_and_wire:
  assumes "world_inv cb w" and "call_state (links w k) = On p"
  shows "updates_seen (shown (links w k)) @ updates_of (on_wire (links w k))
     = updates_of (given_since_join p (group_history w))"
proof -
  have inv: "session_inv (cb k) (session_of k w)" using assms(1) by (simp add: world_inv_def)
  with sessions_given [of "group_history w" "group_of (handler_sys w)" p] link_calls(3) [OF assms]
  have "read_off (links w k) @ on_wire (links w k) = given_since_join p (group_history w)"
    by (simp add: session_inv_def)
  with inv show ?thesis by (simp add: session_inv_def flip: updates_of_append)
qed

section \<open>Connecting again\<close>

text \<open>An activation can happen at any time; it leaves a connection waiting and drops none.\<close>

lemma activation_possible:
  fixes s :: "('req, 'resp, 'st, 'cb) stream_sys"
  assumes "spec_inv s"
  shows "\<exists>s' p r. allowed_step (EvActivate bump_new bump_new r0) s s' \<and> next_conn (conn_of s') = Some (p, r)
     \<and> set (um_keys (active (conn_of s))) \<subseteq> set (um_keys (active (conn_of s')))"
proof -
  have ci: "connections_inv (conn_of s)" using assms by (simp add: spec_inv_def stream_inv_def)
  obtain c' and es :: "('req, 'resp, 'st, 'cb) stream_effect list" where b: "activate_body bump_new bump_new r0 (connection_callback (hdl s)) (conn_of s) = (es, c')"
    by (rule prod.exhaust)
  then have "activate_next bump_new bump_new r0 (hdl s) = ((hdl s)\<lparr>conns := (conns (hdl s))\<lparr>data := c'\<rparr>\<rparr>, es)"
    by (simp add: activate_next_conns)
  then have "allowed_step (EvActivate bump_new bump_new r0) s
      (record_effects ((hdl s)\<lparr>conns := (conns (hdl s))\<lparr>data := c'\<rparr>\<rparr>) es s)"
    by (simp add: allowed_step_def)
  moreover from activate_body_fields [OF ci operator_new_bump operator_new_bump b] obtain p where
    "next_conn c' = Some (p, \<lparr>request = r0\<rparr>)" "um_keys (active c') = live_connections (conn_of s)" by blast
  ultimately show ?thesis by (fastforce simp: record_effects_def live_connections_def)
qed

text \<open>A client stops its stream, if it has one, and starts another.\<close>

lemma restart_runs:
  fixes w :: "('req, 'resp, 'st, 'scb, 'stub, 'reader, 'cb) world"
  assumes "stream_ok (stream_of (links w k))"
  shows "\<exists>l. runs world_step w [Stops k [] st, Starts k stub] (with_link k l w) \<and> stream_thread (stream_of l) = Running
     \<and> call_state l = NotYet \<and> on_wire l = [] \<and> shown l = []"
proof -
  from stop_stream_ok [OF assms, of "[]" st] obtain c and es :: "('resp, 'st, 'cb) client_stream_effect list" where
    c: "stop_stream [] st (stream_of (links w k)) = Inr (c, es)" "stream_ok c" "\<not> streaming c" by blast
  let ?l = "stopped_link c es [] (on_wire (links w k)) (links w k)"
  have stop: "world_step (Stops k [] st) w (with_link k ?l w)" by (rule stops [OF c(1)]) simp_all
  have "start_stream stub c = Inr (c\<lparr>context_of := Some Open, reader := Some (init_func c stub), stream_thread := Running\<rparr>)"
    using c(2,3) by (simp add: start_stream_def stream_ok_def)
  with c(3) starts [of stub "with_link k ?l w" k] have
    "world_step (Starts k stub) (with_link k ?l w)
      (with_link k \<lparr>stream_of = c\<lparr>context_of := Some Open, reader := Some (init_func c stub), stream_thread := Running\<rparr>,
         call_state = NotYet, on_wire = [], shown = [], read_off = []\<rparr> w)"
    by (simp add: stopped_link_def started_link_def with_link_def)
  with stop have "runs world_step w [Stops k [] st, Starts k stub]
      (with_link k \<lparr>stream_of = c\<lparr>context_of := Some Open, reader := Some (init_func c stub), stream_thread := Running\<rparr>,
         call_state = NotYet, on_wire = [], shown = [], read_off = []\<rparr> w)"
    by (blast intro: runs_Cons runs_nil)
  then show ?thesis by (intro exI conjI) (assumption, simp_all)
qed

lemma conn_after_stays:
  "set (um_keys (active (conn_of s))) \<subseteq> set (um_keys (active (conn_of s'))) \<Longrightarrow> q \<in> set (um_keys (active (conn_of s))) \<Longrightarrow>
     conn_after (On q) s' = On q"
  by (auto simp: conn_after_def)

section \<open>Properties\<close>

text \<open>
  Claim C2. From the server's \<open>write\<close> to the update callbacks of all clients, whatever clients come, stop,
  start again, fail and go: on a connected client, the updates its callback has been given since it
  started its stream, followed by those still on the wire, are the updates of every broadcast and of
  every write to this client since it joined, each once and in order; and no two clients share a
  connection.
\<close>

theorem every_client_sees_what_server_writes:
  assumes "runs world_step (world_start on_conn on_del cs) es w" and "\<forall>k. idle_client (cs k)"
    and "call_state (links w k) = On p"
  shows "updates_seen (shown (links w k)) @ updates_of (on_wire (links w k))
       = updates_of (given_since_join p (group_history w))
     \<and> (\<forall>j. call_state (links w j) = On p \<longrightarrow> j = k)"
proof -
  from world_runs_inv [OF assms(1,2)] obtain cb where inv: "world_inv cb w" by blast
  with link_seen_and_wire [OF inv assms(3)] assms(3) show ?thesis by (auto simp: world_inv_def)
qed

text \<open>
  Claim C4. A \<open>write\<close> that does not have to wait puts its update on the wire to the client it names, or
  to all connected clients when it names none, and on no other wire, and no client is disconnected
  by it.
\<close>

theorem write_reaches_its_clients:
  assumes "runs world_step (world_start on_conn on_del cs) es w" and "\<forall>k. idle_client (cs k)"
    and "world_step (Serves (EvWrite nt u client)) w w'" and "call_state (links w k) = On p"
  shows "call_state (links w' k) = On p
     \<and> on_wire (links w' k) = on_wire (links w k) @ (if client = nullptr \<or> client = p then [OpWrite u] else [])"
proof -
  from world_runs_inv [OF assms(1,2)] obtain cb where inv: "world_inv cb w" by blast
  from assms(3) obtain s' where step: "allowed_step (EvWrite nt u client) (handler_sys w) s'"
    and w': "w' = server_moves (EvWrite nt u client) s' w"
    by cases
  note calls = link_calls [OF inv assms(4)]
  from inv have "spec_inv (handler_sys w)" by (simp add: world_inv_def session_inv_def)
  with handler_simulates [OF _ step] have group:
    "group_step (send_event (OpWrite u) client (conn_of (handler_sys w))) (group_of (handler_sys w)) (group_of s')"
    by simp
  have "p \<noteq> nullptr"
    using calls(1) \<open>spec_inv (handler_sys w)\<close>
    by (auto simp: spec_inv_def stream_inv_def connections_inv_def live_connections_def)
  with group calls have "sessions (group_of s') p = Some (read_off (links w k) @ on_wire (links w k)
      @ (if client = nullptr \<or> client = p then [OpWrite u] else []))"
    by (auto simp: send_event_def split: if_splits)
  then have "p \<in> set (um_keys (active (conn_of s')))" and
    "calls_on p (trace s') = calls_on p (trace (handler_sys w))
      @ (if client = nullptr \<or> client = p then [OpWrite u] else [])"
    using calls(2) by (auto simp: group_of_def split: if_splits)
  with new_calls_split [OF \<open>spec_inv (handler_sys w)\<close> step calls(1)] w' assms(4) show ?thesis
    by (simp add: server_moves_def moved_link_def conn_after_def)
qed


section \<open>Two clients, one of which starts again\<close>

text \<open>\<open>world_do\<close> computes a step from its event.\<close>

fun world_do ::
    "('req, 'resp, 'st, 'scb, 'stub) world_event \<Rightarrow> ('req, 'resp, 'st, 'scb, 'stub, 'reader, 'cb) world
      \<Rightarrow> ('req, 'resp, 'st, 'scb, 'stub, 'reader, 'cb) world option" where
  "world_do (Serves ev) w =
     (case stream_step ev (handler_sys w) of
        Some (Inr s') \<Rightarrow> if environment_allows (handler_sys w) ev then Some (server_moves ev s' w) else None
      | _ \<Rightarrow> None)"
| "world_do (Accepts k ev) w =
     (case (stream_step ev (handler_sys w), group_event_of (handler_sys w) ev) of
        (Some (Inr s'), Join p) \<Rightarrow>
          if environment_allows (handler_sys w) ev \<and> call_state (links w k) = NotYet
             \<and> stream_thread (stream_of (links w k)) = Running
          then Some (with_link k ((links w k)\<lparr>call_state := On p\<rparr>) (server_moves ev s' w)) else None
      | _ \<Rightarrow> None)"
| "world_do (Reads k) w = map_option (\<lambda>s. with_link k (link_of s) w) (session_do Read (session_of k w))"
| "world_do (Starts k stub) w =
     (case start_stream stub (stream_of (links w k)) of
        Inr c \<Rightarrow> Some (with_link k (started_link c (links w k)) w)
      | Inl e \<Rightarrow> None)"
| "world_do (Stops k updates st) w =
     (if updates = [] then
        (case stop_stream updates st (stream_of (links w k)) of
           Inr (c, es) \<Rightarrow> Some (with_link k (stopped_link c es updates (on_wire (links w k)) (links w k)) w)
         | Inl e \<Rightarrow> None)
      else None)"
| "world_do (Breaks k st) w = None"

lemma world_do_step: "world_do e w = Some w' \<Longrightarrow> world_step e w w'"
proof (cases e)
  case (Reads k)
  then show "world_do e w = Some w' \<Longrightarrow> world_step e w w'"
    using session_do_step [of Read "session_of k w"] by (auto intro: reads)
next
  case (Stops k updates st)
  then show "world_do e w = Some w' \<Longrightarrow> world_step e w w'"
    by (auto intro!: stops split: if_splits sum.splits)
qed (auto intro!: serves accepts starts simp: allowed_step_def
    split: option.splits sum.splits group_event.splits if_splits)

fun world_does ::
    "('req, 'resp, 'st, 'scb, 'stub) world_event list \<Rightarrow> ('req, 'resp, 'st, 'scb, 'stub, 'reader, 'cb) world
      \<Rightarrow> ('req, 'resp, 'st, 'scb, 'stub, 'reader, 'cb) world option" where
  "world_does [] w = Some w"
| "world_does (e # es) w = (case world_do e w of None \<Rightarrow> None | Some w' \<Rightarrow> world_does es w')"

lemma world_does_runs: "world_does es w = Some w' \<Longrightarrow> runs world_step w es w'"
  by (induction es arbitrary: w) (auto intro: runs_Cons world_do_step runs_nil split: option.splits)

lemma world_does_append:
  "world_does (es @ fs) w = (case world_does es w of None \<Rightarrow> None | Some w' \<Rightarrow> world_does fs w')"
  by (induction es arbitrary: w) (auto split: option.splits)

definition callers :: "nat \<Rightarrow> (nat, nat, nat) client_stream" where
  "callers k = (new_client_stream Suc)\<lparr>update_callback := Some (90 + k)\<rparr>"

lemma callers_idle: "\<forall>k. idle_client (callers k)"
  by (simp add: callers_def idle_client_def new_client_stream_def stream_ok_def streaming_def)

definition both_connect :: "(nat, nat, nat, nat, nat) world_event list" where
  "both_connect = [Starts 0 4, Starts 1 4, Serves (EvActivate bump_new bump_new 0),
     Accepts 0 (EvActivate bump_new bump_new 0), Accepts 1 (EvActivate bump_new bump_new 0)]"

text \<open>An update for both; the first client reads it, starts again and is given another update.\<close>

definition first_starts_again :: "(nat, nat, nat, nat, nat) world_event list" where
  "first_starts_again = [Serves (EvWrite bump_new 5 0), Reads 0, Serves (EvSync 4 True), Serves (EvSync 5 True),
     Stops 0 [] 1, Starts 0 4, Accepts 0 (EvActivate bump_new bump_new 0), Serves (EvWrite bump_new 6 3), Reads 0]"

text \<open>The clients that have not called are left as they are.\<close>

definition unused_links :: "nat \<Rightarrow> (nat, nat, nat, nat, nat) link" where
  "unused_links k = \<lparr>stream_of = callers k, call_state = NotYet, on_wire = [], shown = [], read_off = []\<rparr>"

lemma moved_unused [simp]: "moved_link s s' \<circ> unused_links = unused_links"
  by (simp add: moved_link_def unused_links_def conn_after_def new_calls_def fun_eq_iff)

definition callers_start :: "(nat, nat, nat, nat, nat, nat, nat) world" where
  "callers_start = world_start (Some 8) (Some 9) callers"

lemma callers_start_eq:
  "callers_start = \<lparr>handler_sys = stream_start (Some 8) (Some 9), links = unused_links, group_history = []\<rparr>"
  by (simp add: callers_start_def world_start_def unused_links_def fun_eq_iff)

lemmas world_eval = stream_eval callers_start_eq server_moves_def with_link_def link_of_def session_of_def
  unused_links_def fun_upd_comp moved_link_def started_link_def stopped_link_def callers_def new_client_stream_def start_stream_def streaming_def stop_stream_def
  join_stream_thread_def conn_after_def new_calls_def calls_on_def send_event_def sync_event_def deliver_update_def
  deliver_finish_def eval_nat_numeral

lemma both_connect_run:
  "\<exists>w. world_does both_connect callers_start = Some w
     \<and> call_state (links w 0) = On 1 \<and> call_state (links w 1) = On 2 \<and> on_wire (links w 0) = [] \<and> on_wire (links w 1) = []
     \<and> (\<exists>w'. world_do (Serves (EvWrite bump_new 5 2)) w = Some w')"
  by (simp add: both_connect_def world_eval)

lemma starts_again_run:
  "\<exists>w. world_does (both_connect @ first_starts_again) callers_start = Some w
     \<and> call_state (links w 0) = On 3 \<and> call_state (links w 1) = On 2
     \<and> shown (links w 0) = [OnUpdate 90 6] \<and> on_wire (links w 0) = [] \<and> on_wire (links w 1) = [OpWrite 5]
     \<and> shown (links w 1) = []"
  by (simp add: both_connect_def first_starts_again_def world_eval) auto

lemma callers_run:
  "world_does es callers_start = Some w \<Longrightarrow> runs world_step (world_start (Some 8) (Some 9) callers) es w"
  unfolding callers_start_def by (rule world_does_runs)

theorem every_client_sees_what_server_writes_witness:
  "\<exists>w. runs world_step (world_start (Some (8 :: nat)) (Some 9) callers) (both_connect @ first_starts_again) w
     \<and> call_state (links w 0) = On 3 \<and> updates_of (given_since_join 3 (group_history w)) = [6]
     \<and> call_state (links w 1) = On 2 \<and> updates_of (given_since_join 2 (group_history w)) = [5]"
proof -
  obtain w where w: "world_does (both_connect @ first_starts_again) callers_start = Some w"
    "call_state (links w 0) = On 3" "call_state (links w 1) = On 2"
    "shown (links w 0) = [OnUpdate 90 6]" "on_wire (links w 0) = []" "on_wire (links w 1) = [OpWrite 5]"
    "shown (links w 1) = []"
    using starts_again_run by blast
  note run = callers_run [OF w(1)]
  have "updates_of (given_since_join 3 (group_history w)) = [6]"
    using every_client_sees_what_server_writes [OF run callers_idle w(2)] w(4,5) by simp
  moreover have "updates_of (given_since_join 2 (group_history w)) = [5]"
    using every_client_sees_what_server_writes [OF run callers_idle w(3)] w(6,7) by simp
  ultimately show ?thesis using run w(2,3) by blast
qed

theorem write_reaches_its_clients_witness:
  "\<exists>w w'. runs world_step (world_start (Some (8 :: nat)) (Some 9) callers) both_connect w
     \<and> world_step (Serves (EvWrite bump_new 5 2)) w w'
     \<and> on_wire (links w' 0) = [] \<and> on_wire (links w' 1) = [OpWrite 5]"
proof -
  obtain w w' where w: "world_does both_connect callers_start = Some w"
    "call_state (links w 0) = On 1" "call_state (links w 1) = On 2"
    "on_wire (links w 0) = []" "on_wire (links w 1) = []" "world_do (Serves (EvWrite bump_new 5 2)) w = Some w'"
    using both_connect_run by blast
  note run = callers_run [OF w(1)] and step = world_do_step [OF w(6)]
  have "on_wire (links w' 0) = []" "on_wire (links w' 1) = [OpWrite 5]"
    using write_reaches_its_clients [OF run callers_idle step w(2)]
      write_reaches_its_clients [OF run callers_idle step w(3)] w(4,5) by simp_all
  with run step show ?thesis by blast
qed


end
