(* ===== verification/Ltb_Bits.thy ===== *)
theory Ltb_Bits
  imports "HOL-Library.Word" Grpcw_Prelude
begin

text \<open>
  The bit-level helpers of ltb-util: flags made from enumerators (ltb/util/enum_bits.hpp), the
  combination of hash values (hash_utils.hpp) and the comparison of floating-point numbers by their
  bits (google/AlmostEquals.h, comparison_utils.hpp).

  Unsigned integers are words of their width. A shift by the width or more is undefined in the source
  and \<open>None\<close> here. An enumerator is its number; a floating-point number is its bit pattern, at any
  width and number of fraction bits.
\<close>

unbundle bit_operations_syntax

section \<open>Flags\<close>

definition to_bits :: "nat \<Rightarrow> 'w::len word option" where
  "to_bits type = (if type < LENGTH('w) then Some (push_bit type 1) else None)"

fun to_bits_many :: "nat \<Rightarrow> nat list \<Rightarrow> 'w::len word option" where
  "to_bits_many type [] = to_bits type"
| "to_bits_many type (t # types) =
     (case (to_bits type, to_bits_many t types) of
        (Some a, Some b) \<Rightarrow> Some (a OR b)
      | _ \<Rightarrow> None)"

definition toggle_flag :: "'w::len word \<Rightarrow> nat \<Rightarrow> 'w word option" where
  "toggle_flag flags flag = map_option (\<lambda>b. flags XOR b) (to_bits flag)"

definition has_flag :: "'w::len word \<Rightarrow> nat \<Rightarrow> bool option" where
  "has_flag flags flag = map_option (\<lambda>b. flags AND b \<noteq> 0) (to_bits flag)"

definition all_bits :: "'w::len word" where
  "all_bits = NOT 0"

lemma has_flag_bit: "n < LENGTH('w) \<Longrightarrow> has_flag (flags :: 'w::len word) n = Some (bit flags n)"
  by (simp add: has_flag_def to_bits_def and_exp_eq_0_iff_not_bit push_bit_of_1)

lemma toggle_flag_bits:
  "n < LENGTH('w) \<Longrightarrow> \<exists>w. toggle_flag (flags :: 'w::len word) n = Some w
     \<and> (\<forall>m < LENGTH('w). bit w m = (if m = n then \<not> bit flags m else bit flags m))"
  by (auto simp: toggle_flag_def to_bits_def bit_simps)

lemma to_bits_many_bits:
  "\<forall>t \<in> set (type # types). t < LENGTH('w) \<Longrightarrow>
    \<exists>w :: 'w::len word. to_bits_many type types = Some w \<and> (\<forall>m < LENGTH('w). bit w m = (m \<in> set (type # types)))"
proof (induction types arbitrary: type)
  case Nil
  then show ?case by (auto simp: to_bits_def bit_simps)
next
  case (Cons t types)
  from Cons.prems obtain w :: "'w word" where
    "to_bits_many t types = Some w" "\<forall>m < LENGTH('w). bit w m = (m \<in> set (t # types))"
    using Cons.IH [of t] by auto
  with Cons.prems show ?case by (auto simp: to_bits_def bit_simps)
qed

section \<open>Hash values\<close>

text \<open>The hash of the value is \<open>hasher v\<close>; sizes are 64 bits wide.\<close>

definition hash_combine :: "('v \<Rightarrow> 64 word) \<Rightarrow> 64 word \<Rightarrow> 'v \<Rightarrow> 64 word" where
  "hash_combine hasher seed v = seed XOR (hasher v + 0x9e3779b9 + push_bit 6 seed + drop_bit 2 seed)"

section \<open>Floating-point numbers by their bits\<close>

definition kSignBitMask :: "'w::len word" where
  "kSignBitMask = push_bit (LENGTH('w) - 1) 1"

text \<open>\<open>digits\<close> is \<open>std::numeric_limits::digits\<close>, 24 for float and 53 for double.\<close>

definition kBitCount :: "nat \<Rightarrow> nat" where
  "kBitCount size_of_RawType = 8 * size_of_RawType"

definition kFractionBitCount_of :: "nat \<Rightarrow> nat" where
  "kFractionBitCount_of digits = digits - 1"

definition kExponentBitCount :: "'w::len itself \<Rightarrow> nat \<Rightarrow> nat" where
  "kExponentBitCount t kFractionBitCount = LENGTH('w) - 1 - kFractionBitCount"

definition kFractionBitMask :: "nat \<Rightarrow> 'w::len word" where
  "kFractionBitMask kFractionBitCount = drop_bit (kExponentBitCount TYPE('w) kFractionBitCount + 1) (NOT 0)"

definition kExponentBitMask :: "nat \<Rightarrow> 'w::len word" where
  "kExponentBitMask kFractionBitCount = NOT (kSignBitMask OR kFractionBitMask kFractionBitCount)"

definition kMaxUlps :: nat where
  "kMaxUlps = 4"

definition Infinity :: "nat \<Rightarrow> 'w::len word" where
  "Infinity k = kExponentBitMask k"

text \<open>\<open>FLT_MAX\<close> and \<open>DBL_MAX\<close>.\<close>

definition Max_float :: "32 word" where
  "Max_float = 0x7F7FFFFF"

definition Max_double :: "64 word" where
  "Max_double = 0x7FEFFFFFFFFFFFFF"

definition exponent_bits :: "nat \<Rightarrow> 'w::len word \<Rightarrow> 'w word" where
  "exponent_bits k x = kExponentBitMask k AND x"

definition fraction_bits :: "nat \<Rightarrow> 'w::len word \<Rightarrow> 'w word" where
  "fraction_bits k x = kFractionBitMask k AND x"

definition sign_bit :: "'w::len word \<Rightarrow> 'w word" where
  "sign_bit x = kSignBitMask AND x"

definition is_nan :: "nat \<Rightarrow> 'w::len word \<Rightarrow> bool" where
  "is_nan k x \<longleftrightarrow> exponent_bits k x = kExponentBitMask k \<and> fraction_bits k x \<noteq> 0"

definition SignAndMagnitudeToBiased :: "'w::len word \<Rightarrow> 'w word" where
  "SignAndMagnitudeToBiased sam = (if kSignBitMask AND sam \<noteq> 0 then NOT sam + 1 else kSignBitMask OR sam)"

definition DistanceBetweenSignAndMagnitudeNumbers :: "'w::len word \<Rightarrow> 'w word \<Rightarrow> 'w word" where
  "DistanceBetweenSignAndMagnitudeNumbers sam1 sam2 =
     (let biased1 = SignAndMagnitudeToBiased sam1; biased2 = SignAndMagnitudeToBiased sam2
      in if biased1 \<ge> biased2 then biased1 - biased2 else biased2 - biased1)"

definition FloatingPoint_AlmostEquals :: "nat \<Rightarrow> 'w::len word \<Rightarrow> 'w word \<Rightarrow> bool" where
  "FloatingPoint_AlmostEquals k x rhs =
     (if is_nan k x \<or> is_nan k rhs then False
      else unat (DistanceBetweenSignAndMagnitudeNumbers x rhs) \<le> kMaxUlps)"

definition AlmostEquals :: "nat \<Rightarrow> 'w::len word \<Rightarrow> 'w word \<Rightarrow> bool" where
  "AlmostEquals k first second = FloatingPoint_AlmostEquals k first second"

text \<open>The two types it is used at: 23 fraction bits of 32, 52 of 64.\<close>

definition almost_equal_float :: "32 word \<Rightarrow> 32 word \<Rightarrow> bool" where
  "almost_equal_float a b = AlmostEquals 23 a b"

definition almost_equal_double :: "64 word \<Rightarrow> 64 word \<Rightarrow> bool" where
  "almost_equal_double a b = AlmostEquals 52 a b"

section \<open>The number a bit pattern stands for in the order of floating-point numbers\<close>

text \<open>Sign and magnitude: how many representable numbers away from zero.\<close>

definition ulps :: "'w::len word \<Rightarrow> int" where
  "ulps x = (if uint x < 2 ^ (LENGTH('w) - 1) then uint x else 2 ^ (LENGTH('w) - 1) - uint x)"

lemma half_range: "(2::int) ^ LENGTH('w::len) = 2 * 2 ^ (LENGTH('w) - 1)"
  by (metis One_nat_def Suc_pred' len_gt_0 power_Suc)

lemma sign_mask_and: "(kSignBitMask AND x = 0) \<longleftrightarrow> uint (x :: 'w::len word) < 2 ^ (LENGTH('w) - 1)"
proof -
  have "(kSignBitMask AND x = 0) \<longleftrightarrow> \<not> bit x (LENGTH('w) - 1)"
    by (simp add: kSignBitMask_def and.commute and_exp_eq_0_iff_not_bit push_bit_of_1)
  also have "\<dots> \<longleftrightarrow> \<not> bit (uint x) (LENGTH('w) - 1)" by (simp add: bit_uint_iff)
  also have "\<dots> \<longleftrightarrow> uint x < 2 ^ (LENGTH('w) - 1)"
  proof (cases "uint x < 2 ^ (LENGTH('w) - 1)")
    case False
    then have "uint x div 2 ^ (LENGTH('w) - 1) = 1"
      using uint_lt2p [of x] half_range [where 'w = 'w] by (intro int_div_pos_eq [where r = "uint x - 2 ^ (LENGTH('w) - 1)"]) auto
    with False show ?thesis by (simp add: bit_iff_odd)
  qed (simp add: bit_iff_odd div_pos_pos_trivial)
  finally show ?thesis .
qed

lemma uint_biased: "uint (SignAndMagnitudeToBiased (x :: 'w::len word)) = 2 ^ (LENGTH('w) - 1) + ulps x"
proof (cases "kSignBitMask AND x = 0")
  case True
  then have pos: "uint x < 2 ^ (LENGTH('w) - 1)" by (simp add: sign_mask_and)
  have "kSignBitMask OR x = kSignBitMask + x" using True by (simp add: disjunctive_add_eq_or)
  moreover have "uint (kSignBitMask :: 'w word) = 2 ^ (LENGTH('w) - 1)"
    by (simp add: kSignBitMask_def push_bit_of_1 uint_2p word_gt_0)
  ultimately have "uint (kSignBitMask OR x) = 2 ^ (LENGTH('w) - 1) + uint x"
    using pos half_range [where 'w = 'w] by (simp add: uint_word_ariths)
  with True pos show ?thesis by (simp add: SignAndMagnitudeToBiased_def ulps_def)
next
  case False
  then have neg: "2 ^ (LENGTH('w) - 1) \<le> uint x" by (simp add: sign_mask_and)
  have "NOT x + 1 = - x" by (simp add: minus_eq_not_plus_1)
  moreover have "uint (- x) = 2 ^ LENGTH('w) - uint x"
  proof -
    have "0 < uint x" using neg zero_less_power [of "2::int" "LENGTH('w) - 1"] by linarith
    then show ?thesis using uint_lt2p [of x] by (simp add: uint_word_ariths mod_pos_pos_trivial zmod_zminus1_eq_if)
  qed
  ultimately show ?thesis using False neg half_range [where 'w = 'w] by (simp add: SignAndMagnitudeToBiased_def ulps_def)
qed

lemma uint_sub_le: "b \<le> a \<Longrightarrow> uint (a - b) = uint a - uint (b :: 'w::len word)"
  using uint_lt2p [of a] by (simp add: word_le_def uint_word_ariths mod_pos_pos_trivial)

lemma uint_distance:
  "uint (DistanceBetweenSignAndMagnitudeNumbers x y) = \<bar>ulps x - ulps (y :: 'w::len word)\<bar>"
proof -
  have "(SignAndMagnitudeToBiased y \<le> SignAndMagnitudeToBiased x) = (ulps y \<le> ulps x)"
    by (simp add: word_le_def uint_biased)
  moreover have "ulps y \<le> ulps x \<Longrightarrow> uint (SignAndMagnitudeToBiased x - SignAndMagnitudeToBiased y) = ulps x - ulps y"
    and "ulps x \<le> ulps y \<Longrightarrow> uint (SignAndMagnitudeToBiased y - SignAndMagnitudeToBiased x) = ulps y - ulps x"
    by (simp_all add: uint_sub_le word_le_def uint_biased)
  ultimately show ?thesis by (auto simp: DistanceBetweenSignAndMagnitudeNumbers_def Let_def)
qed

section \<open>Properties\<close>

text \<open>
  Claim C39. \<open>AlmostEquals\<close> computes what its comment promises, at every width: two bit patterns are
  almost equal exactly when neither is a NaN and at most four representable numbers lie between them,
  the two zeros being the same number. No subtraction in the computation wraps around.
\<close>

theorem almost_equals_within_four_ulps:
  "AlmostEquals k x y \<longleftrightarrow> \<not> is_nan k x \<and> \<not> is_nan k y \<and> \<bar>ulps x - ulps y\<bar> \<le> 4"
proof -
  have "unat (DistanceBetweenSignAndMagnitudeNumbers x y) \<le> kMaxUlps \<longleftrightarrow> \<bar>ulps x - ulps y\<bar> \<le> 4"
    by (simp add: kMaxUlps_def unat_eq_nat_uint uint_distance nat_le_iff)
  then show ?thesis by (simp add: AlmostEquals_def FloatingPoint_AlmostEquals_def)
qed

text \<open>
  The largest finite number is the one before infinity at both types, so that the comparison takes the two for
  almost equal; the constants have the widths of the types.
\<close>

theorem largest_almost_equals_infinity:
  "ulps (Infinity 23 :: 32 word) = ulps Max_float + 1 \<and> almost_equal_float Max_float (Infinity 23)
     \<and> ulps (Infinity 52 :: 64 word) = ulps Max_double + 1 \<and> almost_equal_double Max_double (Infinity 52)
     \<and> kBitCount 4 = LENGTH(32) \<and> kFractionBitCount_of 24 = 23 \<and> kBitCount 8 = LENGTH(64) \<and> kFractionBitCount_of 53 = 52"
  by code_simp

text \<open>
  A set of flags made from enumerators has exactly those flags, and toggling a flag changes
  that flag alone, so that doing it twice gives the flags back; for every enumerator below the width
  of the type.
\<close>

theorem flags_set_and_toggle:
  assumes "\<forall>t \<in> set (type # types). t < LENGTH('w)" and "f < LENGTH('w)" and "g < LENGTH('w)"
  shows "\<exists>w :: 'w::len word. to_bits_many type types = Some w \<and> has_flag w f = Some (f \<in> set (type # types))
     \<and> (\<exists>v. toggle_flag w g = Some v \<and> has_flag v f = Some ((f \<in> set (type # types)) \<noteq> (f = g)) \<and> toggle_flag v g = Some w)"
proof -
  from to_bits_many_bits [OF assms(1)] obtain w :: "'w word" where
    w: "to_bits_many type types = Some w" "\<forall>m < LENGTH('w). bit w m = (m \<in> set (type # types))" by blast
  from toggle_flag_bits [OF assms(3), of w] obtain v where
    v: "toggle_flag w g = Some v" "\<forall>m < LENGTH('w). bit v m = (if m = g then \<not> bit w m else bit w m)" by blast
  have "toggle_flag v g = Some w" using v(1) by (auto simp: toggle_flag_def ac_simps)
  moreover have "has_flag w f = Some (f \<in> set (type # types))"
    "has_flag v f = Some ((f \<in> set (type # types)) \<noteq> (f = g))"
    using w(2) v(2) assms(2) by (auto simp: has_flag_bit)
  ultimately show ?thesis using w(1) v(1) by blast
qed

theorem flags_set_and_toggle_witness:
  "\<exists>w :: 8 word. to_bits_many 0 [2] = Some w \<and> has_flag w 2 = Some True
     \<and> (\<exists>v. toggle_flag w 2 = Some v \<and> has_flag v 2 = Some False \<and> toggle_flag v 2 = Some w)"
  using flags_set_and_toggle [where 'w = 8, of 0 "[2]" 2 2] by simp

text \<open>For one seed, values are told apart as well as their hashes are.\<close>

lemma xor_cancel: "seed XOR a = seed XOR b \<Longrightarrow> a = (b :: 'w::len word)"
  by (metis xor.assoc xor.left_neutral xor_self_eq)

lemma hash_combine_injective:
  "hash_combine hasher seed v = hash_combine hasher seed v' \<longleftrightarrow> hasher v = hasher v'"
  by (auto simp: hash_combine_def dest: xor_cancel)

end
