(* ===== verification/Ltb_Strings.thy ===== *)
theory Ltb_Strings
  imports Grpcw_Prelude
begin

text \<open>
  Text in ltb-util and in the examples: decimal numbers as \<open>std::to_string\<close> writes them,
  \<open>std::string::find\<close>, \<open>starts_with\<close> (ltb/util/string.cpp) and the names of types
  (ltb/util/type_string.cpp, type_string.hpp).
\<close>

section \<open>Decimal numbers\<close>

definition digit_char :: "nat \<Rightarrow> char" where
  "digit_char d = char_of (48 + d)"

function string_of_nat :: "nat \<Rightarrow> string" where
  "string_of_nat n = (if n < 10 then [digit_char n] else string_of_nat (n div 10) @ [digit_char (n mod 10)])"
  by pat_completeness auto
termination
  by (relation "measure id") auto

declare string_of_nat.simps [simp del]

definition string_of_int :: "int \<Rightarrow> string" where
  "string_of_int i = (if i < 0 then ''-'' @ string_of_nat (nat (- i)) else string_of_nat (nat i))"

definition nat_of_string :: "string \<Rightarrow> nat" where
  "nat_of_string s = foldl (\<lambda>a c. 10 * a + (of_char c - 48)) 0 s"

lemma digit_value [simp]: "d < 10 \<Longrightarrow> of_char (digit_char d) = (48 + d :: nat)"
  by (simp add: digit_char_def)

lemma nat_of_string_of_nat [simp]: "nat_of_string (string_of_nat n) = n"
proof (induction n rule: string_of_nat.induct)
  case (1 n)
  then show ?case
    by (subst string_of_nat.simps) (auto simp: nat_of_string_def)
qed

lemma digits_only: "c \<in> set (string_of_nat n) \<Longrightarrow> \<exists>d < 10. c = digit_char d"
proof (induction n rule: string_of_nat.induct)
  case (1 n)
  show ?case
  proof (cases "n < 10")
    case True
    with "1.prems" show ?thesis by (subst (asm) string_of_nat.simps) auto
  next
    case False
    with "1.prems" have "c \<in> set (string_of_nat (n div 10)) \<or> c = digit_char (n mod 10)"
      by (subst (asm) string_of_nat.simps) auto
    moreover have "n mod 10 < 10" by simp
    ultimately show ?thesis using "1.IH" [OF False] by blast
  qed
qed

lemma length_string_of_nat: "length (string_of_nat n) \<le> k \<longleftrightarrow> n < 10 ^ k" if "0 < k"
  using that
proof (induction k arbitrary: n)
  case (Suc k)
  show ?case
  proof (cases "n < 10")
    case True
    moreover have "(10::nat) \<le> 10 * 10 ^ k" by simp
    ultimately have "n < 10 ^ Suc k" by (simp only: power_Suc)
    with True show ?thesis by (subst string_of_nat.simps) simp
  next
    case False
    then have "length (string_of_nat n) = Suc (length (string_of_nat (n div 10)))" by (subst string_of_nat.simps) simp
    moreover have "n div 10 < 10 ^ k \<longleftrightarrow> n < 10 ^ Suc k" by (simp add: div_less_iff_less_mult mult.commute)
    moreover have "k = 0 \<Longrightarrow> \<not> n < 10 ^ Suc k" using False by simp
    moreover have "string_of_nat (n div 10) \<noteq> []" by (subst string_of_nat.simps) simp
    ultimately show ?thesis using Suc.IH [of "n div 10"] by (cases k) auto
  qed
qed simp

section \<open>Searching\<close>

text \<open>\<open>str.compare(0, n, prefix)\<close> compares at most \<open>n\<close> leading characters of the string.\<close>

definition starts_with :: "string \<Rightarrow> string \<Rightarrow> bool" where
  "starts_with str pre = (take (length pre) str = pre)"

fun str_find :: "string \<Rightarrow> string \<Rightarrow> nat option" where
  "str_find pat [] = (if pat = [] then Some 0 else None)"
| "str_find pat (c # s) = (if starts_with (c # s) pat then Some 0 else map_option Suc (str_find pat s))"

lemma starts_with_iff: "starts_with s p \<longleftrightarrow> (\<exists>rest. s = p @ rest)"
  by (metis append_eq_conv_conj starts_with_def append_take_drop_id)

lemma str_find_zero: "str_find pat s = Some 0 \<longleftrightarrow> starts_with s pat"
  by (cases s) (auto simp: starts_with_def)

section \<open>Names of types\<close>

text \<open>\<open>abi::__cxa_demangle\<close> gives a name, or none when its status is not zero.\<close>

definition demangle :: "(string \<Rightarrow> string option) \<Rightarrow> string \<Rightarrow> string" where
  "demangle cxa_demangle name = (case cxa_demangle name of Some res \<Rightarrow> res | None \<Rightarrow> name)"

text \<open>The two patterns have no character with a meaning in a regular expression, so matching is literal.\<close>

definition ugly_string1 :: string where
  "ugly_string1 = ''std::__cxx11::basic_string<char, std::char_traits<char>, std::allocator<char> > >''"

definition ugly_string2 :: string where
  "ugly_string2 = ''std::__cxx11::basic_string<char, std::char_traits<char>, std::allocator<char> >''"

function regex_replace :: "string \<Rightarrow> string \<Rightarrow> string \<Rightarrow> string" where
  "regex_replace [] pat fmt = []"
| "regex_replace (c # s) pat fmt =
     (if pat \<noteq> [] \<and> starts_with (c # s) pat then fmt @ regex_replace (drop (length pat) (c # s)) pat fmt
      else c # regex_replace s pat fmt)"
  by pat_completeness auto
termination
  by (relation "measure (\<lambda>(s, _). length s)") auto

definition replace_ugly_strings :: "string \<Rightarrow> string" where
  "replace_ugly_strings type_str =
     (let type_str = regex_replace type_str ugly_string1 ''std::string>'';
          type_str = regex_replace type_str ugly_string2 ''std::string''
      in type_str)"

definition type_string :: "(string \<Rightarrow> string option) \<Rightarrow> string \<Rightarrow> string" where
  "type_string cxa_demangle typeid_name = replace_ugly_strings (demangle cxa_demangle typeid_name)"

lemma regex_replace_absent: "str_find pat s = None \<Longrightarrow> regex_replace s pat fmt = s"
  by (induction s) (auto split: if_splits)

lemma regex_replace_match:
  "pat \<noteq> [] \<Longrightarrow> regex_replace (pat @ s) pat fmt = fmt @ regex_replace s pat fmt"
  by (cases pat) (simp_all add: starts_with_iff)

section \<open>Properties\<close>

text \<open>
  \<open>starts_with\<close> decides whether the string begins with the prefix, also when the prefix is
  longer than the string, and is the case in which \<open>find\<close> returns position zero.
\<close>

theorem starts_with_spec:
  "starts_with str pre = (\<exists>rest. str = pre @ rest) \<and> (str_find pre str = Some 0) = starts_with str pre"
  by (simp add: starts_with_iff str_find_zero)

end
