(* ===== verification/Ltb_Error.thy ===== *)
theory Ltb_Error
  imports Ltb_Strings
begin

text \<open>
  Errors and results in ltb-util: \<open>Error\<close> (ltb/util/error.hpp, error.cpp), \<open>Result\<close> (result.hpp), the
  file reader that returns one (file_utils.cpp) and the checks of CUDA and OptiX return codes
  (ltb/cuda/cuda_check.hpp, optix_check.hpp).

  \<open>Result\<close> derives from \<open>tl::expected\<close>, which holds either a value or an error: a sum type with the
  error on the left. The path of the project, generated when the program is built, is an argument, as
  are the streams of a file and the text CUDA and OptiX have for a code.
\<close>

section \<open>Error\<close>

record source_location =
  filename :: string
  line_number :: int

datatype severity = SevError | SevWarning

record error =
  source_location_of :: source_location
  severity_of :: severity
  message_of :: string
  debug_message :: string

definition get_relative_path_string :: "string \<Rightarrow> string \<Rightarrow> string" where
  "get_relative_path_string project_root path =
     (if str_find project_root path = Some 0 then drop (length project_root) path else path)"

definition create_debug_message :: "string \<Rightarrow> source_location \<Rightarrow> string \<Rightarrow> string" where
  "create_debug_message project_root loc message =
     (let result = ''['';
          result = (if filename loc \<noteq> [] then result @ get_relative_path_string project_root (filename loc) else result);
          result = (if line_number loc \<ge> 0 then result @ '':'' @ string_of_int (line_number loc) else result)
      in result @ ''] '' @ message)"

definition mk_Error :: "string \<Rightarrow> source_location \<Rightarrow> severity \<Rightarrow> string \<Rightarrow> error" where
  "mk_Error project_root loc sev message =
     \<lparr>source_location_of = loc, severity_of = sev, message_of = message,
      debug_message = create_debug_message project_root loc message\<rparr>"

definition LTB_MAKE_ERROR :: "string \<Rightarrow> string \<Rightarrow> int \<Rightarrow> string \<Rightarrow> error" where
  "LTB_MAKE_ERROR project_root file line msg = mk_Error project_root \<lparr>filename = file, line_number = line\<rparr> SevError msg"

definition LTB_MAKE_WARNING :: "string \<Rightarrow> string \<Rightarrow> int \<Rightarrow> string \<Rightarrow> error" where
  "LTB_MAKE_WARNING project_root file line msg = mk_Error project_root \<lparr>filename = file, line_number = line\<rparr> SevWarning msg"

definition error_severity :: "error \<Rightarrow> severity" where
  "error_severity e = severity_of e"

definition error_message :: "error \<Rightarrow> string" where
  "error_message e = message_of e"

definition debug_error_message :: "error \<Rightarrow> string" where
  "debug_error_message e = debug_message e"

definition append_message :: "string \<Rightarrow> error \<Rightarrow> string \<Rightarrow> error" where
  "append_message project_root e message =
     mk_Error project_root (source_location_of e) (severity_of e) (message_of e @ '' '' @ message)"

definition error_eq :: "error \<Rightarrow> error \<Rightarrow> bool" where
  "error_eq e other = (debug_message e = debug_message other)"

definition error_neq :: "error \<Rightarrow> error \<Rightarrow> bool" where
  "error_neq e other = (\<not> error_eq e other)"

record 'ctx context_error =
  context_error_error :: error
  context_error_context :: 'ctx

definition make_context_error :: "error \<Rightarrow> 'ctx \<Rightarrow> 'ctx context_error" where
  "make_context_error e ctx = \<lparr>context_error_error = e, context_error_context = ctx\<rparr>"

section \<open>Result\<close>

type_synonym 'a result = "error + 'a"

definition ignore :: "'a result \<Rightarrow> unit" where
  "ignore result = ()"

text \<open>The four overloads of \<open>and_then\<close> differ in how they move; for a void result \<open>'a\<close> is \<open>unit\<close>.\<close>

definition and_then :: "('e + 'a) \<Rightarrow> ('a \<Rightarrow> 'args \<Rightarrow> 'e + 'b) \<Rightarrow> 'args \<Rightarrow> 'e + 'b" where
  "and_then exp f args = (case exp of Inr v \<Rightarrow> f v args | Inl e \<Rightarrow> Inl e)"

definition and_then_void :: "('e + unit) \<Rightarrow> ('args \<Rightarrow> 'e + 'b) \<Rightarrow> 'args \<Rightarrow> 'e + 'b" where
  "and_then_void exp f args = (case exp of Inr v \<Rightarrow> f args | Inl e \<Rightarrow> Inl e)"

datatype runtime_error = RuntimeError string

definition value_or_throw :: "'a result \<Rightarrow> runtime_error + 'a" where
  "value_or_throw result = (case result of Inl e \<Rightarrow> Inl (RuntimeError (error_message e)) | Inr v \<Rightarrow> Inr v)"

definition success :: "unit result" where
  "success = Inr ()"

definition result_eq :: "('e1 \<Rightarrow> 'e2 \<Rightarrow> bool) \<Rightarrow> ('a \<Rightarrow> 'b \<Rightarrow> bool) \<Rightarrow> 'e1 + 'a \<Rightarrow> 'e2 + 'b \<Rightarrow> bool" where
  "result_eq eq_error eq_value lhs rhs =
     (case (lhs, rhs) of
        (Inr a, Inr b) \<Rightarrow> eq_value a b
      | (Inl e, Inl f) \<Rightarrow> eq_error e f
      | _ \<Rightarrow> False)"

definition result_neq :: "('e1 \<Rightarrow> 'e2 \<Rightarrow> bool) \<Rightarrow> ('a \<Rightarrow> 'b \<Rightarrow> bool) \<Rightarrow> 'e1 + 'a \<Rightarrow> 'e2 + 'b \<Rightarrow> bool" where
  "result_neq eq_error eq_value lhs rhs = (\<not> result_eq eq_error eq_value lhs rhs)"

section \<open>Results of files, CUDA and OptiX\<close>

text \<open>
  A stream is what it can be read as: not open; open, with \<open>tellg\<close> failing at its end; or open with
  its bytes.
\<close>

datatype input_stream = NotOpen | NoSize | Bytes string

definition read_file_to_string :: "string \<Rightarrow> string \<Rightarrow> (string \<Rightarrow> input_stream) \<Rightarrow> string \<Rightarrow> error + string" where
  "read_file_to_string project_root this_file open_stream name =
     (case open_stream name of
        NotOpen \<Rightarrow> Inl (LTB_MAKE_ERROR project_root this_file 34 (''Failed to open: '' @ [CHR 0x27] @ name @ [CHR 0x27]))
      | NoSize \<Rightarrow> Inr []
      | Bytes bytes \<Rightarrow>
          (let buffer = replicate (length bytes) (CHR '' '')
           in Inr (take (length buffer) bytes @ drop (length bytes) buffer)))"

text \<open>The code is a number, zero for success; \<open>api\<close> is the name the message begins with.\<close>

definition check_error_string :: "string \<Rightarrow> (nat \<Rightarrow> string) \<Rightarrow> nat \<Rightarrow> string \<Rightarrow> string \<Rightarrow> int \<Rightarrow> string" where
  "check_error_string api get_error_string result func file line =
     (if result \<noteq> 0 then
        api @ '' error at '' @ file @ '':'' @ string_of_int line @ [CHR 0x0A]
        @ [CHR 0x09] @ ''code='' @ string_of_nat result @ ''('' @ get_error_string result @ '')'' @ [CHR 0x0A]
        @ [CHR 0x09, CHR 0x22] @ func @ [CHR 0x22]
      else [])"

definition cuda_error_string :: "(nat \<Rightarrow> string) \<Rightarrow> nat \<Rightarrow> string \<Rightarrow> string \<Rightarrow> int \<Rightarrow> string" where
  "cuda_error_string cudaGetErrorString result func file line =
     check_error_string ''CUDA'' cudaGetErrorString result func file line"

definition cuda_check :: "(nat \<Rightarrow> string) \<Rightarrow> nat \<Rightarrow> string \<Rightarrow> string \<Rightarrow> int \<Rightarrow> runtime_error + unit" where
  "cuda_check cudaGetErrorString result func file line =
     (let error_message = cuda_error_string cudaGetErrorString result func file line
      in if error_message \<noteq> [] then Inl (RuntimeError error_message) else Inr ())"

definition optix_error_string :: "(nat \<Rightarrow> string) \<Rightarrow> nat \<Rightarrow> string \<Rightarrow> string \<Rightarrow> int \<Rightarrow> string" where
  "optix_error_string optixGetErrorString result func file line =
     check_error_string ''OPTIX'' optixGetErrorString result func file line"

definition optix_check :: "(nat \<Rightarrow> string) \<Rightarrow> nat \<Rightarrow> string \<Rightarrow> string \<Rightarrow> int \<Rightarrow> runtime_error + unit" where
  "optix_check optixGetErrorString result func file line =
     (let error_message = optix_error_string optixGetErrorString result func file line
      in if error_message \<noteq> [] then Inl (RuntimeError error_message) else Inr ())"

text \<open>The macros that return from the function around them: \<open>None\<close> when it goes on.\<close>

definition LTB_SAFE_CUDA_CHECK :: "string \<Rightarrow> (nat \<Rightarrow> string) \<Rightarrow> nat \<Rightarrow> string \<Rightarrow> string \<Rightarrow> int \<Rightarrow> error option" where
  "LTB_SAFE_CUDA_CHECK project_root cudaGetErrorString val func file line =
     (let error_message = cuda_error_string cudaGetErrorString val func file line
      in if error_message \<noteq> [] then Some (LTB_MAKE_ERROR project_root file line error_message) else None)"

definition LTB_SAFE_OPTIX_CHECK :: "string \<Rightarrow> (nat \<Rightarrow> string) \<Rightarrow> nat \<Rightarrow> string \<Rightarrow> string \<Rightarrow> int \<Rightarrow> error option" where
  "LTB_SAFE_OPTIX_CHECK project_root optixGetErrorString val func file line =
     (let error_message = optix_error_string optixGetErrorString val func file line
      in if error_message \<noteq> [] then Some (LTB_MAKE_ERROR project_root file line error_message) else None)"

section \<open>Properties\<close>

lemma relative_path:
  "get_relative_path_string project_root (project_root @ rest) = rest"
  "\<not> starts_with path project_root \<Longrightarrow> get_relative_path_string project_root path = path"
  by (simp_all add: get_relative_path_string_def str_find_zero starts_with_def)

text \<open>
  The debug message of an error names the file relative to the project, the line and the
  message; appending to an error keeps its severity and location and extends both its message and its
  debug message at the end, so that appending twice is appending the two texts joined by a blank.
\<close>

theorem error_messages:
  "debug_error_message (LTB_MAKE_ERROR root (root @ c # file) (int n) msg)
      = ''['' @ (c # file) @ '':'' @ string_of_nat n @ ''] '' @ msg
    \<and> error_severity (append_message root e m) = error_severity e
    \<and> error_message (append_message root e m) = error_message e @ '' '' @ m
    \<and> append_message root (append_message root e m) m' = append_message root e (m @ '' '' @ m')
    \<and> debug_error_message (append_message root (mk_Error root loc sev msg) m)
      = debug_error_message (mk_Error root loc sev msg) @ '' '' @ m"
  by (simp add: LTB_MAKE_ERROR_def mk_Error_def append_message_def create_debug_message_def relative_path
      error_severity_def error_message_def debug_error_message_def string_of_int_def Let_def)

text \<open>
  \<open>and_then\<close> chains computations that can fail the way \<open>tl::expected\<close> promises: a success is
  passed on, the first error ends the chain unchanged, and it does not matter how the chain is
  bracketed; \<open>value_or_throw\<close> then throws exactly that error's message.
\<close>

theorem result_chain_laws:
  "and_then (Inr v) f a = f v a \<and> and_then r (\<lambda>v _. Inr v) () = r
    \<and> and_then (and_then r f a) g b = and_then r (\<lambda>v c. and_then (f v a) g c) b
    \<and> and_then_void success (\<lambda>a. f v a) a = f v a
    \<and> value_or_throw (and_then (Inl e :: error + 'x) h c) = (Inl (RuntimeError (error_message e)) :: runtime_error + 'y)"
  by (auto simp: and_then_def and_then_void_def success_def value_or_throw_def split: sum.splits)

text \<open>
  \<open>check\<close> throws for every code but success, and what it throws names the place and the call
  that failed; the safe variant returns the same message as an error instead.
\<close>

theorem cuda_check_reports_every_failure:
  "(cuda_check text code func file line = Inr ()) = (code = 0)
    \<and> (LTB_SAFE_CUDA_CHECK root text code func file line = None) = (code = 0)
    \<and> (code \<noteq> 0 \<longrightarrow> (\<exists>m e. cuda_check text code func file line = Inl (RuntimeError m)
        \<and> LTB_SAFE_CUDA_CHECK root text code func file line = Some e \<and> error_message e = m
        \<and> starts_with m (''CUDA error at '' @ file @ '':'' @ string_of_int line)))"
  by (auto simp: cuda_check_def cuda_error_string_def check_error_string_def LTB_SAFE_CUDA_CHECK_def Let_def
      LTB_MAKE_ERROR_def mk_Error_def error_message_def starts_with_def)

theorem cuda_check_reports_every_failure_witness:
  "\<exists>m. cuda_check (\<lambda>c. ''out of memory'') 2 ''f()'' ''a.cu'' 7 = Inl (RuntimeError m) \<and> starts_with m ''CUDA error at a.cu:''"
  using cuda_check_reports_every_failure [of "\<lambda>c. ''out of memory''" 2 "''f()''" "''a.cu''" 7 "''/r/''"]
  by (fastforce simp: starts_with_iff)

text \<open>A file that can be opened and has a size is read whole.\<close>

lemma read_file_whole:
  "open_stream name = Bytes bytes \<Longrightarrow> read_file_to_string root this_file open_stream name = Inr bytes"
  by (simp add: read_file_to_string_def Let_def)

lemma error_eq_ignores_severity:
  "error_eq (LTB_MAKE_ERROR root file line msg) (LTB_MAKE_WARNING root file line msg)"
  by (simp add: error_eq_def LTB_MAKE_ERROR_def LTB_MAKE_WARNING_def mk_Error_def)

end
