(* ===== verification/Ltb_Containers.thy ===== *)
theory Ltb_Containers
  imports Ltb_Strings
begin

text \<open>
  Small generic helpers of ltb-util: containers (ltb/util/container_utils.hpp), the scope guard
  (generic_guard.hpp) and the timers (timer.hpp, timer.cpp).

  Functions with effects are functions on the state of the program; a timer's clock readings and the
  text of a duration are arguments, and its stream is the text written to it, \<open>None\<close> for no stream.
\<close>

section \<open>Containers\<close>

definition has_key :: "('k, 'v) umap \<Rightarrow> 'k \<Rightarrow> bool" where
  "has_key m key = (map_of m key \<noteq> None)"

text \<open>\<open>std::find\<close>: the position of the first element that is equal, or the end.\<close>

fun std_find :: "'a list \<Rightarrow> 'a \<Rightarrow> nat" where
  "std_find [] item = 0"
| "std_find (x # xs) item = (if x = item then 0 else Suc (std_find xs item))"

definition has_item :: "'a list \<Rightarrow> 'a \<Rightarrow> bool" where
  "has_item v item = (std_find v item \<noteq> length v)"

text \<open>
  \<open>std::remove_if\<close> moves the elements it keeps to the front and returns the new end; what lies behind
  it, \<open>tail\<close>, is unspecified and erased by the caller.
\<close>

definition std_remove_if :: "(nat \<Rightarrow> 'a list) \<Rightarrow> ('a \<Rightarrow> bool) \<Rightarrow> 'a list \<Rightarrow> 'a list \<times> nat" where
  "std_remove_if tail pred v =
     (let kept = filter (\<lambda>x. \<not> pred x) v in (kept @ tail (length v - length kept), length kept))"

definition erase_to_end :: "'a list \<Rightarrow> nat \<Rightarrow> 'a list" where
  "erase_to_end v new_end = take new_end v"

definition remove_all_by_predicate :: "(nat \<Rightarrow> 'a list) \<Rightarrow> 'a list \<Rightarrow> ('a \<Rightarrow> bool) \<Rightarrow> 'a list" where
  "remove_all_by_predicate tail v pred = (case std_remove_if tail pred v of (v', new_end) \<Rightarrow> erase_to_end v' new_end)"

definition remove_all_by_value :: "(nat \<Rightarrow> 'a list) \<Rightarrow> 'a list \<Rightarrow> 'a \<Rightarrow> 'a list" where
  "remove_all_by_value tail v value =
     (case std_remove_if tail (\<lambda>x. x = value) v of (v', new_end) \<Rightarrow> erase_to_end v' new_end)"

section \<open>Guards\<close>

text \<open>
  A function given to a guard takes the guard's arguments or none; overload resolution prefers the
  call with arguments.
\<close>

datatype ('args, 'w) guard_func = WithArgs "'args \<Rightarrow> 'w \<Rightarrow> 'w" | NoArgs "'w \<Rightarrow> 'w"

fun call_func :: "('args, 'w) guard_func \<Rightarrow> 'args \<Rightarrow> 'w \<Rightarrow> 'w" where
  "call_func (WithArgs f) arguments w = f arguments w"
| "call_func (NoArgs f) arguments w = f w"

record ('args, 'w) generic_guard =
  destroy_func :: "('args, 'w) guard_func"
  arguments :: 'args

definition make_guard ::
    "('args, 'w) guard_func \<Rightarrow> ('args, 'w) guard_func \<Rightarrow> 'args \<Rightarrow> 'w \<Rightarrow> ('args, 'w) generic_guard \<times> 'w" where
  "make_guard init_func destroy args w =
     (\<lparr>destroy_func = destroy, arguments = args\<rparr>, call_func init_func args w)"

definition destroy_guard :: "('args, 'w) generic_guard \<Rightarrow> 'w \<Rightarrow> 'w" where
  "destroy_guard g w = call_func (destroy_func g) (arguments g) w"

text \<open>A scope: the guards are made in order, the body runs, and they are destroyed in reverse order.\<close>

fun guarded_scope ::
    "(('args, 'w) guard_func \<times> ('args, 'w) guard_func \<times> 'args) list \<Rightarrow> ('w \<Rightarrow> 'w) \<Rightarrow> 'w \<Rightarrow> 'w" where
  "guarded_scope [] body w = body w"
| "guarded_scope ((init_func, destroy, args) # gs) body w =
     (let (g, w1) = make_guard init_func destroy args w; w2 = guarded_scope gs body w1 in destroy_guard g w2)"

section \<open>Timers\<close>

record timer =
  timer_name :: string
  ostream :: "string option"
  start_time :: int

definition new_timer :: "string \<Rightarrow> string option \<Rightarrow> int \<Rightarrow> timer" where
  "new_timer name os now = \<lparr>timer_name = name, ostream = os, start_time = now\<rparr>"

definition timer_start :: "int \<Rightarrow> timer \<Rightarrow> timer" where
  "timer_start now t =
     t\<lparr>ostream := map_option (\<lambda>os. os @ timer_name t @ ''...'' @ [CHR 0x0A]) (ostream t), start_time := now\<rparr>"

definition millis_since_start :: "(int \<Rightarrow> string) \<Rightarrow> int \<Rightarrow> timer \<Rightarrow> int \<times> timer" where
  "millis_since_start show_millis now t =
     (let duration = now - start_time t
      in (duration,
          t\<lparr>ostream := map_option (\<lambda>os. os @ timer_name t @ (if timer_name t = [] then [] else '': '')
              @ show_millis duration @ ''ms'' @ [CHR 0x0A]) (ostream t)\<rparr>))"

definition new_scoped_timer :: "string \<Rightarrow> string \<Rightarrow> int \<Rightarrow> int \<Rightarrow> timer" where
  "new_scoped_timer name os constructed started = timer_start started (new_timer name (Some os) constructed)"

definition destroy_scoped_timer :: "(int \<Rightarrow> string) \<Rightarrow> int \<Rightarrow> timer \<Rightarrow> timer" where
  "destroy_scoped_timer show_millis now t = snd (millis_since_start show_millis now t)"

section \<open>Properties\<close>

lemma std_find_spec: "std_find v item = length v \<longleftrightarrow> item \<notin> set v"
  by (induction v) auto

text \<open>
  The container helpers mean what their names say: \<open>has_key\<close> and \<open>has_item\<close> are membership,
  and both removals keep exactly the elements that do not match, in their order and with their
  duplicates, whatever \<open>std::remove\<close> leaves behind the new end.
\<close>

theorem container_helpers_spec:
  "has_key m key = (key \<in> set (um_keys m)) \<and> has_item v item = (item \<in> set v)
    \<and> remove_all_by_predicate tail v pred = filter (\<lambda>x. \<not> pred x) v
    \<and> remove_all_by_value tail v item = filter (\<lambda>x. x \<noteq> item) v
    \<and> \<not> has_item (remove_all_by_value tail v item) item"
  by (auto simp: has_key_def has_item_def in_um_keys_map_of std_find_spec remove_all_by_predicate_def
      remove_all_by_value_def std_remove_if_def erase_to_end_def Let_def)

text \<open>
  When each guard's destroy function undoes its init function, a scope leaves behind only
  what its body did inside: guards nested to any depth are undone in reverse order, so a body that
  keeps the state the guards set up returns the program to the state before the scope.
\<close>

theorem guards_undo_in_reverse:
  assumes "\<forall>(i, d, a) \<in> set gs. \<forall>w. call_func d a (call_func i a w) = w" and "\<forall>w. body w = w"
  shows "guarded_scope gs body w = w"
  using assms
  by (induction gs arbitrary: w) (auto simp: make_guard_def destroy_guard_def Let_def)

theorem guards_undo_in_reverse_witness:
  "guarded_scope [(WithArgs (\<lambda>a w. a # w), NoArgs tl, 1), (WithArgs (\<lambda>a w. a # w), NoArgs tl, 2)] (\<lambda>w. w) [7 :: nat] = [7]"
  by (rule guards_undo_in_reverse) auto

lemma scoped_timer_output:
  "ostream (destroy_scoped_timer show_millis stop (new_scoped_timer (c # name) os constructed started)) =
     Some (os @ (c # name) @ ''...'' @ [CHR 0x0A] @ (c # name) @ '': '' @ show_millis (stop - started) @ ''ms'' @ [CHR 0x0A])"
  by (simp add: destroy_scoped_timer_def new_scoped_timer_def timer_start_def new_timer_def millis_since_start_def Let_def)

end
