(* ===== verification/Ltb_Atomic_Tests.thy ===== *)
theory Ltb_Atomic_Tests
  imports Atomic_Data
begin

text \<open>
  The test programs of \<open>ltb::util::AtomicData\<close> (ltb-util/src/ltb/util/atomic_data.cpp), run on the model
  of the class: a timed wait, a crowd of threads released by \<open>notify_all\<close>, and two threads that take
  turns. Each program is a step relation of its threads in which a thread that finds its predicate
  false sleeps on the condition variable until it is notified, or woken for no reason. What is shown is
  what the test waits for: the program does not get stuck, and all its CHECKs hold at the end.
\<close>

section \<open>atomic_data_wait_timeout\<close>

record timeout_data =
  stop_waiting :: bool
  update_happened :: bool

definition stop_then_update :: "bool \<Rightarrow> timeout_data atomic_data \<Rightarrow> (bool \<times> timeout_data atomic_data) option" where
  "stop_then_update expired a =
     ltb_wait_to_use_safely_for expired stop_waiting (\<lambda>d. ((), d\<lparr>update_happened := True\<rparr>)) a"

text \<open>
  The main thread's two waits. The helper sets \<open>stop_waiting\<close> after two seconds, when the first wait,
  of 100 ms, is over, and long before the second one ends; the result has the CHECKs in order.
\<close>

definition wait_timeout_test :: "bool list option" where
  "wait_timeout_test =
     (let a0 = ltb_make_atomic_data \<lparr>stop_waiting = False, update_happened = False\<rparr>
      in case stop_then_update True a0 of
           None \<Rightarrow> None
         | Some (first, a1) \<Rightarrow>
             (let happened_early = ltb_use_safely_const update_happened a1;
                  a2 = snd (ltb_use_safely (\<lambda>d. ((), d\<lparr>stop_waiting := True\<rparr>)) a1)
              in case stop_then_update False a2 of
                   None \<Rightarrow> None
                 | Some (second, a3) \<Rightarrow>
                     Some [\<not> first, \<not> happened_early, second, ltb_use_safely_const update_happened a3]))"

section \<open>atomic_data_notify_all\<close>

record crowd_data =
  write_away :: bool
  num_threads :: nat

datatype crowd_pc = CrowdTries | CrowdSleeps | CrowdDone

datatype crowd_main = MainWrites | MainNotifies | MainJoins | MainDone

record crowd =
  crowd_shared :: "crowd_data atomic_data"
  crowd_pcs :: "crowd_pc list"
  crowd_main_pc :: crowd_main

definition crowd_start :: "nat \<Rightarrow> crowd" where
  "crowd_start n = \<lparr>crowd_shared = ltb_make_atomic_data \<lparr>write_away = False, num_threads = 0\<rparr>,
     crowd_pcs = replicate n CrowdTries, crowd_main_pc = MainWrites\<rparr>"

definition count_in :: "crowd_data atomic_data \<Rightarrow> crowd_data atomic_data option" where
  "count_in a = ltb_wait_to_use_safely write_away (\<lambda>d. ((), d\<lparr>num_threads := Suc (num_threads d)\<rparr>)) a"

fun crowd_wake :: "crowd_pc \<Rightarrow> crowd_pc" where
  "crowd_wake CrowdSleeps = CrowdTries"
| "crowd_wake p = p"

inductive crowd_step :: "crowd \<Rightarrow> crowd \<Rightarrow> bool" where
  crowd_counts: "i < length (crowd_pcs s) \<Longrightarrow> crowd_pcs s ! i = CrowdTries \<Longrightarrow> count_in (crowd_shared s) = Some a \<Longrightarrow>
    crowd_step s (s\<lparr>crowd_shared := a, crowd_pcs := (crowd_pcs s)[i := CrowdDone]\<rparr>)"
| crowd_sleeps: "i < length (crowd_pcs s) \<Longrightarrow> crowd_pcs s ! i = CrowdTries \<Longrightarrow> count_in (crowd_shared s) = None \<Longrightarrow>
    crowd_step s (s\<lparr>crowd_pcs := (crowd_pcs s)[i := CrowdSleeps]\<rparr>)"
| crowd_writes: "crowd_main_pc s = MainWrites \<Longrightarrow>
    crowd_step s (s\<lparr>crowd_shared := snd (ltb_use_safely (\<lambda>d. ((), d\<lparr>write_away := True\<rparr>)) (crowd_shared s)),
                    crowd_main_pc := MainNotifies\<rparr>)"
| crowd_notifies: "crowd_main_pc s = MainNotifies \<Longrightarrow>
    crowd_step s (s\<lparr>crowd_pcs := map crowd_wake (crowd_pcs s), crowd_main_pc := MainJoins\<rparr>)"
| crowd_joined: "crowd_main_pc s = MainJoins \<Longrightarrow> \<forall>p \<in> set (crowd_pcs s). p = CrowdDone \<Longrightarrow>
    crowd_step s (s\<lparr>crowd_main_pc := MainDone\<rparr>)"

inductive crowd_reachable :: "nat \<Rightarrow> crowd \<Rightarrow> bool" for n where
  crowd_init: "crowd_reachable n (crowd_start n)"
| crowd_next: "crowd_reachable n s \<Longrightarrow> crowd_step s t \<Longrightarrow> crowd_reachable n t"
| crowd_spurious: "crowd_reachable n s \<Longrightarrow> i < length (crowd_pcs s) \<Longrightarrow> crowd_pcs s ! i = CrowdSleeps \<Longrightarrow>
    crowd_reachable n (s\<lparr>crowd_pcs := (crowd_pcs s)[i := CrowdTries]\<rparr>)"

definition crowd_inv :: "nat \<Rightarrow> crowd \<Rightarrow> bool" where
  "crowd_inv n s \<longleftrightarrow> length (crowd_pcs s) = n
     \<and> num_threads (data (crowd_shared s)) = count_list (crowd_pcs s) CrowdDone
     \<and> write_away (data (crowd_shared s)) = (crowd_main_pc s \<noteq> MainWrites)
     \<and> (crowd_main_pc s \<in> {MainJoins, MainDone} \<longrightarrow> CrowdSleeps \<notin> set (crowd_pcs s))
     \<and> (crowd_main_pc s = MainDone \<longrightarrow> set (crowd_pcs s) \<subseteq> {CrowdDone})"

lemma count_list_update:
  "i < length xs \<Longrightarrow> xs ! i \<noteq> y \<Longrightarrow> count_list (xs[i := y]) y = Suc (count_list xs y)"
  "i < length xs \<Longrightarrow> xs ! i \<noteq> y \<Longrightarrow> x \<noteq> y \<Longrightarrow> count_list (xs[i := x]) y = count_list xs y"
  by (induction xs arbitrary: i) (auto simp: less_Suc_eq_0_disj nth_Cons' split: if_splits)

lemma count_list_wake [simp]: "count_list (map crowd_wake ps) CrowdDone = count_list ps CrowdDone"
proof (induction ps)
  case (Cons p ps)
  then show ?case by (cases p) auto
qed simp

lemma wake_not_sleeping [simp]: "crowd_wake p \<noteq> CrowdSleeps"
  by (cases p) auto

lemma set_update_cases: "x \<in> set (xs[i := y]) \<Longrightarrow> x = y \<or> x \<in> set xs"
  using set_update_subset_insert [of xs i y] by auto

lemma count_in_cases:
  "count_in a = (if write_away (data a) then Some (a\<lparr>data := (data a)\<lparr>num_threads := Suc (num_threads (data a))\<rparr>\<rparr>) else None)"
  by (simp add: count_in_def ltb_wait_to_use_safely_def)

lemma crowd_inv_step: "crowd_step s t \<Longrightarrow> crowd_inv n s \<Longrightarrow> crowd_inv n t"
proof (induction rule: crowd_step.induct)
  case (crowd_counts i s a)
  then have "crowd_main_pc s \<noteq> MainDone" using nth_mem [of i "crowd_pcs s"] by (auto simp: crowd_inv_def)
  with crowd_counts show ?case
    by (auto simp: crowd_inv_def count_in_cases count_list_update split: if_splits dest!: set_update_cases)
next
  case (crowd_sleeps i s)
  then show ?case
    by (auto simp: crowd_inv_def count_in_cases count_list_update split: if_splits)
next
  case (crowd_writes s)
  then show ?case by (auto simp: crowd_inv_def ltb_use_safely_def)
next
  case (crowd_notifies s)
  then show ?case by (auto simp: crowd_inv_def dest: sym)
next
  case (crowd_joined s)
  then show ?case by (auto simp: crowd_inv_def)
qed

lemma crowd_reachable_inv: "crowd_reachable n s \<Longrightarrow> crowd_inv n s"
proof (induction rule: crowd_reachable.induct)
  case crowd_init
  show ?case by (auto simp: crowd_inv_def crowd_start_def ltb_make_atomic_data_def count_list_0_iff)
next
  case (crowd_next s t)
  then show ?case by (blast intro: crowd_inv_step)
next
  case (crowd_spurious s i)
  then show ?case using nth_mem [of i "crowd_pcs s"]
    by (auto simp: crowd_inv_def count_list_update)
qed

lemma all_done_count: "(\<forall>p \<in> set ps. p = CrowdDone) \<Longrightarrow> count_list ps CrowdDone = length ps"
  by (induction ps) auto

lemma crowd_moves:
  assumes "crowd_inv n s" and "crowd_main_pc s \<noteq> MainDone"
  shows "\<exists>t. crowd_step s t"
proof (cases "crowd_main_pc s")
  case MainJoins
  show ?thesis
  proof (cases "\<forall>p \<in> set (crowd_pcs s). p = CrowdDone")
    case True
    with MainJoins show ?thesis by (blast intro: crowd_joined)
  next
    case False
    then obtain p where p: "p \<in> set (crowd_pcs s)" "p \<noteq> CrowdDone" by blast
    have "CrowdSleeps \<notin> set (crowd_pcs s)" using assms(1) MainJoins by (simp add: crowd_inv_def)
    with p have "p = CrowdTries" by (metis crowd_pc.exhaust)
    with p(1) have "CrowdTries \<in> set (crowd_pcs s)" by simp
    then obtain i where "i < length (crowd_pcs s)" "crowd_pcs s ! i = CrowdTries" by (auto simp: in_set_conv_nth)
    moreover have "\<exists>a. count_in (crowd_shared s) = Some a"
      using assms(1) MainJoins by (simp add: count_in_cases crowd_inv_def)
    ultimately show ?thesis by (blast intro: crowd_counts)
  qed
qed (use assms in \<open>blast intro: crowd_writes crowd_notifies\<close>)+

section \<open>interleaved_atomic_data\<close>

record turns_data =
  current_number :: int
  all_data :: "int list"
  odds :: "int list"
  even_numbers :: "int list"
  writing_odds :: bool

definition max_number :: int where
  "max_number = 9"

datatype turns_thread = OddThread | EvenThread

text \<open>The predicate and the body of each thread; the body's result is its \<open>stop_loop\<close>.\<close>

fun turn_predicate :: "turns_thread \<Rightarrow> turns_data \<Rightarrow> bool" where
  "turn_predicate OddThread d = writing_odds d"
| "turn_predicate EvenThread d = (\<not> writing_odds d)"

definition write_odd :: "turns_data \<Rightarrow> bool \<times> turns_data" where
  "write_odd d =
     (let d = d\<lparr>all_data := all_data d @ [current_number d], current_number := current_number d + 1\<rparr>;
          d = d\<lparr>odds := odds d @ [last (all_data d)]\<rparr>
      in (current_number d \<ge> max_number, d\<lparr>writing_odds := False\<rparr>))"

definition write_even :: "turns_data \<Rightarrow> bool \<times> turns_data" where
  "write_even d =
     (let d = d\<lparr>all_data := all_data d @ [current_number d], current_number := current_number d + 1\<rparr>;
          d = d\<lparr>even_numbers := even_numbers d @ [last (all_data d)]\<rparr>
      in (current_number d \<ge> max_number, d\<lparr>writing_odds := True\<rparr>))"

fun turn_body :: "turns_thread \<Rightarrow> turns_data \<Rightarrow> bool \<times> turns_data" where
  "turn_body OddThread d = write_odd d"
| "turn_body EvenThread d = write_even d"

datatype turns_pc = TurnTries | TurnSleeps | TurnNotifies bool | TurnEnded

record turns =
  turns_shared :: "turns_data atomic_data"
  odd_pc :: turns_pc
  even_pc :: turns_pc

fun turns_pc_of :: "turns_thread \<Rightarrow> turns \<Rightarrow> turns_pc" where
  "turns_pc_of OddThread s = odd_pc s"
| "turns_pc_of EvenThread s = even_pc s"

fun set_turns_pc :: "turns_thread \<Rightarrow> turns_pc \<Rightarrow> turns \<Rightarrow> turns" where
  "set_turns_pc OddThread p s = s\<lparr>odd_pc := p\<rparr>"
| "set_turns_pc EvenThread p s = s\<lparr>even_pc := p\<rparr>"

fun other_thread :: "turns_thread \<Rightarrow> turns_thread" where
  "other_thread OddThread = EvenThread"
| "other_thread EvenThread = OddThread"

definition turn_waits :: "turns_thread \<Rightarrow> turns_data atomic_data \<Rightarrow> turns_data atomic_data option" where
  "turn_waits w a = ltb_wait_to_use_safely (turn_predicate w) (turn_body w) a"

text \<open>Only the other thread can be asleep, so it is the one \<open>notify_one\<close> wakes.\<close>

definition turn_notify :: "turns_thread \<Rightarrow> bool \<Rightarrow> turns \<Rightarrow> turns" where
  "turn_notify w stop s =
     (let s1 = set_turns_pc w (if stop then TurnEnded else TurnTries) s
      in if turns_pc_of (other_thread w) s1 = TurnSleeps then set_turns_pc (other_thread w) TurnTries s1 else s1)"

inductive turns_step :: "turns \<Rightarrow> turns \<Rightarrow> bool" where
  turn_runs: "turns_pc_of w s = TurnTries \<Longrightarrow> turn_waits w (turns_shared s) = Some a \<Longrightarrow>
    turns_step s (set_turns_pc w (TurnNotifies (fst (turn_body w (data (turns_shared s))))) (s\<lparr>turns_shared := a\<rparr>))"
| turn_sleeps: "turns_pc_of w s = TurnTries \<Longrightarrow> turn_waits w (turns_shared s) = None \<Longrightarrow>
    turns_step s (set_turns_pc w TurnSleeps s)"
| turn_notifies: "turns_pc_of w s = TurnNotifies stop \<Longrightarrow> turns_step s (turn_notify w stop s)"

definition turns_start :: turns where
  "turns_start = \<lparr>turns_shared = ltb_make_atomic_data \<lparr>current_number = 0, all_data = [], odds = [], even_numbers = [],
     writing_odds = False\<rparr>, odd_pc = TurnTries, even_pc = TurnTries\<rparr>"

inductive turns_reachable :: "turns \<Rightarrow> bool" where
  turns_init: "turns_reachable turns_start"
| turns_next: "turns_reachable s \<Longrightarrow> turns_step s t \<Longrightarrow> turns_reachable t"
| turns_spurious: "turns_reachable s \<Longrightarrow> turns_pc_of w s = TurnSleeps \<Longrightarrow>
    turns_reachable (set_turns_pc w TurnTries s)"

text \<open>The data after \<open>n\<close> turns.\<close>

definition turns_after :: "nat \<Rightarrow> turns_data" where
  "turns_after n = \<lparr>current_number = int n, all_data = map int [0..<n], odds = map int (filter odd [0..<n]),
     even_numbers = map int (filter even [0..<n]), writing_odds = odd n\<rparr>"

lemma turns_after_odd: "odd n \<Longrightarrow> write_odd (turns_after n) = (int (Suc n) \<ge> max_number, turns_after (Suc n))"
  by (simp add: write_odd_def turns_after_def Let_def add.commute)

lemma turns_after_even: "even n \<Longrightarrow> write_even (turns_after n) = (int (Suc n) \<ge> max_number, turns_after (Suc n))"
  by (simp add: write_even_def turns_after_def Let_def add.commute)

definition turns_inv :: "nat \<Rightarrow> turns \<Rightarrow> bool" where
  "turns_inv n s \<longleftrightarrow> data (turns_shared s) = turns_after n \<and> n \<le> 10
     \<and> (case even_pc s of
          TurnTries \<Rightarrow> n \<le> 8
        | TurnSleeps \<Rightarrow> n \<le> 8 \<and> (odd n \<or> (\<exists>b. odd_pc s = TurnNotifies b))
        | TurnNotifies stop \<Rightarrow> 1 \<le> n \<and> stop = (9 \<le> n)
        | TurnEnded \<Rightarrow> 9 \<le> n)
     \<and> (case odd_pc s of
          TurnTries \<Rightarrow> n \<le> 9
        | TurnSleeps \<Rightarrow> n \<le> 9 \<and> (even n \<or> (\<exists>b. even_pc s = TurnNotifies b))
        | TurnNotifies stop \<Rightarrow> 2 \<le> n \<and> stop = (n = 10)
        | TurnEnded \<Rightarrow> n = 10)"

lemma turn_waits_cases:
  "data a = turns_after n \<Longrightarrow> turn_waits OddThread a = (if odd n then Some (a\<lparr>data := turns_after (Suc n)\<rparr>) else None)"
  "data a = turns_after n \<Longrightarrow> turn_waits EvenThread a = (if even n then Some (a\<lparr>data := turns_after (Suc n)\<rparr>) else None)"
  by (auto simp: turn_waits_def ltb_wait_to_use_safely_def turns_after_odd turns_after_even)
    (simp_all add: turns_after_def)

lemma turns_inv_run:
  assumes "turns_inv n s" and "turns_pc_of w s = TurnTries" and "turn_waits w (turns_shared s) = Some a"
  shows "turns_inv (Suc n) (set_turns_pc w (TurnNotifies (fst (turn_body w (data (turns_shared s))))) (s\<lparr>turns_shared := a\<rparr>))"
proof (cases w)
  case OddThread
  with assms have n: "odd n" "n \<le> 9" "a = (turns_shared s)\<lparr>data := turns_after (Suc n)\<rparr>"
    by (auto simp: turns_inv_def turn_waits_cases split: if_splits)
  have "Suc n \<noteq> 9" "Suc 0 \<le> n" using n(1) by presburger+
  with OddThread assms(1) n show ?thesis
    by (auto simp: turns_inv_def turns_after_odd max_number_def split: turns_pc.splits)
next
  case EvenThread
  with assms have n: "even n" "n \<le> 8" "a = (turns_shared s)\<lparr>data := turns_after (Suc n)\<rparr>"
    by (auto simp: turns_inv_def turn_waits_cases split: if_splits)
  have "Suc n \<noteq> 10" using n(1) by presburger
  with EvenThread assms(1) n show ?thesis
    by (auto simp: turns_inv_def turns_after_even max_number_def split: turns_pc.splits)
qed

lemma turns_inv_sleep:
  assumes "turns_inv n s" and "turns_pc_of w s = TurnTries" and "turn_waits w (turns_shared s) = None"
  shows "turns_inv n (set_turns_pc w TurnSleeps s)"
  using assms by (cases w) (auto simp: turns_inv_def turn_waits_cases split: if_splits turns_pc.splits)

lemma turns_inv_notify:
  assumes "turns_inv n s" and "turns_pc_of w s = TurnNotifies stop"
  shows "turns_inv n (turn_notify w stop s)"
  using assms by (cases w) (auto simp: turns_inv_def turn_notify_def Let_def split: if_splits turns_pc.splits)

lemma turns_inv_wake:
  assumes "turns_inv n s" and "turns_pc_of w s = TurnSleeps"
  shows "turns_inv n (set_turns_pc w TurnTries s)"
  using assms by (cases w) (auto simp: turns_inv_def split: turns_pc.splits)

lemma turns_inv_step: "turns_step s t \<Longrightarrow> turns_inv n s \<Longrightarrow> \<exists>m. turns_inv m t"
  by (induction rule: turns_step.induct) (blast intro: turns_inv_run turns_inv_sleep turns_inv_notify)+

lemma turns_reachable_inv: "turns_reachable s \<Longrightarrow> \<exists>n. turns_inv n s"
proof (induction rule: turns_reachable.induct)
  case turns_init
  have "turns_inv 0 turns_start"
    by (simp add: turns_inv_def turns_start_def ltb_make_atomic_data_def turns_after_def)
  then show ?case ..
next
  case (turns_next s t)
  then show ?case by (blast dest: turns_inv_step)
next
  case (turns_spurious s w)
  then show ?case by (blast intro: turns_inv_wake)
qed

lemma turns_moves:
  assumes "turns_inv n s" and "\<not> (odd_pc s = TurnEnded \<and> even_pc s = TurnEnded)"
  shows "\<exists>t. turns_step s t"
proof -
  have tries: "\<exists>t. turns_step s t" if "turns_pc_of w s = TurnTries" for w
    using that turn_runs turn_sleeps by (cases "turn_waits w (turns_shared s)") blast+
  have waking: "\<exists>t. turns_step s t" if "turns_pc_of w s = TurnNotifies stop" for w stop
    using that turn_notifies by blast
  have "\<exists>w. turns_pc_of w s = TurnTries \<or> (\<exists>stop. turns_pc_of w s = TurnNotifies stop)"
  proof (rule ccontr)
    assume "\<not> ?thesis"
    then have none: "turns_pc_of w s \<noteq> TurnTries \<and> (\<forall>stop. turns_pc_of w s \<noteq> TurnNotifies stop)" for w by blast
    from none [of OddThread] have "odd_pc s = TurnSleeps \<or> odd_pc s = TurnEnded"
      by (cases "odd_pc s") auto
    moreover from none [of EvenThread] have "even_pc s = TurnSleeps \<or> even_pc s = TurnEnded"
      by (cases "even_pc s") auto
    ultimately have "n = 9 \<and> even n \<or> odd n \<and> even n \<or> n \<le> 8 \<and> n = 10"
      using assms by (auto simp: turns_inv_def)
    then show False by auto
  qed
  with tries waking show ?thesis by blast
qed

fun turns_weight :: "turns_pc \<Rightarrow> nat" where
  "turns_weight TurnTries = 1"
| "turns_weight TurnSleeps = 0"
| "turns_weight (TurnNotifies stop) = 3"
| "turns_weight TurnEnded = 0"

definition turns_left :: "turns \<Rightarrow> nat" where
  "turns_left s = 3 * (10 - nat (current_number (data (turns_shared s)))) + turns_weight (odd_pc s) + turns_weight (even_pc s)"

lemma turns_step_less:
  assumes "turns_inv n s" and "turns_step s t"
  shows "turns_left t < turns_left s"
  using assms(2,1)
proof (induction rule: turns_step.induct)
  case (turn_runs w s a)
  then have "a = (turns_shared s)\<lparr>data := turns_after (Suc n)\<rparr>" "data (turns_shared s) = turns_after n" "n \<le> 9"
    by (cases w; auto simp: turns_inv_def turn_waits_cases split: if_splits)+
  with turn_runs.hyps(1) show ?case
    by (cases w) (auto simp: turns_left_def turns_after_def nat_add_distrib)
next
  case (turn_sleeps w s)
  then show ?case by (cases w) (simp_all add: turns_left_def)
next
  case (turn_notifies w s stop)
  then show ?case by (cases w) (auto simp: turns_left_def turn_notify_def Let_def)
qed

lemma turns_after_10:
  "turns_after 10 = \<lparr>current_number = max_number + 1, all_data = [0, 1, 2, 3, 4, 5, 6, 7, 8, 9],
     odds = [1, 3, 5, 7, 9], even_numbers = [0, 2, 4, 6, 8], writing_odds = False\<rparr>"
  by (simp add: turns_after_def max_number_def upt_rec)

section \<open>Properties\<close>

text \<open>
  The test of \<open>notify_all\<close> passes for any number of threads (it uses 500): in whatever order
  they start to wait, are woken, for a reason or without, and count themselves in, the program is never
  stuck before all threads are joined, and then \<open>num_threads\<close> is the number of threads.
\<close>

theorem notify_all_test_passes:
  assumes "crowd_reachable n s"
  shows "if crowd_main_pc s = MainDone then ltb_use_safely_const num_threads (crowd_shared s) = n
         else \<exists>t. crowd_step s t"
proof (cases "crowd_main_pc s = MainDone")
  case True
  note inv = crowd_reachable_inv [OF assms]
  with True have "\<forall>p \<in> set (crowd_pcs s). p = CrowdDone" by (auto simp: crowd_inv_def)
  with inv all_done_count [OF this] True show ?thesis
    by (simp add: crowd_inv_def ltb_use_safely_const_def)
qed (use crowd_moves [OF crowd_reachable_inv [OF assms]] in simp)

text \<open>
  The test of two threads that take turns passes under every schedule: no wake-up is lost, so
  that some thread can always go on until both loops have ended; without spurious wake-ups every step
  uses up some of a bounded amount of work; and at the end all five CHECKs hold.
\<close>

theorem interleaved_test_passes:
  assumes "turns_reachable s"
  shows "(if odd_pc s = TurnEnded \<and> even_pc s = TurnEnded
          then ltb_use_safely_const (\<lambda>d. current_number d = max_number + 1 \<and> even_numbers d = [0, 2, 4, 6, 8]
                 \<and> odds d = [1, 3, 5, 7, 9] \<and> all_data d = [0, 1, 2, 3, 4, 5, 6, 7, 8, 9] \<and> \<not> writing_odds d)
                 (turns_shared s)
          else \<exists>t. turns_step s t)
     \<and> (\<forall>t. turns_step s t \<longrightarrow> turns_left t < turns_left s)"
proof -
  obtain n where n: "turns_inv n s" using turns_reachable_inv [OF assms] ..
  have "\<forall>t. turns_step s t \<longrightarrow> turns_left t < turns_left s" using turns_step_less [OF n] by blast
  moreover have "data (turns_shared s) = turns_after 10" if "odd_pc s = TurnEnded"
    using n that by (simp add: turns_inv_def)
  ultimately show ?thesis
    using turns_moves [OF n] by (auto simp: ltb_use_safely_const_def turns_after_10)
qed

text \<open>The timed wait gives up at its deadline without touching the data, and later runs when notified.\<close>

lemma wait_timeout_test_passes: "wait_timeout_test = Some [True, True, True, True]"
  by (simp add: wait_timeout_test_def stop_then_update_def ltb_make_atomic_data_def ltb_use_safely_const_def
      ltb_use_safely_def ltb_wait_to_use_safely_for_def wait_for_def)

theorem notify_all_test_passes_witness:
  "\<exists>t. crowd_step (crowd_start 500) t"
  using notify_all_test_passes [OF crowd_init, of 500] by (simp add: crowd_start_def)

theorem interleaved_test_passes_witness:
  "\<exists>t. turns_step turns_start t"
  using interleaved_test_passes [OF turns_init] by (simp add: turns_start_def)

end
