(* ===== verification/Ltb_Unit_Tests.thy ===== *)
theory Ltb_Unit_Tests
  imports Ltb_Containers Ltb_Error
begin

text \<open>
  The single-threaded doctest cases of ltb-util, as runs of the models: the scope guard
  (ltb/util/generic_guard.cpp), \<open>starts_with\<close> (string.cpp), and paths and errors (error.cpp). A case is
  the list of its CHECKs, in order.
\<close>

section \<open>generic_guard\<close>

record guard_flags =
  push_called :: bool
  pop_called :: bool

datatype guard_arg = FloatArg int | IntArg int | StringArg string

type_synonym flag_func = "(guard_arg list, guard_flags) guard_func"

definition void_push :: flag_func where
  "void_push = NoArgs (\<lambda>w. w\<lparr>push_called := True\<rparr>)"

definition void_pop :: flag_func where
  "void_pop = NoArgs (\<lambda>w. w\<lparr>pop_called := True\<rparr>)"

definition float_push :: flag_func where
  "float_push = WithArgs (\<lambda>_ w. w\<lparr>push_called := True\<rparr>)"

definition float_pop :: flag_func where
  "float_pop = WithArgs (\<lambda>_ w. w\<lparr>pop_called := True\<rparr>)"

definition string_push :: flag_func where
  "string_push = WithArgs (\<lambda>_ w. w\<lparr>push_called := True\<rparr>)"

definition string_pop :: flag_func where
  "string_pop = WithArgs (\<lambda>_ w. w\<lparr>pop_called := True\<rparr>)"

definition int_and_string_push :: flag_func where
  "int_and_string_push = WithArgs (\<lambda>_ w. w\<lparr>push_called := True\<rparr>)"

definition int_and_string_pop :: flag_func where
  "int_and_string_pop = WithArgs (\<lambda>_ w. w\<lparr>pop_called := True\<rparr>)"

text \<open>A lambda calls one of these functions with arguments of its own.\<close>

definition calling :: "flag_func \<Rightarrow> guard_arg list \<Rightarrow> flag_func" where
  "calling f args = NoArgs (call_func f args)"

definition calling_with :: "flag_func \<Rightarrow> flag_func" where
  "calling_with f = WithArgs (call_func f)"

definition guard_subcases :: "(flag_func \<times> flag_func \<times> guard_arg list) list" where
  "guard_subcases =
     [(void_push, void_pop, []),
      (float_push, void_pop, [FloatArg 0]),
      (void_push, float_pop, [FloatArg 0]),
      (float_push, float_pop, [FloatArg 0]),
      (string_push, void_pop, [StringArg ''Will this compile?'']),
      (void_push, string_pop, [StringArg ''Of course it will compile!'']),
      (string_push, string_pop, [StringArg ''This will too!'']),
      (int_and_string_push, void_pop, [IntArg 3, StringArg ''Multi-arg?'']),
      (void_push, int_and_string_pop, [IntArg 7, StringArg '''']),
      (int_and_string_push, int_and_string_pop, [IntArg 21, StringArg '''']),
      (calling void_push [], void_pop, []),
      (calling float_push [FloatArg 0], float_pop, [FloatArg 0]),
      (void_push, calling float_pop [FloatArg 0], []),
      (float_push, calling void_pop [], [FloatArg 0]),
      (calling float_push [FloatArg 0], calling int_and_string_pop [IntArg 73, StringArg ''blarg''], []),
      (calling_with float_push, calling_with float_pop, [FloatArg 0])]"

text \<open>Two CHECKs while the guard lives, and two after the subcase, when it is destroyed.\<close>

definition run_guard_subcase :: "flag_func \<times> flag_func \<times> guard_arg list \<Rightarrow> bool list" where
  "run_guard_subcase sc =
     (case sc of (init_func, destroy, args) \<Rightarrow>
        let (guard, w1) = make_guard init_func destroy args \<lparr>push_called = False, pop_called = False\<rparr>;
            w2 = destroy_guard guard w1
        in [push_called w1, \<not> pop_called w1, push_called w2, pop_called w2])"

section \<open>starts_with\<close>

definition starts_with_checks :: "bool list" where
  "starts_with_checks =
     [starts_with '''' '''',
      starts_with ''check for prefix'' '''',
      starts_with ''check for prefix'' ''c'',
      starts_with ''check for prefix'' ''check'',
      starts_with ''check for prefix'' ''check '',
      starts_with ''check for prefix'' ''check for prefix'',
      \<not> starts_with '''' ''?'',
      \<not> starts_with ''check for prefix'' ''z'',
      \<not> starts_with ''check for prefix'' ''checkk'',
      \<not> starts_with ''check for prefix'' ''check  '',
      \<not> starts_with ''check for prefix'' ''check for prefix?'']"

section \<open>Paths and errors\<close>

definition relative_path_checks :: "string \<Rightarrow> bool list" where
  "relative_path_checks project_root =
     [get_relative_path_string project_root ''/no/project/root'' = ''/no/project/root'',
      get_relative_path_string project_root (project_root @ ''with/project/root'') = ''with/project/root'']"

text \<open>The path separator and the prefix of the build are arguments.\<close>

definition build_expected_message :: "string \<Rightarrow> string \<Rightarrow> int \<Rightarrow> string \<Rightarrow> string" where
  "build_expected_message slash file_prefix line message =
     (let prefix = (if file_prefix = [] then [] else file_prefix @ slash);
          this_file = ''src'' @ slash @ ''ltb'' @ slash @ ''util'' @ slash @ ''error.cpp''
      in ''['' @ prefix @ this_file @ '':'' @ string_of_int line @ ''] '' @ message)"

text \<open>Each use of the macros knows its file and the line it stands on.\<close>

definition error_checks :: "string \<Rightarrow> string \<Rightarrow> bool list" where
  "error_checks project_root this_file =
     [error_message (LTB_MAKE_ERROR project_root this_file 128 ''Error message'') = ''Error message'',
      error_eq (LTB_MAKE_ERROR project_root this_file 129 ''blarg'') (LTB_MAKE_ERROR project_root this_file 129 ''blarg''),
      error_severity (LTB_MAKE_ERROR project_root this_file 130 ''this is bad'') = SevError]"

definition warning_checks :: "string \<Rightarrow> string \<Rightarrow> bool list" where
  "warning_checks project_root this_file =
     [error_message (LTB_MAKE_WARNING project_root this_file 134 ''Warning message'') = ''Warning message'',
      error_eq (LTB_MAKE_WARNING project_root this_file 135 ''blarg'') (LTB_MAKE_WARNING project_root this_file 135 ''blarg''),
      error_severity (LTB_MAKE_WARNING project_root this_file 136 ''not so bad'') = SevWarning]"

section \<open>All CHECKs hold\<close>

lemmas guard_eval = run_guard_subcase_def make_guard_def destroy_guard_def calling_def calling_with_def
  void_push_def void_pop_def float_push_def float_pop_def string_push_def string_pop_def
  int_and_string_push_def int_and_string_pop_def

lemma guard_doctest_passes: "\<forall>sc \<in> set guard_subcases. run_guard_subcase sc = [True, True, True, True]"
  by (simp add: guard_subcases_def guard_eval)

lemma starts_with_doctest_passes: "list_all id starts_with_checks"
  by (simp add: starts_with_checks_def starts_with_def)

lemma str_find_prefix: "str_find p (p @ s) = Some 0"
  by (simp add: str_find_zero starts_with_def)

text \<open>The first check needs a project that is not installed above that very path.\<close>

lemma relative_path_doctest_passes:
  assumes "project_root = [] \<or> str_find project_root ''/no/project/root'' \<noteq> Some 0"
  shows "list_all id (relative_path_checks project_root)"
  using assms by (auto simp: relative_path_checks_def get_relative_path_string_def str_find_prefix)

lemma error_doctests_pass: "list_all id (error_checks root src_file) \<and> list_all id (warning_checks root src_file)"
  by (simp add: error_checks_def warning_checks_def LTB_MAKE_ERROR_def LTB_MAKE_WARNING_def mk_Error_def
      error_message_def error_eq_def error_severity_def)

text \<open>The message the test file expects is the debug message of an error made in that file.\<close>

lemma expected_message_is_debug_message:
  assumes "str_find root (prefix @ slash @ ''src'' @ slash @ ''ltb'' @ slash @ ''util'' @ slash @ ''error.cpp'') \<noteq> Some 0"
    and "prefix \<noteq> []" and "0 \<le> line"
  shows "debug_error_message (LTB_MAKE_ERROR root
       (prefix @ slash @ ''src'' @ slash @ ''ltb'' @ slash @ ''util'' @ slash @ ''error.cpp'') line message)
     = build_expected_message slash prefix line message"
  using assms
  by (simp add: LTB_MAKE_ERROR_def mk_Error_def debug_error_message_def create_debug_message_def
      build_expected_message_def get_relative_path_string_def Let_def)

section \<open>Properties\<close>

text \<open>
  Every CHECK of the repository's single-threaded doctest cases of ltb-util holds: for the guard in
  each of its sixteen subcases the push function has run while the guard lives and the pop function
  exactly when it is gone; for the errors and warnings whatever the path of the project and of the file;
  and for the relative paths as long as the project is not installed above the path of the test.
\<close>

theorem ltb_doctests_pass:
  assumes "project_root = [] \<or> str_find project_root ''/no/project/root'' \<noteq> Some 0"
  shows "list_all (\<lambda>sc. list_all id (run_guard_subcase sc)) guard_subcases \<and> list_all id starts_with_checks
     \<and> list_all id (relative_path_checks project_root)
     \<and> list_all id (error_checks project_root src_file) \<and> list_all id (warning_checks project_root src_file)"
  using guard_doctest_passes starts_with_doctest_passes relative_path_doctest_passes [OF assms]
    error_doctests_pass [of project_root src_file]
  by (simp add: list_all_iff)

theorem ltb_doctests_pass_witness:
  "list_all id (relative_path_checks ''/home/dev/grpcw/'')"
proof -
  have "str_find ''/home/dev/grpcw/'' ''/no/project/root'' \<noteq> Some 0"
    by (simp add: str_find_zero starts_with_def)
  then show ?thesis using ltb_doctests_pass [of "''/home/dev/grpcw/''" "[]"] by blast
qed

end
