(* ===== verification/Example_Clock.thy ===== *)
theory Example_Clock
  imports Ltb_Strings
begin

text \<open>
  How the examples print the time since the start of the server: \<open>make_pretty_time_string\<close> and the
  \<open>switch\<close> over the format, which example/src/example_server.cpp and
  example/src/server/new_arch_server.cpp have in the same form, and \<open>time_since\<close> of the latter.
  Times are nanoseconds.
\<close>

section \<open>Formatting times\<close>

datatype format = COMPOUND | HOURS | MINUTES | SECONDS | FormatSentinel

text \<open>\<open>std::chrono::duration_cast\<close> rounds towards zero.\<close>

definition ns_per_second :: int where
  "ns_per_second = 1000000000"

definition to_seconds :: "int \<Rightarrow> int" where
  "to_seconds d = c_div d ns_per_second"

definition to_minutes :: "int \<Rightarrow> int" where
  "to_minutes d = c_div d (60 * ns_per_second)"

definition to_hours :: "int \<Rightarrow> int" where
  "to_hours d = c_div d (3600 * ns_per_second)"

definition pretty_parts :: "int \<Rightarrow> int \<times> int \<times> int" where
  "pretty_parts duration =
     (let hours = to_hours duration;
          minutes = to_minutes (duration - hours * (3600 * ns_per_second));
          seconds = to_seconds (duration - hours * (3600 * ns_per_second) - minutes * (60 * ns_per_second))
      in (hours, minutes, seconds))"

definition make_pretty_time_string :: "string \<Rightarrow> int \<Rightarrow> string" where
  "make_pretty_time_string os duration =
     (case pretty_parts duration of (hours, minutes, seconds) \<Rightarrow>
        os @ string_of_int hours @ ''h  '' @ string_of_int minutes @ ''m  '' @ string_of_int seconds @ ''s'')"

definition format_duration :: "format \<Rightarrow> int \<Rightarrow> string" where
  "format_duration f d =
     (case f of
        COMPOUND \<Rightarrow> make_pretty_time_string [] d
      | HOURS \<Rightarrow> string_of_int (to_hours d) @ ''h''
      | MINUTES \<Rightarrow> string_of_int (to_minutes d) @ ''m''
      | SECONDS \<Rightarrow> string_of_int (to_seconds d) @ ''s''
      | FormatSentinel \<Rightarrow> [])"

text \<open>\<open>time_since\<close> of the second example; the result is the status and the time's display text.\<close>

datatype status = OK

definition time_since :: "int \<Rightarrow> int \<Rightarrow> format \<Rightarrow> status \<times> string" where
  "time_since now start_time f = (OK, format_duration f (now - start_time))"

text \<open>The address every \<open>main\<close> of the examples starts with.\<close>

definition host_address_of :: "string list \<Rightarrow> string" where
  "host_address_of argv = (case argv of program # address # _ \<Rightarrow> address | _ \<Rightarrow> ''0.0.0.0:50055'')"

section \<open>Lemmas\<close>

lemma split_unit:
  fixes d :: int
  assumes "0 < u"
  shows "d - d div (60 * u) * (60 * u) = u * (d div u mod 60) + d mod u"
    and "(u * (d div u mod 60) + d mod u) div u = d div u mod 60"
    and "u * (d div u mod 60) + d mod u - (d div u mod 60) * u = d mod u"
  using assms zmod_zmult2_eq [of 60 d u] by (simp_all add: minus_mult_div_eq_mod mult.commute)

lemma pretty_parts_nonneg:
  assumes "0 \<le> d"
  shows "pretty_parts d = (d div (3600 * ns_per_second), d div (60 * ns_per_second) mod 60, d div ns_per_second mod 60)"
proof -
  let ?u = "60 * ns_per_second" and ?r = "60 * ns_per_second * (d div (60 * ns_per_second) mod 60) + d mod (60 * ns_per_second)"
  have pos: "0 < ns_per_second" "0 < ?u" by (simp_all add: ns_per_second_def)
  have h: "to_hours d = d div (60 * ?u)" using assms pos by (simp add: to_hours_def c_div_nonneg)
  have r: "d - to_hours d * (3600 * ns_per_second) = ?r" using split_unit(1) [OF pos(2), of d] h by simp
  have "0 \<le> d mod ?u" "0 \<le> ?r" using pos by simp_all
  then have m: "to_minutes ?r = d div ?u mod 60" using pos split_unit(2) [OF pos(2), of d]
    by (simp add: to_minutes_def c_div_nonneg)
  have "to_seconds (d mod ?u) = d div ns_per_second mod 60"
    using zmod_zmult2_eq [of 60 d ns_per_second] split_unit(2) [OF pos(1), of d] pos \<open>0 \<le> d mod ?u\<close>
    by (simp add: to_seconds_def c_div_nonneg mult.commute)
  then show ?thesis using h r m split_unit(3) [OF pos(2), of d] by (simp add: pretty_parts_def Let_def)
qed

lemma string_of_int_nonneg [simp]: "0 \<le> i \<Longrightarrow> string_of_int i = string_of_nat (nat i)"
  by (simp add: string_of_int_def)

section \<open>Exactness\<close>

text \<open>
  Claim C40. The pretty time is exact to the second: for a time since the start of the server that is
  not negative, the hours, minutes and seconds printed add up to the elapsed time with less than a
  second lost, and minutes and seconds stay below 60.
\<close>

theorem pretty_time_exact_to_the_second:
  assumes "0 \<le> d"
  shows "\<exists>h m s r. format_duration COMPOUND d =
       string_of_nat h @ ''h  '' @ string_of_nat m @ ''m  '' @ string_of_nat s @ ''s''
     \<and> d = ((int h * 60 + int m) * 60 + int s) * 1000000000 + r \<and> m < 60 \<and> s < 60 \<and> 0 \<le> r \<and> r < 1000000000"
proof -
  let ?n = ns_per_second
  let ?S = "d div ?n" and ?h = "d div (3600 * ?n)" and ?m = "d div (60 * ?n) mod 60" and ?s = "d div ?n mod 60"
  have n: "0 < ?n" "?n = 1000000000" by (simp_all add: ns_per_second_def)
  have "d div (60 * ?n) = ?S div 60" using n(1) zdiv_zmult2_eq [of 60 d ?n] by (simp add: mult.commute)
  moreover have "?h = ?S div 60 div 60" using n(1) zdiv_zmult2_eq [of 3600 d ?n] zdiv_zmult2_eq [of 60 ?S 60]
    by (simp add: mult.commute)
  ultimately have "(?h * 60 + ?m) * 60 + ?s = ?S" by simp
  then have d: "d = ((?h * 60 + ?m) * 60 + ?s) * ?n + d mod ?n" by simp
  have pos: "0 \<le> ?h" "0 \<le> ?m" "0 \<le> ?s" "?m < 60" "?s < 60" "0 \<le> d mod ?n" "d mod ?n < ?n"
    using assms n(1) by (simp_all add: pos_imp_zdiv_nonneg_iff)
  define h m s where "h = nat ?h" "m = nat ?m" "s = nat ?s"
  with pos have i: "int h = ?h" "int m = ?m" "int s = ?s" and "m < 60" "s < 60" by simp_all
  moreover have "format_duration COMPOUND d = string_of_nat h @ ''h  '' @ string_of_nat m @ ''m  '' @ string_of_nat s @ ''s''"
    using assms pos h_m_s_def by (simp add: format_duration_def make_pretty_time_string_def pretty_parts_nonneg)
  moreover have "d = ((int h * 60 + int m) * 60 + int s) * 1000000000 + d mod ?n" using d unfolding i n(2) .
  moreover have "0 \<le> d mod ?n" "d mod ?n < 1000000000" using pos(6,7) unfolding n(2) .
  ultimately show ?thesis by blast
qed

theorem pretty_time_exact_to_the_second_witness:
  "\<exists>h m s r. format_duration COMPOUND 3725000000001 =
       string_of_nat h @ ''h  '' @ string_of_nat m @ ''m  '' @ string_of_nat s @ ''s''
     \<and> 3725000000001 = ((int h * 60 + int m) * 60 + int s) * 1000000000 + r \<and> m < 60 \<and> s < 60 \<and> 0 \<le> r \<and> r < 1000000000"
  by (rule pretty_time_exact_to_the_second) simp

end
