(* ===== verification/Example_Server.thy ===== *)
theory Example_Server
  imports Example_Clock Grpc_Async_Server
begin

text \<open>
  The example clock server on top of \<open>GrpcAsyncServer\<close> (example/src/example_server.hpp,
  example_server.cpp). The state the callbacks see, \<open>world\<close> of the server, is the system clock.
\<close>

section \<open>The server\<close>

datatype clock_request = FormatRequest format | Empty

fun request_format :: "clock_request \<Rightarrow> format" where
  "request_format (FormatRequest f) = f"
| "request_format Empty = COMPOUND"

definition get_time :: "int \<Rightarrow> int \<Rightarrow> clock_request \<Rightarrow> status \<times> string" where
  "get_time now server_start_time r = (OK, format_duration (request_format r) (now - server_start_time))"

type_synonym clock_server = "(clock_request, string, status, unit, int, unit) async_server"

record example_server =
  server_start_time :: int
  time_stream :: ptr
  keep_ticking :: bool
  ticker :: thread_state
  clock_server :: clock_server

text \<open>The lambda given to \<open>register_async\<close>.\<close>

definition get_time_callback :: "int \<Rightarrow> clock_request \<Rightarrow> string \<Rightarrow> int \<Rightarrow> (status \<times> string) \<times> int" where
  "get_time_callback start r time now = (get_time now start r, now)"

definition new_example_server ::
    "(ptr list \<Rightarrow> ptr) \<Rightarrow> (clock_request, string) activation \<Rightarrow> int \<Rightarrow> string \<Rightarrow> async_error + example_server" where
  "new_example_server new a now server_address =
     (case register_async_stream new a (new_async_server () server_address now) of
        Inl e \<Rightarrow> Inl e
      | Inr (stream, s1) \<Rightarrow>
          (case register_async new a (get_time_callback now) s1 of
             Inl e \<Rightarrow> Inl e
           | Inr s2 \<Rightarrow> Inr \<lparr>server_start_time = now, time_stream = stream, keep_ticking = True,
                          ticker = Running, clock_server = s2\<rparr>))"

text \<open>
  One turn of the ticker, a second after the last: the time is written to every client of the stream.
  \<open>Some (Inr None)\<close>: the write waits until earlier updates are processed.
\<close>

definition ticker_turn ::
    "(ptr list \<Rightarrow> ptr) \<Rightarrow> int \<Rightarrow> example_server
      \<Rightarrow> (async_error + (clock_request, string, status, unit) send_outcome option)" where
  "ticker_turn new now s =
     (let (st, time) = get_time now (server_start_time s) (FormatRequest COMPOUND)
      in case map_of (handlers_of (clock_server s)) (time_stream s) of
           Some (StreamRpc h) \<Rightarrow> Inr (write_everyone new time h)
         | _ \<Rightarrow> Inl (HandlerGone (time_stream s)))"

text \<open>The destructor stops and joins the ticker first, then the server, whose own destructor follows.\<close>

definition destroy_example_server ::
    "((clock_request, string) activation \<times> clock_request \<times> ptr \<times> bool) list \<Rightarrow> example_server
      \<Rightarrow> (async_error + example_server) option" where
  "destroy_example_server remaining s =
     (let s1 = s\<lparr>keep_ticking := False, ticker := (if joinable (ticker s) then Joined else ticker s),
                clock_server := shutdown_and_wait (clock_server s)\<rparr>
      in map_option (map_sum id (\<lambda>c. s1\<lparr>clock_server := c\<rparr>)) (destroy_async_server remaining (clock_server s1)))"

text \<open>
  The class of the same name in the second example (example/src/server/new_arch_server.cpp), which its
  \<open>main\<close> does not use: only the stream is registered, and no ticker is started.
\<close>

definition new_stream_server ::
    "(ptr list \<Rightarrow> ptr) \<Rightarrow> (clock_request, string) activation \<Rightarrow> int \<Rightarrow> string \<Rightarrow> async_error + example_server" where
  "new_stream_server new a now server_address =
     (case register_async_stream new a (new_async_server () server_address now) of
        Inl e \<Rightarrow> Inl e
      | Inr (stream, s1) \<Rightarrow>
          Inr \<lparr>server_start_time = now, time_stream = stream, keep_ticking = True, ticker = NoThread, clock_server = s1\<rparr>)"

definition destroy_stream_server ::
    "((clock_request, string) activation \<times> clock_request \<times> ptr \<times> bool) list \<Rightarrow> example_server
      \<Rightarrow> (async_error + example_server) option" where
  "destroy_stream_server remaining s =
     (let s1 = s\<lparr>keep_ticking := False, ticker := (if joinable (ticker s) then Joined else ticker s),
                clock_server := shutdown_and_wait (clock_server s)\<rparr>
      in map_option (map_sum id (\<lambda>c. s1\<lparr>clock_server := c\<rparr>)) (destroy_async_server remaining (clock_server s1)))"

section \<open>Properties\<close>

text \<open>
  Once the example server is constructed, a client that asks for the time in some format gets
  the time since the construction in that format: the loop of the server under it answers the call
  with what \<open>get_time\<close> computes at that moment, with status OK.
\<close>

theorem example_server_tells_time:
  assumes "operator_new new" and "new_example_server new a start address = Inr s"
    and "queue_answer b = Some (response_addr b, True)"
  shows "\<exists>q \<in> set (server_pending (clock_server s)). \<exists>s'.
     server_turn b (FormatRequest f) q True ((clock_server s)\<lparr>world := now\<rparr>) = Inr s'
     \<and> server_trace s' = server_trace (clock_server s) @
         [(q, NonStreamEffect (NsFinish (format_duration f (now - start)) OK (response_addr b))),
          (q, NonStreamEffect NsRequestRpc)]"
proof -
  from assms(2) obtain stream s1 where r: "register_async new a (get_time_callback start) s1 = Inr (clock_server s)"
    by (auto simp: new_example_server_def split: sum.splits prod.splits)
  from register_async_fields [OF assms(1) r] obtain q h where
    q: "map_of (handlers_of (clock_server s)) q = Some (NonStreamRpc h)" "ns_ready h"
      "callback h = get_time_callback start" "q \<in> set (server_pending (clock_server s))"
    by blast
  let ?s = "(clock_server s)\<lparr>world := now\<rparr>"
  have h: "map_of (handlers_of ?s) q = Some (NonStreamRpc h)" using q(1) by simp
  have cb: "callback h (FormatRequest f) (default_response b) (world ?s) = ((OK, format_duration f (now - start)), now)"
    using q(3) by (simp add: get_time_callback_def get_time_def)
  from server_turn_answers [OF h q(2) assms(3) cb] q(4) show ?thesis by auto
qed

text \<open>
  The ticker of a newly constructed example server finds its stream: the handler registered
  first is still there after the second registration, and a tick with no client connected goes through
  and sends nothing.
\<close>

theorem example_ticker_finds_stream:
  assumes "operator_new new" and "new_example_server new a start address = Inr s"
  shows "\<exists>out. ticker_turn alloc now s = Inr (Some out) \<and> effects out = []"
proof -
  from assms(2) obtain stream s1 where r:
    "register_async_stream new a (new_async_server () address start) = Inr (stream, s1)"
    "register_async new a (get_time_callback start) s1 = Inr (clock_server s)" "time_stream s = stream"
    by (auto simp: new_example_server_def split: sum.splits prod.splits)
  from register_async_stream_fields [OF assms(1) r(1)] obtain h where
    h: "map_of (handlers_of s1) stream = Some (StreamRpc h)"
    and idle: "active (data (conns h)) = []" "processing (data (conns h)) = {}" by blast
  then have "stream \<in> set (um_keys (handlers_of s1))" by (auto simp: in_um_keys_map_of)
  with register_async_fields [OF assms(1) r(2)] h have "map_of (handlers_of (clock_server s)) stream = Some (StreamRpc h)"
    by fastforce
  with r(3) idle show ?thesis
    by (auto simp: ticker_turn_def write_everyone_def write_client_def wait_to_use_safely_def send_body_def
        previous_updates_processed_def get_time_def)
qed

text \<open>
  The class of the second example: its constructor succeeds and registers one handler, that of the
  stream \<open>time_stream_\<close> points to; the server is torn down as soon as its tag is returned.
\<close>

theorem stream_server_lives_and_dies:
  assumes "left_over b = []"
  shows "\<exists>s h. new_stream_server new a start address = Inr s \<and> handlers_of (clock_server s) = [(time_stream s, StreamRpc h)]
     \<and> (\<exists>s'. destroy_stream_server [(b, r, time_stream s, False)] s = Some (Inr s') \<and> handlers_of (clock_server s') = []
          \<and> ticker s' = NoThread \<and> server_thread (clock_server s') = Joined)"
proof -
  obtain s h where s: "new_stream_server new a start address = Inr s" "handlers_of (clock_server s) = [(time_stream s, StreamRpc h)]"
    "server_pending (clock_server s) = [time_stream s]" "registering (clock_server s) = []" "ticker s = NoThread"
    by (simp add: new_stream_server_def register_async_stream_def new_async_server_def make_atomic_data_def
        store_handler_def activate_stored_def activate_at_def use_safely_def um_emplace_def um_adjust_def
        activate_next_def activate_body_def promote_next_def new_stream_handler_def new_connections_def
        live_connections_def make_tag_def Let_def split: prod.splits)
  let ?s = "(shutdown_and_wait (shutdown_and_wait (clock_server s)))\<lparr>queue_down := True\<rparr>"
  have "server_inv ?s" "registering ?s = []" "set [time_stream s] = set (server_pending ?s)" "queue_down ?s"
    using s by (simp_all add: server_inv_def shutdown_and_wait_def um_ok_def um_keys_def)
  with server_loop_drains [of ?s "[time_stream s]" "[b]" r] assms obtain s' where
    "server_loop [(b, r, time_stream s, False)] ?s = Inr s'" "handlers_of s' = []" "server_thread s' = Returned" by auto
  then have "destroy_stream_server [(b, r, time_stream s, False)] s =
      Some (Inr (s\<lparr>keep_ticking := False, clock_server := s'\<lparr>server_thread := Joined\<rparr>\<rparr>))" "handlers_of s' = []"
    using s(5) by (simp_all add: destroy_stream_server_def destroy_async_server_def)
  with s show ?thesis by force
qed

definition clock_env :: "(clock_request, string) activation" where
  "clock_env = \<lparr>new_connection = bump_new, new_tag = bump_new, default_request = Empty, default_response = [],
     response_addr = 9, queue_answer = Some (9, True), left_over = []\<rparr>"

lemma example_server_constructs: "\<exists>s. new_example_server bump_new clock_env start address = Inr s"
  by (simp add: new_example_server_def register_async_stream_def register_async_def server_eval clock_env_def
      activate_next_def activate_body_def promote_next_def new_stream_handler_def new_connections_def
      live_connections_def make_tag_def Let_def split: prod.splits)

theorem example_server_tells_time_witness:
  "\<exists>s q s'. new_example_server bump_new clock_env 0 ''0.0.0.0:50055'' = Inr s
     \<and> server_turn clock_env (FormatRequest HOURS) q True ((clock_server s)\<lparr>world := 7200000000000\<rparr>) = Inr s'
     \<and> server_trace s' = server_trace (clock_server s) @
         [(q, NonStreamEffect (NsFinish (format_duration HOURS 7200000000000) OK 9)), (q, NonStreamEffect NsRequestRpc)]"
proof -
  obtain s where s: "new_example_server bump_new clock_env 0 ''0.0.0.0:50055'' = Inr s"
    using example_server_constructs by blast
  have "queue_answer clock_env = Some (response_addr clock_env, True)" by (simp add: clock_env_def)
  from example_server_tells_time [OF operator_new_bump s this, of HOURS 7200000000000] s show ?thesis
    by (auto simp: clock_env_def)
qed

theorem example_ticker_finds_stream_witness:
  "\<exists>s out. new_example_server bump_new clock_env 0 ''0.0.0.0:50055'' = Inr s
     \<and> ticker_turn bump_new 1000000000 s = Inr (Some out) \<and> effects out = []"
proof -
  obtain s where s: "new_example_server bump_new clock_env 0 ''0.0.0.0:50055'' = Inr s"
    using example_server_constructs by blast
  from example_ticker_finds_stream [OF operator_new_bump s] s show ?thesis by blast
qed

end
