(* ===== verification/Example_Ticker.thy ===== *)
theory Example_Ticker
  imports Example_Server Stream_Rpc_Spec
begin

text \<open>
  The clock server (example/src/example_server.cpp) while it runs: its loop takes in the clients of the
  stream and answers calls, its ticker writes the time to the stream every second, and the stream's
  synchronisation thread handles what comes back from gRPC, in any order. The stream handler is the one
  that the server owns at the address \<open>time_stream_\<close>. \<open>gave\<close> are the calls it has made to gRPC, \<open>given_tags\<close> the
  tags gRPC has to return to it; \<open>ticks\<close> records who joined and the times of the ticks, and no step looks
  at it.
\<close>

section \<open>The running server\<close>

type_synonym clock_stream = "(clock_request, unit) stream_handler"

type_synonym clock_stream_effect = "(clock_request, string, status, unit) stream_effect"

type_synonym clock_stream_sys = "(clock_request, string, status, unit) stream_sys"

type_synonym clock_trace = "(ptr \<times> (clock_request, string, status, unit) rpc_effect) list"

datatype tick_note = ClientJoined ptr | Ticked int

record ticking =
  clk :: example_server
  given_tags :: "ptr set"
  gave :: "clock_stream_effect list"
  ticks :: "tick_note list"

definition clock_stream_of :: "example_server \<Rightarrow> clock_stream option" where
  "clock_stream_of s =
     (case map_of (handlers_of (clock_server s)) (time_stream s) of Some (StreamRpc h) \<Rightarrow> Some h | _ \<Rightarrow> None)"

text \<open>The handler after an operation through the pointer.\<close>

definition put_clock_stream :: "clock_stream \<Rightarrow> example_server \<Rightarrow> example_server" where
  "put_clock_stream h s =
     s\<lparr>clock_server := (clock_server s)\<lparr>rpc_handlers :=
        snd (use_safely (\<lambda>m. ((), um_adjust (\<lambda>_. StreamRpc h) (time_stream s) m)) (rpc_handlers (clock_server s)))\<rparr>\<rparr>"

fun stream_effects_at :: "ptr \<Rightarrow> clock_trace \<Rightarrow> clock_stream_effect list" where
  "stream_effects_at p [] = []"
| "stream_effects_at p ((q, StreamEffect e) # es) = (if q = p then [e] else []) @ stream_effects_at p es"
| "stream_effects_at p ((q, NonStreamEffect e) # es) = stream_effects_at p es"

definition new_stream_effects :: "example_server \<Rightarrow> clock_server \<Rightarrow> clock_stream_effect list" where
  "new_stream_effects s s' =
     stream_effects_at (time_stream s) (drop (length (server_trace (clock_server s))) (server_trace s'))"

definition record_given :: "clock_stream_effect list \<Rightarrow> ticking \<Rightarrow> ticking" where
  "record_given es t = t\<lparr>given_tags := given_tags t \<union> \<Union> (handed_out ` set es), gave := gave t @ es\<rparr>"

definition joining :: "clock_stream \<Rightarrow> tick_note list" where
  "joining h = (case next_conn (data (conns h)) of None \<Rightarrow> [] | Some (p, _) \<Rightarrow> [ClientJoined p])"

datatype clock_event =
    TimePasses int
  | Tick "ptr list \<Rightarrow> ptr" int
  | Turn "(clock_request, string) activation" clock_request ptr
  | Sync ptr bool

inductive clock_step :: "clock_event \<Rightarrow> ticking \<Rightarrow> ticking \<Rightarrow> bool" where
  time_passes: "clock_step (TimePasses now) t (t\<lparr>clk := (clk t)\<lparr>clock_server := (clock_server (clk t))\<lparr>world := now\<rparr>\<rparr>\<rparr>)"
| ticks_once: "operator_new new \<Longrightarrow> now = world (clock_server (clk t)) \<Longrightarrow> ticker_turn new now (clk t) = Inr (Some out) \<Longrightarrow>
    clock_step (Tick new now) t
      (record_given (effects out) (t\<lparr>clk := put_clock_stream (handler_after out) (clk t), ticks := ticks t @ [Ticked now]\<rparr>))"
| turns: "operator_new (new_connection a) \<Longrightarrow> operator_new (new_tag a) \<Longrightarrow> tag \<in> set (server_pending (clock_server (clk t))) \<Longrightarrow>
    server_turn a r tag True (clock_server (clk t)) = Inr s' \<Longrightarrow>
    clock_step (Turn a r tag) t
      (record_given (new_stream_effects (clk t) s')
         (t\<lparr>clk := (clk t)\<lparr>clock_server := s'\<rparr>,
            ticks := ticks t @ (if tag = time_stream (clk t) then case_option [] joining (clock_stream_of (clk t)) else [])\<rparr>))"
| syncs: "tag \<in> given_tags t \<Longrightarrow> clock_stream_of (clk t) = Some h \<Longrightarrow>
    run_synchronization_step tag ok h = Inr (h', es, all) \<Longrightarrow>
    clock_step (Sync tag ok) t
      (record_given es (t\<lparr>clk := put_clock_stream h' (clk t), given_tags := given_tags t - {tag}\<rparr>))"

definition ticking_start :: "example_server \<Rightarrow> ticking" where
  "ticking_start s =
     (let es = stream_effects_at (time_stream s) (server_trace (clock_server s))
      in \<lparr>clk = s, given_tags = \<Union> (handed_out ` set es), gave = es, ticks = []\<rparr>)"

text \<open>The times of the ticks since a client joined.\<close>

fun note_tick :: "ptr \<Rightarrow> tick_note \<Rightarrow> int list \<Rightarrow> int list" where
  "note_tick p (ClientJoined q) ts = (if q = p then [] else ts)"
| "note_tick p (Ticked now) ts = ts @ [now]"

definition times_since_join :: "ptr \<Rightarrow> tick_note list \<Rightarrow> int list" where
  "times_since_join p notes = fold (note_tick p) notes []"

lemma times_since_join_append:
  "times_since_join p (notes @ ms) = fold (note_tick p) ms (times_since_join p notes)"
  by (simp add: times_since_join_def)

section \<open>The stream behind the running server\<close>

definition clock_sys :: "ticking \<Rightarrow> clock_stream_sys" where
  "clock_sys t = \<lparr>hdl = the (clock_stream_of (clk t)), outstanding = given_tags t, trace = gave t\<rparr>"

definition time_update :: "int \<Rightarrow> int \<Rightarrow> (string, status) responder_call" where
  "time_update start now = OpWrite (format_duration COMPOUND (now - start))"

text \<open>Every member has been told the times of the ticks since it joined.\<close>

definition told :: "int \<Rightarrow> tick_note list \<Rightarrow> (string, status) session_group \<Rightarrow> bool" where
  "told start notes g \<longleftrightarrow> (\<forall>p given. sessions g p = Some given \<longrightarrow> given = map (time_update start) (times_since_join p notes))"

definition tick_inv :: "int \<Rightarrow> ticking \<Rightarrow> bool" where
  "tick_inv start t \<longleftrightarrow> clock_stream_of (clk t) \<noteq> None \<and> server_start_time (clk t) = start \<and> spec_inv (clock_sys t)
     \<and> told start (ticks t) (group_of (clock_sys t))"

lemma put_clock_stream_of [simp]:
  "clock_stream_of s \<noteq> None \<Longrightarrow> clock_stream_of (put_clock_stream h s) = Some h"
  "server_start_time (put_clock_stream h s) = server_start_time s"
  by (auto simp: clock_stream_of_def put_clock_stream_def use_safely_def map_of_um_adjust split: option.splits)

lemma stream_effects_at_map: "stream_effects_at p (map (Pair p \<circ> StreamEffect) es) = es"
  by (induction es) auto

lemma stream_effects_at_append: "stream_effects_at p (es @ fs) = stream_effects_at p es @ stream_effects_at p fs"
  by (induction p es rule: stream_effects_at.induct) auto

lemma stream_effects_at_elsewhere: "q \<noteq> p \<Longrightarrow> stream_effects_at p (map (Pair q) fs) = []"
proof (induction fs)
  case (Cons f fs)
  then show ?case by (cases f) auto
qed simp

text \<open>A turn for the stream is the arrival of a request followed by an activation; every other turn leaves
  the stream alone.\<close>

lemma turn_on_stream:
  assumes turn: "server_turn a r (time_stream s) True (clock_server s) = Inr s'" and str: "clock_stream_of s = Some h"
  obtains h' es where "activate_next (new_connection a) (new_tag a) (default_request a)
      (h\<lparr>conns := (conns h)\<lparr>data := request_arrives r (data (conns h))\<rparr>\<rparr>) = (h', es)"
    "clock_stream_of (s\<lparr>clock_server := s'\<rparr>) = Some h'" "new_stream_effects s s' = es"
proof -
  let ?h = "h\<lparr>conns := (conns h)\<lparr>data := request_arrives r (data (conns h))\<rparr>\<rparr>"
  let ?s1 = "(clock_server s)\<lparr>server_pending := remove1 (time_stream s) (server_pending (clock_server s))\<rparr>"
  from str have at: "map_of (handlers_of (clock_server s)) (time_stream s) = Some (StreamRpc h)"
    by (auto simp: clock_stream_of_def split: option.splits rpc_handler.splits)
  with turn have "activate_at a (time_stream s) (StreamRpc ?h) ?s1 = Inr s'" by (simp add: server_turn_def)
  then obtain g w' fs where f: "rpc_activate_next a (StreamRpc ?h, world ?s1) = Inr ((g, w'), fs)"
    "handlers_of s' = um_adjust (\<lambda>_. g) (time_stream s) (handlers_of ?s1)"
    "server_trace s' = server_trace ?s1 @ map (Pair (time_stream s)) fs" by (rule activate_at_fields)
  obtain h' and es :: "clock_stream_effect list" where
    n: "activate_next (new_connection a) (new_tag a) (default_request a) ?h = (h', es)" by (rule prod.exhaust)
  with f(1) have "g = StreamRpc h'" "fs = map StreamEffect es" by simp_all
  with f(2,3) at have "clock_stream_of (s\<lparr>clock_server := s'\<rparr>) = Some h'" "new_stream_effects s s' = es"
    by (simp_all add: clock_stream_of_def map_of_um_adjust new_stream_effects_def stream_effects_at_map)
  with n show ?thesis by (rule that)
qed

lemma turn_elsewhere:
  assumes "server_turn a r tag True (clock_server s) = Inr s'" and "tag \<noteq> time_stream s"
  shows "clock_stream_of (s\<lparr>clock_server := s'\<rparr>) = clock_stream_of s \<and> new_stream_effects s s' = []"
proof -
  let ?s1 = "(clock_server s)\<lparr>server_pending := remove1 tag (server_pending (clock_server s))\<rparr>"
  from assms(1) obtain g where "activate_at a tag g ?s1 = Inr s'"
    by (auto simp: server_turn_def split: option.splits)
  then obtain g' w' fs where f: "handlers_of s' = um_adjust (\<lambda>_. g') tag (handlers_of ?s1)"
    "server_trace s' = server_trace ?s1 @ map (Pair tag) fs" by (rule activate_at_fields)
  with assms(2) show ?thesis
    by (simp add: clock_stream_of_def map_of_um_adjust new_stream_effects_def stream_effects_at_elsewhere)
qed

text \<open>The steps of the stream handler among those of the server.\<close>

lemma ticker_turn_stream:
  "clock_stream_of s = Some h \<Longrightarrow>
     ticker_turn new now s = Inr (write_client new (format_duration COMPOUND (now - server_start_time s)) nullptr h)"
  by (auto simp: ticker_turn_def get_time_def clock_stream_of_def write_everyone_def split: option.splits rpc_handler.splits)

lemma clock_sys_simps [simp]:
  "hdl (clock_sys (record_given es t)) = hdl (clock_sys t)"
  "outstanding (clock_sys (record_given es t)) = given_tags t \<union> \<Union> (handed_out ` set es)"
  "trace (clock_sys (record_given es t)) = gave t @ es"
  by (simp_all add: clock_sys_def record_given_def)

text \<open>What a step of the group does to it, with the note of the step.\<close>

lemma told_step:
  assumes "told start notes g" and "group_step e g g'"
  shows "e = Join p \<Longrightarrow> told start (notes @ [ClientJoined p]) g'"
    and "e = Broadcast (time_update start now) \<Longrightarrow> told start (notes @ [Ticked now]) g'"
    and "e = Quiet \<or> e = Written q \<or> e = Leave q \<Longrightarrow> told start notes g'"
  using assms by (auto simp: told_def times_since_join_append split: if_splits)

lemma spec_step:
  assumes "spec_inv s" and "environment_allows s ev" and "stream_step ev s = Some (Inr s')"
  shows "spec_inv s'" and "group_step (group_event_of s ev) (group_of s) (group_of s')"
proof -
  have step: "allowed_step ev s s'" using assms(2,3) by (simp add: allowed_step_def)
  show "spec_inv s'" by (rule spec_inv_step [OF assms(1) step])
  show "group_step (group_event_of s ev) (group_of s) (group_of s')" using handler_simulates [OF assms(1) step] by simp
qed

lemma tick_inv_tick:
  assumes inv: "tick_inv start t" and new: "operator_new new" and tick: "ticker_turn new now (clk t) = Inr (Some out)"
  shows "tick_inv start
    (record_given (effects out) (t\<lparr>clk := put_clock_stream (handler_after out) (clk t), ticks := ticks t @ [Ticked now]\<rparr>))"
proof -
  from inv obtain h where h: "clock_stream_of (clk t) = Some h" by (auto simp: tick_inv_def)
  let ?t = "record_given (effects out) (t\<lparr>clk := put_clock_stream (handler_after out) (clk t), ticks := ticks t @ [Ticked now]\<rparr>)"
  let ?ev = "EvWrite new (format_duration COMPOUND (now - start)) nullptr :: (clock_request, string, status, unit) stream_event"
  have "write_client new (format_duration COMPOUND (now - start)) nullptr h = Some out"
    using tick inv by (simp add: tick_inv_def ticker_turn_stream [OF h])
  then have step: "stream_step ?ev (clock_sys t) = Some (Inr (clock_sys ?t))"
    using h by (simp add: clock_sys_def record_send_def record_effects_def record_given_def)
  have spec: "spec_inv (clock_sys t)" "told start (ticks t) (group_of (clock_sys t))" using inv by (simp_all add: tick_inv_def)
  have env: "environment_allows (clock_sys t) ?ev" using new by simp
  have "group_event_of (clock_sys t) ?ev = Broadcast (time_update start now)" by (simp add: send_event_def time_update_def)
  with told_step(2) [OF spec(2) spec_step(2) [OF spec(1) env step]] spec_step(1) [OF spec(1) env step] h inv
  show ?thesis by (simp add: tick_inv_def record_given_def)
qed

lemma tick_inv_sync:
  assumes inv: "tick_inv start t" and tag: "tag \<in> given_tags t" and h: "clock_stream_of (clk t) = Some h"
    and sync: "run_synchronization_step tag ok h = Inr (h', es, all)"
  shows "tick_inv start (record_given es (t\<lparr>clk := put_clock_stream h' (clk t), given_tags := given_tags t - {tag}\<rparr>))"
proof -
  let ?t = "record_given es (t\<lparr>clk := put_clock_stream h' (clk t), given_tags := given_tags t - {tag}\<rparr>)"
  let ?ev = "EvSync tag ok :: (clock_request, string, status, unit) stream_event"
  have step: "stream_step ?ev (clock_sys t) = Some (Inr (clock_sys ?t))"
    using h sync by (simp add: clock_sys_def record_effects_def record_given_def)
  have spec: "spec_inv (clock_sys t)" "told start (ticks t) (group_of (clock_sys t))" using inv by (simp_all add: tick_inv_def)
  have env: "environment_allows (clock_sys t) ?ev" using tag by (simp add: clock_sys_def)
  have "\<exists>q. sync_event tag ok c = Quiet \<or> sync_event tag ok c = Written q \<or> sync_event tag ok c = Leave q"
    for c :: "clock_request connections"
    by (auto simp: sync_event_def split: option.splits)
  then obtain q where "group_event_of (clock_sys t) ?ev = Quiet \<or> group_event_of (clock_sys t) ?ev = Written q
      \<or> group_event_of (clock_sys t) ?ev = Leave q"
    by (metis group_event_of.simps(4))
  with told_step(3) [OF spec(2) spec_step(2) [OF spec(1) env step]] spec_step(1) [OF spec(1) env step] h inv
  show ?thesis by (simp add: tick_inv_def record_given_def)
qed

lemma tick_inv_turn:
  assumes inv: "tick_inv start t" and new: "operator_new (new_connection a)" "operator_new (new_tag a)"
    and turn: "server_turn a r tag True (clock_server (clk t)) = Inr s'"
  shows "tick_inv start (record_given (new_stream_effects (clk t) s')
    (t\<lparr>clk := (clk t)\<lparr>clock_server := s'\<rparr>,
       ticks := ticks t @ (if tag = time_stream (clk t) then case_option [] joining (clock_stream_of (clk t)) else [])\<rparr>))"
    (is "tick_inv start ?t")
proof (cases "tag = time_stream (clk t)")
  case False
  with turn_elsewhere [OF turn False] inv show ?thesis by (simp add: tick_inv_def clock_sys_def record_given_def)
next
  case True
  from inv obtain h where h: "clock_stream_of (clk t) = Some h" by (auto simp: tick_inv_def)
  from turn have "server_turn a r (time_stream (clk t)) True (clock_server (clk t)) = Inr s'" using True by simp
  from this h obtain h' es where t': "activate_next (new_connection a) (new_tag a) (default_request a)
      (h\<lparr>conns := (conns h)\<lparr>data := request_arrives r (data (conns h))\<rparr>\<rparr>) = (h', es)"
    "clock_stream_of ((clk t)\<lparr>clock_server := s'\<rparr>) = Some h'" "new_stream_effects (clk t) s' = es"
    by (rule turn_on_stream)
  let ?s = "(clock_sys t)\<lparr>hdl := h\<lparr>conns := (conns h)\<lparr>data := request_arrives r (data (conns h))\<rparr>\<rparr>\<rparr>"
  let ?ev1 = "EvRequest r :: (clock_request, string, status, unit) stream_event"
  let ?ev2 = "EvActivate (new_connection a) (new_tag a) (default_request a) :: (clock_request, string, status, unit) stream_event"
  have spec: "spec_inv (clock_sys t)" "told start (ticks t) (group_of (clock_sys t))" using inv by (simp_all add: tick_inv_def)
  have step1: "stream_step ?ev1 (clock_sys t) = Some (Inr ?s)" using h by (simp add: clock_sys_def)
  from spec_step [OF spec(1) _ step1] have 1: "spec_inv ?s" "group_of ?s = group_of (clock_sys t)" by simp_all
  have step2: "stream_step ?ev2 ?s = Some (Inr (clock_sys ?t))"
    using t' by (simp add: clock_sys_def record_effects_def record_given_def)
  have env: "environment_allows ?s ?ev2" using new by simp
  note 2 = spec_step [OF 1(1) env step2]
  have told: "told start (ticks t) (group_of ?s)" using spec(2) 1(2) by simp
  have "told start (ticks t @ joining h) (group_of (clock_sys ?t))"
  proof (cases "next_conn (data (conns h))")
    case None
    then have "group_event_of ?s ?ev2 = Quiet" "joining h = []" by (simp_all add: request_arrives_def joining_def)
    with told_step(3) [OF told 2(2)] show ?thesis by simp
  next
    case (Some c)
    then obtain p x where "next_conn (data (conns h)) = Some (p, x)" by (cases c) auto
    then have "group_event_of ?s ?ev2 = Join p" "joining h = [ClientJoined p]" by (simp_all add: request_arrives_def joining_def)
    with told_step(1) [OF told 2(2)] show ?thesis by simp
  qed
  with 2(1) t' True h inv show ?thesis by (simp add: tick_inv_def record_given_def)
qed

lemma tick_inv_runs:
  "runs clock_step t evs t' \<Longrightarrow> tick_inv start t \<Longrightarrow> tick_inv start t'"
proof (induction rule: runs.induct)
  case (runs_snoc evs t1 ev t2)
  note inv = runs_snoc.IH [OF runs_snoc.prems]
  from runs_snoc.hyps(2) show ?case
  proof (cases rule: clock_step.cases)
    case (time_passes now)
    with inv show ?thesis by (simp add: tick_inv_def clock_sys_def clock_stream_of_def)
  next
    case (ticks_once new now out)
    show ?thesis unfolding ticks_once(2) by (rule tick_inv_tick [OF inv ticks_once(3,5)])
  next
    case (turns a tag r s')
    show ?thesis unfolding turns(2) by (rule tick_inv_turn [OF inv turns(3,4,6)])
  next
    case (syncs tag h ok h' es all)
    show ?thesis unfolding syncs(2) by (rule tick_inv_sync [OF inv syncs(3-5)])
  qed
qed simp

text \<open>The constructor: the stream is registered and activated first, and the registration of the answers is at
  another address.\<close>

lemma registered_stream:
  fixes s :: clock_server
  assumes "operator_new new" and "register_async_stream new a s = Inr (p, s')"
  obtains h and es :: "clock_stream_effect list" where
    "activate_next (new_connection a) (new_tag a) (default_request a) new_stream_handler = (h, es)"
    "map_of (handlers_of s') p = Some (StreamRpc h)" "server_trace s' = server_trace s @ map (Pair p \<circ> StreamEffect) es"
proof -
  obtain p' s1 where st: "store_handler new (StreamRpc new_stream_handler) s = (p', s1)" by (rule prod.exhaust)
  note s1 = store_handler_fields [OF assms(1) st]
  have tr: "server_trace s1 = server_trace s" using st by (auto simp: store_handler_def Let_def)
  from assms(2) st have p': "p' = p" and "activate_stored a p s1 = Inr s'"
    by (auto simp: register_async_stream_def map_sum_def split: sum.splits)
  with s1 have "activate_at a p (StreamRpc new_stream_handler) (s1\<lparr>registering := remove1 p (registering s1)\<rparr>) = Inr s'"
    by (simp add: activate_stored_def)
  then obtain g w' fs where f: "rpc_activate_next a (StreamRpc new_stream_handler, world s1) = Inr ((g, w'), fs)"
    "handlers_of s' = um_adjust (\<lambda>_. g) p (handlers_of s1)" "server_trace s' = server_trace s1 @ map (Pair p) fs"
    by (auto elim: activate_at_fields)
  obtain h and es :: "clock_stream_effect list" where
    n: "activate_next (new_connection a) (new_tag a) (default_request a) new_stream_handler = (h, es)" by (rule prod.exhaust)
  with f(1) have g: "g = StreamRpc h" "fs = map StreamEffect es" by simp_all
  with f(2) s1 p' have "map_of (handlers_of s') p = Some (StreamRpc h)" by (simp add: map_of_um_adjust)
  with n f(3) g tr show ?thesis by (intro that) auto
qed

lemma registered_answers:
  fixes s :: clock_server
  assumes "operator_new new" and "register_async new a cb s = Inr s'" and "p \<in> set (um_keys (handlers_of s))"
  shows "map_of (handlers_of s') p = map_of (handlers_of s) p
     \<and> stream_effects_at p (server_trace s') = stream_effects_at p (server_trace s)"
proof -
  obtain q s1 where st: "store_handler new (NonStreamRpc (new_ns_handler cb)) s = (q, s1)" by (rule prod.exhaust)
  note s1 = store_handler_fields [OF assms(1) st]
  have tr: "server_trace s1 = server_trace s" using st by (auto simp: store_handler_def Let_def)
  have "activate_at a q (NonStreamRpc (new_ns_handler cb)) (s1\<lparr>registering := remove1 q (registering s1)\<rparr>) = Inr s'"
    using assms(2) st s1 by (simp add: register_async_def activate_stored_def)
  then obtain g w' fs where "server_trace s' = server_trace s1 @ map (Pair q) fs" by (auto elim: activate_at_fields)
  moreover have "q \<noteq> p" using s1 assms(3) by auto
  ultimately show ?thesis using register_async_fields [OF assms(1,2)] assms(3) tr
    by (auto simp: stream_effects_at_append stream_effects_at_elsewhere)
qed

lemma tick_inv_start:
  assumes new: "operator_new new" "operator_new (new_connection a)" "operator_new (new_tag a)"
    and s: "new_example_server new a start address = Inr s"
  shows "tick_inv start (ticking_start s)"
proof -
  let ?s0 = "new_async_server () address start :: clock_server"
  from s obtain p s1 where r: "register_async_stream new a ?s0 = Inr (p, s1)"
    "register_async new a (get_time_callback start) s1 = Inr (clock_server s)" "time_stream s = p" "server_start_time s = start"
    by (auto simp: new_example_server_def split: sum.splits prod.splits)
  from registered_stream [OF new(1) r(1)] obtain h and es :: "clock_stream_effect list" where
    h: "activate_next (new_connection a) (new_tag a) (default_request a) new_stream_handler = (h, es)"
      "map_of (handlers_of s1) p = Some (StreamRpc h)" "server_trace s1 = server_trace ?s0 @ map (Pair p \<circ> StreamEffect) es" .
  then have "p \<in> set (um_keys (handlers_of s1))" by (auto simp: in_um_keys_map_of)
  from registered_answers [OF new(1) r(2) this] h
  have t: "clock_stream_of s = Some h" "stream_effects_at (time_stream s) (server_trace (clock_server s)) = es"
    using r(3) by (simp_all add: clock_stream_of_def stream_effects_at_map new_async_server_def)
  let ?sys = "stream_start None None :: clock_stream_sys"
  let ?ev = "EvActivate (new_connection a) (new_tag a) (default_request a) :: (clock_request, string, status, unit) stream_event"
  have step: "stream_step ?ev ?sys = Some (Inr (clock_sys (ticking_start s)))"
    using h(1) t by (simp add: stream_start_def new_stream_handler_def record_effects_def clock_sys_def ticking_start_def Let_def)
  have env: "environment_allows ?sys ?ev" using new by simp
  have "group_event_of ?sys ?ev = Quiet"
    by (simp add: stream_start_def new_stream_handler_def make_atomic_data_def new_connections_def)
  with spec_step [OF spec_inv_start env step] have "spec_inv (clock_sys (ticking_start s))"
    "group_of (clock_sys (ticking_start s)) = empty_group" by simp_all
  with t r(4) show ?thesis by (simp add: tick_inv_def ticking_start_def Let_def told_def empty_group_def)
qed

section \<open>Properties\<close>

text \<open>
  Claim C29. While the clock server runs, whatever the order of calls, ticks and completions: a client of the stream
  has been given the time of every tick since it joined, in order, each as the time since the construction
  of the server, and nothing else. A further turn of the ticker always finds its stream; it writes if
  nothing is on its way and otherwise waits.
\<close>

theorem clock_ticks_reach_clients:
  assumes "operator_new new" "operator_new (new_connection a)" "operator_new (new_tag a)"
    and "new_example_server new a start address = Inr s" and "runs clock_step (ticking_start s) evs t"
  shows "\<exists>h. clock_stream_of (clk t) = Some h
     \<and> (\<forall>p \<in> set (um_keys (active (data (conns h)))). calls_on p (gave t) = map (time_update start) (times_since_join p (ticks t)))
     \<and> (\<exists>written. ticker_turn alloc now (clk t) = Inr written \<and> (written = None \<longleftrightarrow> processing (data (conns h)) \<noteq> {}))"
proof -
  from tick_inv_runs [OF assms(5) tick_inv_start [OF assms(1-4)]] have inv: "tick_inv start t" .
  then obtain h where h: "clock_stream_of (clk t) = Some h" by (auto simp: tick_inv_def)
  with inv have "\<forall>p \<in> set (um_keys (active (data (conns h)))). calls_on p (gave t) = map (time_update start) (times_since_join p (ticks t))"
    by (auto simp: tick_inv_def told_def group_of_def clock_sys_def split: if_splits)
  moreover have "\<exists>written. ticker_turn alloc now (clk t) = Inr written \<and> (written = None \<longleftrightarrow> processing (data (conns h)) \<noteq> {})"
    by (auto simp: ticker_turn_stream [OF h] write_client_def wait_to_use_safely_def previous_updates_processed_def
        split: prod.splits)
  ultimately show ?thesis using h by blast
qed

section \<open>Witness\<close>

text \<open>A client joins, and a second after the construction it is told the time.\<close>

definition clock_started :: example_server where
  "clock_started = \<lparr>server_start_time = 0, time_stream = 1, keep_ticking = True, ticker = Running, clock_server =
     \<lparr>server_calls = [RegisterService (), AddListeningPort ''0.0.0.0:50055'', SetMaxMessageSize int_max,
        AddCompletionQueue, BuildAndStart],
      rpc_handlers = \<lparr>data = [(1, StreamRpc \<lparr>conns = \<lparr>data = \<lparr>next_conn = Some (1, \<lparr>request = Empty\<rparr>), active = [],
          processing = {}, tags = [(1, mk_Tag 1 Done)]\<rparr>\<rparr>, connection_callback = None, deletion_callback = None\<rparr>),
        (2, NonStreamRpc \<lparr>callback = get_time_callback 0, ns_queue = [], connection = Some \<lparr>ns_request = Empty\<rparr>\<rparr>)]\<rparr>,
      server_pending = [1, 2], registering = [], server_down = False, queue_down = False, server_thread = Running,
      world = 0, server_trace = [(1, StreamEffect (AsyncNotifyWhenDone 1 1)), (1, StreamEffect (RequestRpc 1)),
        (2, NonStreamEffect NsRequestRpc)]\<rparr>\<rparr>"

lemmas clock_eval = server_eval clock_env_def activate_next_def activate_body_def promote_next_def
  new_stream_handler_def new_connections_def live_connections_def make_tag_def Let_def

lemma clock_starts: "new_example_server bump_new clock_env 0 ''0.0.0.0:50055'' = Inr clock_started"
  by (simp add: new_example_server_def register_async_stream_def register_async_def clock_eval clock_started_def
      split: prod.splits)

definition joined_stream :: clock_stream where
  "joined_stream = \<lparr>conns = \<lparr>data = \<lparr>next_conn = Some (2, \<lparr>request = Empty\<rparr>), active = [(1, \<lparr>request = Empty\<rparr>)],
     processing = {}, tags = [(1, mk_Tag 1 Done), (2, mk_Tag 2 Done)]\<rparr>\<rparr>, connection_callback = None, deletion_callback = None\<rparr>"

lemma clock_started_simps:
  "time_stream clock_started = 1" "server_start_time clock_started = 0"
  "case_option [] joining (clock_stream_of clock_started) = [ClientJoined 1]" "1 \<in> set (server_pending (clock_server clock_started))"
  by (simp_all add: clock_started_def clock_stream_of_def joining_def)

lemma client_joins:
  "\<exists>s'. server_turn clock_env Empty 1 True (clock_server clock_started) = Inr s'
     \<and> map_of (handlers_of s') 1 = Some (StreamRpc joined_stream)"
  by (simp add: clock_started_def server_turn_def clock_eval request_arrives_def joined_stream_def eval_nat_numeral)

lemma joined_is_told:
  "\<exists>out :: (clock_request, string, status, unit) send_outcome. write_client bump_new time nullptr joined_stream = Some out
     \<and> um_keys (active (data (conns (handler_after out)))) = [1]"
  by (simp add: write_client_def wait_to_use_safely_def send_body_def previous_updates_processed_def
      joined_stream_def um_keys_def stream_eval)

theorem clock_ticks_reach_clients_witness:
  "\<exists>t h. runs clock_step (ticking_start clock_started) [Turn clock_env Empty 1, TimePasses 1000000000, Tick bump_new 1000000000] t
     \<and> clock_stream_of (clk t) = Some h \<and> calls_on 1 (gave t) = [OpWrite (format_duration COMPOUND 1000000000)]"
proof -
  let ?t0 = "ticking_start clock_started"
  have t0: "clk ?t0 = clock_started" "ticks ?t0 = []" by (simp_all add: ticking_start_def Let_def)
  have new: "operator_new (new_connection clock_env)" "operator_new (new_tag clock_env)" by (simp_all add: clock_env_def)
  obtain s' where s': "server_turn clock_env Empty 1 True (clock_server clock_started) = Inr s'"
    "map_of (handlers_of s') 1 = Some (StreamRpc joined_stream)" using client_joins by blast
  define t1 where "t1 = record_given (new_stream_effects clock_started s')
    (?t0\<lparr>clk := clock_started\<lparr>clock_server := s'\<rparr>, ticks := [ClientJoined 1]\<rparr>)"
  have t1: "clock_step (Turn clock_env Empty 1) ?t0 t1" "clk t1 = clock_started\<lparr>clock_server := s'\<rparr>" "ticks t1 = [ClientJoined 1]"
    using clock_step.turns [OF new, of 1 ?t0 Empty s'] s'(1) clock_started_simps(4)
    by (simp_all add: t0 clock_started_simps(1-3) t1_def record_given_def)
  have str: "clock_stream_of (clk t1) = Some joined_stream" "server_start_time (clk t1) = 0"
    unfolding t1(2) using s'(2) by (simp_all add: clock_stream_of_def clock_started_simps(1,2))
  define now :: int where "now = 1000000000"
  obtain out :: "(clock_request, string, status, unit) send_outcome" where
    out: "write_client bump_new (format_duration COMPOUND now) nullptr joined_stream = Some out"
    "um_keys (active (data (conns (handler_after out)))) = [1]" using joined_is_told [of "format_duration COMPOUND now"] by blast
  define t2 where "t2 = t1\<lparr>clk := (clk t1)\<lparr>clock_server := (clock_server (clk t1))\<lparr>world := now\<rparr>\<rparr>\<rparr>"
  have t2: "clock_step (TimePasses now) t1 t2" "clock_stream_of (clk t2) = Some joined_stream" "server_start_time (clk t2) = 0"
    "world (clock_server (clk t2)) = now" "ticks t2 = [ClientJoined 1]"
    using clock_step.time_passes [of now t1] str t1(3) by (simp_all add: t2_def clock_stream_of_def)
  with ticker_turn_stream [OF t2(2), of bump_new now] out(1) have "ticker_turn bump_new now (clk t2) = Inr (Some out)" by simp
  from clock_step.ticks_once [OF operator_new_bump _ this] t2(2,4,5) obtain t3 where
    t3: "clock_step (Tick bump_new now) t2 t3" "clock_stream_of (clk t3) = Some (handler_after out)"
      "ticks t3 = [ClientJoined 1, Ticked now]"
    by (auto simp: record_given_def)
  have run: "runs clock_step ?t0 [Turn clock_env Empty 1, TimePasses now, Tick bump_new now] t3"
    by (rule runs_Cons [where step = clock_step, OF t1(1)], rule runs_Cons [where step = clock_step, OF t2(1)],
        rule runs_Cons [where step = clock_step, OF t3(1)], rule runs_nil)
  from clock_ticks_reach_clients [OF operator_new_bump new clock_starts run] t3 out(2)
  have "calls_on 1 (gave t3) = [OpWrite (format_duration COMPOUND now)]" by (simp add: times_since_join_def time_update_def)
  with run t3(2) show ?thesis unfolding now_def by blast
qed

end
