(* ===== verification/Blocking_Queue.thy ===== *)
theory Blocking_Queue
  imports Grpcw_Prelude "HOL-Library.Sublist"
begin

text \<open>
  The thread-safe queues \<open>grpcw::util::BlockingQueue\<close> (include/grpcw/util/blocking_queue.hpp) and
  \<open>ltb::util::BlockingQueue\<close> (ltb-util/src/ltb/util/blocking_queue.hpp).

  The record holds \<open>queue_\<close> (as \<open>queue\<close>); each operation is the body the code runs with \<open>mutex_\<close> held. A result
  of \<open>None\<close> of \<open>pop_front\<close> is the wait on \<open>condition_\<close>, and \<open>Inl FrontOfEmpty\<close> is the undefined
  behaviour of \<open>std::queue::front\<close> on an empty queue. The locale \<open>fifo_queue\<close> states what a client
  may rely on and is interpreted on both classes. The last section runs any number of producer
  and consumer threads against one queue, with the condition variable, and shows that values
  leave in the order they came in and that no wake-up is lost.
\<close>

section \<open>The operations of grpcw::util::BlockingQueue\<close>

record 'a blocking_queue =
  queue :: "'a list"

datatype queue_error = FrontOfEmpty

definition push_back :: "'a \<Rightarrow> 'a blocking_queue \<Rightarrow> 'a blocking_queue" where
  "push_back value q = q\<lparr>queue := queue q @ [value]\<rparr>"

text \<open>\<open>emplace_back\<close> builds the element in place from constructor arguments.\<close>

definition emplace_back :: "('args \<Rightarrow> 'a) \<Rightarrow> 'args \<Rightarrow> 'a blocking_queue \<Rightarrow> 'a blocking_queue" where
  "emplace_back ctor args q = q\<lparr>queue := queue q @ [ctor args]\<rparr>"

definition pop_front :: "'a blocking_queue \<Rightarrow> ('a \<times> 'a blocking_queue) option" where
  "pop_front q = (case queue q of [] \<Rightarrow> None | rc # rest \<Rightarrow> Some (rc, q\<lparr>queue := rest\<rparr>))"

text \<open>The loop \<open>while (queue_.size() > 1) queue_.pop();\<close>.\<close>

fun pop_while_more_than_one :: "'a list \<Rightarrow> 'a list" where
  "pop_while_more_than_one (x # y # zs) = pop_while_more_than_one (y # zs)"
| "pop_while_more_than_one xs = xs"

definition pop_all_but_most_recent :: "'a blocking_queue \<Rightarrow> queue_error + ('a \<times> 'a blocking_queue)" where
  "pop_all_but_most_recent q =
     (case pop_while_more_than_one (queue q) of
        [] \<Rightarrow> Inl FrontOfEmpty
      | x # xs \<Rightarrow> Inr (x, q\<lparr>queue := x # xs\<rparr>))"

definition bq_empty :: "'a blocking_queue \<Rightarrow> bool" where
  "bq_empty q \<longleftrightarrow> queue q = []"

definition bq_size :: "'a blocking_queue \<Rightarrow> nat" where
  "bq_size q = length (queue q)"

text \<open>The loop \<open>while (queue_.size() > 0) queue_.pop();\<close>.\<close>

fun pop_while_any :: "'a list \<Rightarrow> 'a list" where
  "pop_while_any (x # xs) = pop_while_any xs"
| "pop_while_any [] = []"

definition bq_clear :: "'a blocking_queue \<Rightarrow> 'a blocking_queue" where
  "bq_clear q = q\<lparr>queue := pop_while_any (queue q)\<rparr>"

definition new_blocking_queue :: "'a blocking_queue" where
  "new_blocking_queue = \<lparr>queue = []\<rparr>"

section \<open>The operations of ltb::util::BlockingQueue\<close>

definition ltb_push_back :: "'a \<Rightarrow> 'a blocking_queue \<Rightarrow> 'a blocking_queue" where
  "ltb_push_back value q = q\<lparr>queue := queue q @ [value]\<rparr>"

definition ltb_emplace_back :: "('args \<Rightarrow> 'a) \<Rightarrow> 'args \<Rightarrow> 'a blocking_queue \<Rightarrow> 'a blocking_queue" where
  "ltb_emplace_back ctor args q = q\<lparr>queue := queue q @ [ctor args]\<rparr>"

definition clear_all_and_push_back :: "'a \<Rightarrow> 'a blocking_queue \<Rightarrow> 'a blocking_queue" where
  "clear_all_and_push_back value q = q\<lparr>queue := pop_while_any (queue q) @ [value]\<rparr>"

definition clear_all_and_emplace_back ::
    "('args \<Rightarrow> 'a) \<Rightarrow> 'args \<Rightarrow> 'a blocking_queue \<Rightarrow> 'a blocking_queue" where
  "clear_all_and_emplace_back ctor args q = q\<lparr>queue := pop_while_any (queue q) @ [ctor args]\<rparr>"

definition ltb_pop_front :: "'a blocking_queue \<Rightarrow> ('a \<times> 'a blocking_queue) option" where
  "ltb_pop_front q =
     (if queue q = [] then None else Some (hd (queue q), q\<lparr>queue := tl (queue q)\<rparr>))"

definition ltb_pop_all_but_most_recent ::
    "'a blocking_queue \<Rightarrow> queue_error + ('a \<times> 'a blocking_queue)" where
  "ltb_pop_all_but_most_recent q =
     (let rest = pop_while_more_than_one (queue q)
      in if rest = [] then Inl FrontOfEmpty else Inr (hd rest, q\<lparr>queue := rest\<rparr>))"

definition ltb_empty :: "'a blocking_queue \<Rightarrow> bool" where
  "ltb_empty q \<longleftrightarrow> queue q = []"

definition ltb_size :: "'a blocking_queue \<Rightarrow> nat" where
  "ltb_size q = length (queue q)"

section \<open>The queue contract\<close>

lemma pop_while_any_Nil [simp]: "pop_while_any xs = []"
  by (induction xs) auto

lemma pop_while_more_than_one_eq [simp]:
  "pop_while_more_than_one xs = (if xs = [] then [] else [last xs])"
  by (induction xs rule: pop_while_more_than_one.induct) auto

lemmas bq_defs = push_back_def emplace_back_def pop_front_def pop_all_but_most_recent_def
  bq_empty_def bq_size_def bq_clear_def new_blocking_queue_def
lemmas ltb_bq_defs = ltb_push_back_def ltb_emplace_back_def clear_all_and_push_back_def
  clear_all_and_emplace_back_def ltb_pop_front_def ltb_pop_all_but_most_recent_def
  ltb_empty_def ltb_size_def

locale fifo_queue =
  fixes contents :: "'q \<Rightarrow> 'a list"
    and push :: "'a \<Rightarrow> 'q \<Rightarrow> 'q"
    and pop :: "'q \<Rightarrow> ('a \<times> 'q) option"
    and latest :: "'q \<Rightarrow> queue_error + ('a \<times> 'q)"
    and size_of :: "'q \<Rightarrow> nat"
    and is_empty :: "'q \<Rightarrow> bool"
  assumes contents_push: "contents (push x q) = contents q @ [x]"
    and pop_None: "pop q = None \<longleftrightarrow> contents q = []"
    and pop_Some: "pop q = Some (x, q') \<Longrightarrow> contents q = x # contents q'"
    and latest_error: "latest q = Inl FrontOfEmpty \<longleftrightarrow> contents q = []"
    and latest_value: "latest q = Inr (x, q') \<Longrightarrow> contents q \<noteq> [] \<and> x = last (contents q) \<and> contents q' = [x]"
    and size_contents: "size_of q = length (contents q)"
    and empty_contents: "is_empty q \<longleftrightarrow> contents q = []"
begin

lemma contents_push_all: "contents (fold push xs q) = contents q @ xs"
  by (induction xs arbitrary: q) (simp_all add: contents_push)

lemma pop_step: "contents q = x # xs \<Longrightarrow> \<exists>q'. pop q = Some (x, q') \<and> contents q' = xs"
  using pop_None [of q] pop_Some [of q] by (cases "pop q") auto

lemma pop_push: "\<exists>q'. pop (push x q) = Some (hd (contents q @ [x]), q')
    \<and> contents q' = tl (contents q @ [x])"
  using pop_step [of "push x q"] by (cases "contents q") (auto simp: contents_push)

lemma size_push: "size_of (push x q) = Suc (size_of q)"
  by (simp add: size_contents contents_push)

lemma not_empty_push: "\<not> is_empty (push x q)"
  by (simp add: empty_contents contents_push)

lemma latest_push: "\<exists>q'. latest (push x q) = Inr (x, q') \<and> size_of q' = 1"
proof (cases "latest (push x q)")
  case (Inl e)
  then show ?thesis
    using latest_error [of "push x q"] by (cases e) (simp add: contents_push)
next
  case (Inr r)
  then show ?thesis
    using latest_value [of "push x q"] by (cases r) (auto simp: contents_push size_contents)
qed

end

interpretation grpcw_bq: fifo_queue queue push_back pop_front pop_all_but_most_recent bq_size bq_empty
  by unfold_locales (auto simp: bq_defs split: list.splits if_splits)

interpretation ltb_bq: fifo_queue queue ltb_push_back ltb_pop_front ltb_pop_all_but_most_recent
    ltb_size ltb_empty
  by unfold_locales (auto simp: ltb_bq_defs Let_def split: if_splits)

section \<open>Threads sharing one queue\<close>

text \<open>
  The state of a queue shared by any number of threads. \<open>pending\<close> counts the threads that have
  pushed and released the mutex but not yet called \<open>condition_.notify_one()\<close>; \<open>awake\<close> counts the
  threads inside \<open>pop_front\<close> that are not blocked in \<open>condition_.wait\<close>; \<open>sleeping\<close> counts those that
  are. The lists record what was pushed, what left the queue, and what was returned by \<open>pop_front\<close>.
  Every locked section is one step. \<open>condition_.wait\<close> may also return without a notification.
\<close>

record 'a bq_threads =
  bq :: "'a blocking_queue"
  pending :: nat
  awake :: nat
  sleeping :: nat
  pushed :: "'a list"
  removed :: "'a list"
  popped :: "'a list"

definition bq_start :: "'a bq_threads" where
  "bq_start = \<lparr>bq = new_blocking_queue, pending = 0, awake = 0, sleeping = 0,
     pushed = [], removed = [], popped = []\<rparr>"

inductive bq_step :: "'a bq_threads \<Rightarrow> 'a bq_threads \<Rightarrow> bool" where
  push: "bq_step s (s\<lparr>bq := push_back x (bq s), pending := Suc (pending s), pushed := pushed s @ [x]\<rparr>)"
| notify_sleeper: "pending s = Suc n \<Longrightarrow> sleeping s = Suc m \<Longrightarrow>
    bq_step s (s\<lparr>pending := n, sleeping := m, awake := Suc (awake s)\<rparr>)"
| notify_nobody: "pending s = Suc n \<Longrightarrow> sleeping s = 0 \<Longrightarrow> bq_step s (s\<lparr>pending := n\<rparr>)"
| enter_pop: "bq_step s (s\<lparr>awake := Suc (awake s)\<rparr>)"
| pop: "awake s = Suc n \<Longrightarrow> pop_front (bq s) = Some (x, q') \<Longrightarrow>
    bq_step s (s\<lparr>awake := n, bq := q', removed := removed s @ [x], popped := popped s @ [x]\<rparr>)"
| wait: "awake s = Suc n \<Longrightarrow> pop_front (bq s) = None \<Longrightarrow>
    bq_step s (s\<lparr>awake := n, sleeping := Suc (sleeping s)\<rparr>)"
| wake_spuriously: "sleeping s = Suc n \<Longrightarrow>
    bq_step s (s\<lparr>sleeping := n, awake := Suc (awake s)\<rparr>)"
| keep_latest: "pop_all_but_most_recent (bq s) = Inr (x, q') \<Longrightarrow>
    bq_step s (s\<lparr>bq := q', removed := removed s @ butlast (queue (bq s))\<rparr>)"
| clear: "bq_step s (s\<lparr>bq := bq_clear (bq s), removed := removed s @ queue (bq s)\<rparr>)"
| clear_and_push: "bq_step s (s\<lparr>bq := clear_all_and_push_back x (bq s), pending := Suc (pending s),
      removed := removed s @ queue (bq s), pushed := pushed s @ [x]\<rparr>)"

inductive bq_reachable :: "'a bq_threads \<Rightarrow> bool" where
  bq_reach_start: "bq_reachable bq_start"
| bq_reach_step: "bq_reachable s \<Longrightarrow> bq_step s t \<Longrightarrow> bq_reachable t"

text \<open>
  The two facts every step keeps: the queue holds what was pushed and not removed, and while a
  consumer sleeps there is, for every stored value, a notification on its way or a consumer that
  is awake.
\<close>

definition bq_history :: "'a bq_threads \<Rightarrow> bool" where
  "bq_history s \<longleftrightarrow> pushed s = removed s @ queue (bq s) \<and> subseq (popped s) (removed s)"

definition bq_covered :: "'a bq_threads \<Rightarrow> bool" where
  "bq_covered s \<longleftrightarrow> sleeping s = 0 \<or> length (queue (bq s)) \<le> pending s + awake s"

lemma pop_front_Some [simp]:
  "pop_front q = Some (x, q') \<longleftrightarrow> queue q = x # queue q'"
  by (cases q; cases q') (auto simp: pop_front_def split: list.splits)

lemma pop_front_None [simp]: "pop_front q = None \<longleftrightarrow> queue q = []"
  by (auto simp: pop_front_def split: list.splits)

lemma keep_latest_queue:
  "pop_all_but_most_recent q = Inr (x, q') \<Longrightarrow> queue q = butlast (queue q) @ queue q' \<and> queue q' = [x]"
  by (auto simp: pop_all_but_most_recent_def split: if_splits)

lemma keep_latest_length:
  "pop_all_but_most_recent q = Inr (x, q') \<Longrightarrow> length (queue q') \<le> length (queue q)"
  by (auto simp: pop_all_but_most_recent_def Suc_le_eq split: if_splits)

lemma bq_step_history: "bq_step s t \<Longrightarrow> bq_history s \<Longrightarrow> bq_history t"
proof (induction rule: bq_step.induct)
  case (keep_latest s x q')
  then show ?case
    using keep_latest_queue [of "bq s" x q'] by (auto simp: bq_history_def list_emb_append2)
qed (auto simp: bq_history_def push_back_def bq_clear_def clear_all_and_push_back_def
    intro: list_emb_append2 list_emb_append_mono)

lemma bq_step_covered: "bq_step s t \<Longrightarrow> bq_covered s \<Longrightarrow> bq_covered t"
proof (induction rule: bq_step.induct)
  case (keep_latest s x q')
  then show ?case
    using keep_latest_length [of "bq s" x q'] by (auto simp: bq_covered_def)
qed (auto simp: bq_covered_def push_back_def bq_clear_def clear_all_and_push_back_def)

lemma bq_reachable_inv: "bq_reachable s \<Longrightarrow> bq_history s \<and> bq_covered s"
proof (induction rule: bq_reachable.induct)
  case bq_reach_start
  show ?case by (simp add: bq_history_def bq_covered_def bq_start_def new_blocking_queue_def)
next
  case (bq_reach_step s t)
  then show ?case by (blast intro: bq_step_history bq_step_covered)
qed

section \<open>Properties\<close>

text \<open>A run of two pushes and a pop, as the concrete input of the witnesses.\<close>

definition bq_example :: "nat bq_threads" where
  "bq_example = \<lparr>bq = \<lparr>queue = [8]\<rparr>, pending = 2, awake = 0, sleeping = 0,
     pushed = [7, 8], removed = [7], popped = [7]\<rparr>"

lemma bq_example_reachable: "bq_reachable bq_example"
proof -
  have "bq_reachable (bq_start\<lparr>bq := push_back (7::nat) (bq bq_start), pending := 1, pushed := [7]\<rparr>)"
    using bq_reach_step [OF bq_reach_start bq_step.push [of bq_start "7::nat"]]
    by (simp add: bq_start_def)
  from bq_reach_step [OF this bq_step.push [of _ 8]]
  have "bq_reachable \<lparr>bq = \<lparr>queue = [7, 8::nat]\<rparr>, pending = 2, awake = 0, sleeping = 0,
      pushed = [7, 8], removed = [], popped = []\<rparr>"
    by (simp add: bq_start_def push_back_def new_blocking_queue_def numeral_2_eq_2)
  from bq_reach_step [OF bq_reach_step [OF this bq_step.enter_pop] bq_step.pop, of 0 7 "\<lparr>queue = [8]\<rparr>"]
  show ?thesis
    by (simp add: bq_example_def)
qed

text \<open>
  Claim C25. However the threads interleave, values leave a \<open>BlockingQueue\<close> in the order they were
  pushed: what was pushed is what was removed followed by what is stored, and the results of
  \<open>pop_front\<close> are a subsequence of what was removed (\<open>clear\<close> and the two discarding operations
  account for the rest).
\<close>

theorem bq_fifo_order:
  assumes "bq_reachable s"
  shows "pushed s = removed s @ queue (bq s) \<and> subseq (popped s) (removed s)"
  using bq_reachable_inv [OF assms] by (simp_all add: bq_history_def)

text \<open>
  Claim C26. No wake-up is lost: once every push has called \<open>notify_one\<close> and no consumer is awake,
  a consumer can only still be blocked in \<open>pop_front\<close> because the queue is empty.
\<close>

theorem bq_no_lost_wakeup:
  assumes "bq_reachable s" and "pending s = 0" and "awake s = 0" and "queue (bq s) \<noteq> []"
  shows "sleeping s = 0"
  using bq_reachable_inv [OF assms(1)] assms(2-) by (auto simp: bq_covered_def)

text \<open>
  While a consumer sleeps and a value is stored, the system can move towards delivering it:
  a producer that still has to notify wakes a sleeper, or an awake consumer pops a value.
\<close>

theorem bq_consumer_progress:
  assumes "bq_reachable s" and "sleeping s > 0" and "queue (bq s) \<noteq> []"
  shows "(\<exists>t. bq_step s t \<and> sleeping t < sleeping s) \<or> (\<exists>t. bq_step s t \<and> length (popped s) < length (popped t))"
proof -
  obtain m where m: "sleeping s = Suc m" using assms(2) by (cases "sleeping s") auto
  from bq_reachable_inv [OF assms(1)] assms(2,3) have "pending s + awake s \<noteq> 0"
    by (cases "queue (bq s)") (auto simp: bq_covered_def)
  then consider n where "pending s = Suc n" | n where "awake s = Suc n"
    by (metis add_is_0 not0_implies_Suc)
  then show ?thesis
  proof cases
    case 1
    then show ?thesis using m bq_step.notify_sleeper [of s n m] by force
  next
    case 2
    obtain x q' where "pop_front (bq s) = Some (x, q')"
      using grpcw_bq.pop_step [of "bq s"] assms(3) by (cases "queue (bq s)") auto
    with 2 show ?thesis using bq_step.pop [of s n x q'] by force
  qed
qed

text \<open>
  \<open>pop_all_but_most_recent\<close> never waits: on a non-empty queue it returns the value pushed
  last and leaves the queue holding just that value, and on an empty queue it reads the front of an
  empty \<open>std::queue\<close>.
\<close>

theorem pop_all_but_most_recent_spec:
  "pop_all_but_most_recent q =
     (if bq_empty q then Inl FrontOfEmpty
      else Inr (last (queue q), q\<lparr>queue := [last (queue q)]\<rparr>))"
  by (simp add: pop_all_but_most_recent_def bq_empty_def)

text \<open>
  The two queue classes of the repository agree on every operation they share, and
  \<open>clear_all_and_push_back\<close> is \<open>clear\<close> followed by \<open>push_back\<close>.
\<close>

theorem ltb_queue_equivalent:
  "ltb_push_back x q = push_back x q \<and> ltb_emplace_back ctor args q = emplace_back ctor args q
     \<and> ltb_pop_front q = pop_front q \<and> ltb_pop_all_but_most_recent q = pop_all_but_most_recent q
     \<and> ltb_empty q = bq_empty q \<and> ltb_size q = bq_size q
     \<and> clear_all_and_push_back x q = push_back x (bq_clear q)
     \<and> clear_all_and_emplace_back ctor args q = emplace_back ctor args (bq_clear q)"
  by (auto simp: ltb_bq_defs bq_defs Let_def split: list.splits)

theorem bq_fifo_order_witness:
  "bq_reachable bq_example \<and> pushed bq_example = removed bq_example @ queue (bq bq_example)
     \<and> subseq (popped bq_example) (removed bq_example) \<and> popped bq_example = [7]"
  using bq_fifo_order [OF bq_example_reachable] bq_example_reachable by (simp add: bq_example_def)

lemma bq_example_notified:
  "bq_reachable (bq_example\<lparr>pending := 0\<rparr>)"
proof -
  have "bq_step bq_example (bq_example\<lparr>pending := 1\<rparr>)"
    by (rule bq_step.notify_nobody) (simp_all add: bq_example_def)
  moreover have "bq_step (bq_example\<lparr>pending := 1\<rparr>) (bq_example\<lparr>pending := 1\<rparr>\<lparr>pending := 0\<rparr>)"
    by (rule bq_step.notify_nobody) (simp_all add: bq_example_def)
  ultimately show ?thesis
    using bq_example_reachable by (auto intro: bq_reach_step)
qed

theorem bq_no_lost_wakeup_witness:
  "queue (bq (bq_example\<lparr>pending := 0\<rparr>)) \<noteq> [] \<and> sleeping (bq_example\<lparr>pending := 0\<rparr>) = 0"
  using bq_no_lost_wakeup [OF bq_example_notified] by (simp add: bq_example_def)

lemma bq_sleeper_reachable:
  "bq_reachable (bq_start\<lparr>sleeping := 1, bq := \<lparr>queue = [5::nat]\<rparr>, pending := 1, pushed := [5]\<rparr>)"
proof -
  have "bq_step (bq_start\<lparr>awake := 1\<rparr>) (bq_start\<lparr>awake := 1\<rparr>\<lparr>awake := 0, sleeping := 1\<rparr>)"
    using bq_step.wait [of "bq_start\<lparr>awake := 1\<rparr>" 0] by (simp add: bq_start_def new_blocking_queue_def)
  moreover have "bq_reachable (bq_start\<lparr>awake := 1\<rparr>)"
    using bq_reach_step [OF bq_reach_start bq_step.enter_pop [of bq_start]] by (simp add: bq_start_def)
  ultimately have "bq_reachable (bq_start\<lparr>sleeping := 1\<rparr> :: nat bq_threads)"
    using bq_reach_step by (fastforce simp: bq_start_def)
  from bq_reach_step [OF this bq_step.push [of _ 5]] show ?thesis
    by (simp add: bq_start_def push_back_def new_blocking_queue_def)
qed

theorem bq_consumer_progress_witness:
  "\<exists>s :: nat bq_threads. sleeping s > 0 \<and> queue (bq s) \<noteq> [] \<and>
     ((\<exists>t. bq_step s t \<and> sleeping t < sleeping s) \<or>
      (\<exists>t. bq_step s t \<and> length (popped s) < length (popped t)))"
  using bq_consumer_progress [OF bq_sleeper_reachable]
  by (intro exI [of _ "bq_start\<lparr>sleeping := 1, bq := \<lparr>queue = [5::nat]\<rparr>, pending := 1, pushed := [5]\<rparr>"]) simp

end
