(* ===== verification/Example_Clients.thy ===== *)
theory Example_Clients
  imports Example_Clock Tag_Table Blocking_Queue Grpc_Client_Safety
begin

text \<open>
  The clients of the examples: \<open>ExampleClient\<close> on top of \<open>GrpcClient\<close> with its command loop
  (example/src/example_client.hpp, example_client.cpp), the second \<open>ExampleClient\<close>, which manages its
  stream itself (example/src/client/new_arch_client.hpp, new_arch_client.cpp), and the task-based
  \<open>Client\<close> with its handler of unary calls (client.hpp, unary_rpc_handler.hpp).

  The answer of a call is given by a function of the stub or as an argument.
\<close>

section \<open>ExampleClient on GrpcClient\<close>

record ('chan, 'reader, 'cb) example_client =
  grpc_client_of :: "('chan, 'reader, 'cb) grpc_client"
  stream_context :: "ptr option"

definition new_example_client ::
    "(string \<Rightarrow> channel_arguments \<Rightarrow> 'chan) \<Rightarrow> connectivity \<Rightarrow> ('ret, 'st) stream_rest \<Rightarrow> string \<Rightarrow> 'cb
      \<Rightarrow> client_error + (('chan, 'reader, 'cb) example_client \<times> ('ret, 'st, 'cb) client_effect list)" where
  "new_example_client create answer rest host_address print_state =
     map_sum id (\<lambda>(c, es). (\<lparr>grpc_client_of = c, stream_context = None\<rparr>, es))
       (change_server create answer rest host_address print_state new_grpc_client)"

text \<open>\<open>rpc stub format\<close>: the display text that is in the reply after the call, empty when it failed.\<close>

definition get_server_time_now ::
    "('chan \<Rightarrow> format \<Rightarrow> string) \<Rightarrow> format \<Rightarrow> ('chan, 'reader, 'cb) example_client \<Rightarrow> client_error + string" where
  "get_server_time_now rpc f c =
     (case use_stub (\<lambda>stub. rpc stub f) (grpc_client_of c) of
        Inl e \<Rightarrow> Inl e
      | Inr (Some display_time) \<Rightarrow> Inr display_time
      | Inr None \<Rightarrow> Inr ''Not connected a server'')"

text \<open>
  The pointer \<open>stream_context_\<close> is set by the function that opens the stream, so at once only when
  \<open>register_stream\<close> starts it.
\<close>

definition toggle_streaming ::
    "(ptr list \<Rightarrow> ptr) \<Rightarrow> ('chan \<Rightarrow> 'reader) \<Rightarrow> 'cb \<Rightarrow> 'cb \<Rightarrow> ('chan, 'reader, 'cb) example_client
      \<Rightarrow> client_error + ('chan, 'reader, 'cb) example_client" where
  "toggle_streaming new open_stream print_time finished c =
     (case stream_context c of
        Some key \<Rightarrow>
          Inr (c\<lparr>grpc_client_of := with_shared (\<lambda>d. d\<lparr>streams := um_adjust (\<lambda>s. s\<lparr>context_of := Some Cancelled\<rparr>) key (streams d)\<rparr>)
                 (grpc_client_of c)\<rparr>)
      | None \<Rightarrow>
          (case register_stream new open_stream (grpc_client_of c) of
             Inl e \<Rightarrow> Inl e
           | Inr (key, g) \<Rightarrow>
               (let g1 = callback_setter_on_finish key finished (callback_setter_on_update key print_time g);
                    started = (case map_of (streams (sd g1)) key of Some s \<Rightarrow> streaming s | None \<Rightarrow> False)
                in Inr (c\<lparr>grpc_client_of := g1, stream_context := (if started then Some key else None)\<rparr>))))"

text \<open>The command loop of \<open>main\<close>: it ends at the end of the input or at \<open>x\<close>.\<close>

datatype command = TimeNow format | ToggleStream | Usage | Unrecognized string

fun command_of :: "string \<Rightarrow> command" where
  "command_of input =
     (if input = ''f'' then TimeNow COMPOUND
      else if input = ''h'' then TimeNow HOURS
      else if input = ''m'' then TimeNow MINUTES
      else if input = ''s'' then TimeNow SECONDS
      else if input = ''t'' then ToggleStream
      else if input = ''u'' then Usage
      else Unrecognized input)"

fun command_loop :: "string list \<Rightarrow> command list" where
  "command_loop [] = []"
| "command_loop (input # inputs) = (if input = ''x'' then [] else command_of input # command_loop inputs)"

section \<open>The client that manages its stream itself\<close>

fun connectivity_to_string :: "connectivity \<Rightarrow> string" where
  "connectivity_to_string Shutdown = ''GRPC_CHANNEL_SHUTDOWN''"
| "connectivity_to_string Idle = ''GRPC_CHANNEL_IDLE''"
| "connectivity_to_string Connecting = ''GRPC_CHANNEL_CONNECTING''"
| "connectivity_to_string TransientFailure = ''GRPC_CHANNEL_TRANSIENT_FAILURE''"
| "connectivity_to_string Ready = ''GRPC_CHANNEL_READY''"

record arch_client =
  arch_context :: "client_context option"
  arch_thread :: thread_state

definition new_arch_client :: arch_client where
  "new_arch_client = \<lparr>arch_context = None, arch_thread = NoThread\<rparr>"

text \<open>The reply of the call: the display time, or the error message of its status.\<close>

definition arch_get_server_time_now :: "(format \<Rightarrow> string + string) \<Rightarrow> format \<Rightarrow> string" where
  "arch_get_server_time_now rpc f = (case rpc f of Inr display_time \<Rightarrow> display_time | Inl message \<Rightarrow> message)"

text \<open>
  Joining the thread lets it read until the cancelled stream ends. \<open>arch_toggle_streaming\<close> starts the
  thread; the thread sets the context when it gets to run, which is the step \<open>arch_thread_begins\<close>, and
  returns when the stream ends.
\<close>

definition arch_join :: "arch_client \<Rightarrow> arch_client" where
  "arch_join c = (if joinable (arch_thread c) then c\<lparr>arch_thread := Joined\<rparr> else c)"

definition arch_toggle_streaming :: "arch_client \<Rightarrow> client_error + arch_client" where
  "arch_toggle_streaming c =
     (if arch_context c \<noteq> None then Inr (arch_join (c\<lparr>arch_context := Some Cancelled\<rparr>))
      else if joinable (arch_thread c) then Inl Terminate
      else Inr (c\<lparr>arch_thread := Running\<rparr>))"

definition arch_thread_begins :: "arch_client \<Rightarrow> arch_client" where
  "arch_thread_begins c =
     (if arch_thread c = Running \<and> arch_context c = None then c\<lparr>arch_context := Some Open\<rparr> else c)"

definition arch_thread_ends :: "arch_client \<Rightarrow> arch_client" where
  "arch_thread_ends c =
     (if arch_thread c = Running \<and> arch_context c \<noteq> None then c\<lparr>arch_thread := Returned\<rparr> else c)"

text \<open>The destructor; the member that holds the thread is destroyed after its body.\<close>

definition destroy_arch_client :: "arch_client \<Rightarrow> client_error + unit" where
  "destroy_arch_client c =
     (let c1 = (if arch_context c \<noteq> None then arch_join (c\<lparr>arch_context := Some Cancelled\<rparr>) else c)
      in if joinable (arch_thread c1) then Inl Terminate else Inr ())"

datatype arch_event = ArchToggle | ArchBegins | ArchEnds

fun arch_step :: "arch_event \<Rightarrow> arch_client \<Rightarrow> client_error + arch_client" where
  "arch_step ArchToggle c = arch_toggle_streaming c"
| "arch_step ArchBegins c = Inr (arch_thread_begins c)"
| "arch_step ArchEnds c = Inr (arch_thread_ends c)"

fun arch_run :: "arch_event list \<Rightarrow> arch_client \<Rightarrow> client_error + arch_client" where
  "arch_run [] c = Inr c"
| "arch_run (e # es) c = (case arch_step e c of Inl x \<Rightarrow> Inl x | Inr c' \<Rightarrow> arch_run es c')"

section \<open>The task-based client\<close>

datatype client_task = InitClient string | DestroyClient | PoisonPill

text \<open>
  A unary call: what gRPC writes the reply into, whether the reader exists, and the callback. Its handler,
  \<open>UnaryRpcHandler\<close>, is owned by the client in a table; \<open>send\<close> makes the call with its lock held.
\<close>

record ('resp, 'st, 'cb) unary_call =
  call_response :: 'resp
  call_status :: 'st
  call_reader :: bool
  call_on_finish :: 'cb

definition make_unique_client_unary_rpc :: "'resp \<Rightarrow> 'st \<Rightarrow> 'cb \<Rightarrow> ('resp, 'st, 'cb) unary_call" where
  "make_unique_client_unary_rpc response0 status0 cb =
     \<lparr>call_response = response0, call_status = status0, call_reader = False, call_on_finish = cb\<rparr>"

datatype ('resp, 'st, 'cb) finished_call = FinishedCall 'cb 'st 'resp

definition invoke_finished :: "('resp, 'st, 'cb) unary_call \<Rightarrow> ('resp, 'st, 'cb) finished_call" where
  "invoke_finished h = FinishedCall (call_on_finish h) (call_status h) (call_response h)"

datatype 'req sent_call = AsyncCall ptr 'req | FinishInto ptr ptr

datatype task_error = TaskTagThrow tag_error | ServerTagThrow | DanglingCall ptr | AssertQueueInvalid

record ('resp, 'st, 'cb) task_client =
  task_ready :: bool
  completion_queue_valid :: bool
  client_rpcs :: "(ptr, ('resp, 'st, 'cb) unary_call) umap"
  client_tagger :: tagger
  task_queue :: "client_task blocking_queue"
  task_thread :: thread_state

definition new_task_client :: "string \<Rightarrow> ('resp, 'st, 'cb) task_client" where
  "new_task_client host_address =
     \<lparr>task_ready = False, completion_queue_valid = False, client_rpcs = [], client_tagger = \<lparr>tagger_tags = []\<rparr>,
      task_queue = emplace_back InitClient host_address new_blocking_queue, task_thread = Running\<rparr>"

text \<open>One completion; \<open>answer\<close> is what \<open>Next\<close> would give, \<open>None\<close> when the queue is shut down and empty.\<close>

definition process_completion_queue ::
    "(ptr \<times> bool) option \<Rightarrow> ('resp, 'st, 'cb) task_client
      \<Rightarrow> task_error + (('resp, 'st, 'cb) task_client \<times> ('resp, 'st, 'cb) finished_call list)" where
  "process_completion_queue answer c =
     (if \<not> completion_queue_valid c then Inr (c, [])
      else
        (case answer of
           None \<Rightarrow> Inr (c\<lparr>completion_queue_valid := False\<rparr>, [])
         | Some (received_tag, completed_successfully) \<Rightarrow>
             (case tagger_get_tag received_tag (client_tagger c) of
                Inl e \<Rightarrow> Inl (TaskTagThrow e)
              | Inr (tag, t) \<Rightarrow>
                  (let c1 = c\<lparr>client_tagger := t\<rparr>; p = ex_data tag
                   in if completed_successfully then
                        (case ex_label tag of
                           ClientConnectionChange \<Rightarrow> Inr (c1, [])
                         | ClientFinished \<Rightarrow>
                             (case map_of (client_rpcs c1) p of
                                None \<Rightarrow> Inl (DanglingCall p)
                              | Some h \<Rightarrow> Inr (c1\<lparr>client_rpcs := um_erase p (client_rpcs c1)\<rparr>, [invoke_finished h]))
                         | ServerNewRpc \<Rightarrow> Inl ServerTagThrow
                         | ServerWriting \<Rightarrow> Inl ServerTagThrow
                         | ServerDone \<Rightarrow> Inl ServerTagThrow)
                      else Inr (c1\<lparr>client_rpcs := um_erase p (client_rpcs c1)\<rparr>, [])))))"

text \<open>\<open>UnaryRpcHandler::send\<close>: the call, and the tag under which the answer is to come back.\<close>

definition send_unary ::
    "(ptr list \<Rightarrow> ptr) \<Rightarrow> ptr \<Rightarrow> 'req \<Rightarrow> ('resp, 'st, 'cb) task_client
      \<Rightarrow> task_error + (('resp, 'st, 'cb) task_client \<times> 'req sent_call list \<times> ptr)" where
  "send_unary new this request c =
     (if this \<notin> set (um_keys (client_rpcs c)) then Inl (DanglingCall this)
      else
        (let c1 = c\<lparr>client_rpcs := um_adjust (call_reader_update (\<lambda>_. True)) this (client_rpcs c)\<rparr>;
             (tag, t) = tagger_make_tag new this ClientFinished (client_tagger c1)
         in Inr (c1\<lparr>client_tagger := t\<rparr>, [AsyncCall this request, FinishInto this tag], tag)))"

text \<open>gRPC writes the reply into the connection before it returns the tag.\<close>

definition call_answered :: "ptr \<Rightarrow> 'resp \<Rightarrow> 'st \<Rightarrow> ('resp, 'st, 'cb) task_client \<Rightarrow> ('resp, 'st, 'cb) task_client" where
  "call_answered p response status c =
     c\<lparr>client_rpcs := um_adjust (\<lambda>h. h\<lparr>call_response := response, call_status := status\<rparr>) p (client_rpcs c)\<rparr>"

definition run_client_task ::
    "(ptr \<times> bool) option \<Rightarrow> client_task \<Rightarrow> ('resp, 'st, 'cb) task_client
      \<Rightarrow> task_error + (('resp, 'st, 'cb) task_client \<times> ('resp, 'st, 'cb) finished_call list)" where
  "run_client_task answer task c =
     (case task of
        InitClient host_address \<Rightarrow> Inr (c\<lparr>task_ready := True\<rparr>, [])
      | DestroyClient \<Rightarrow>
          (case process_completion_queue answer (c\<lparr>task_ready := False\<rparr>) of
             Inl e \<Rightarrow> Inl e
           | Inr (c1, cbs) \<Rightarrow> if completion_queue_valid c1 then Inl AssertQueueInvalid else Inr (c1, cbs))
      | PoisonPill \<Rightarrow> Inr (c\<lparr>task_thread := Returned\<rparr>, []))"

text \<open>One turn of the task thread; \<open>None\<close> when it waits for a task or has ended.\<close>

definition task_turn ::
    "(ptr \<times> bool) option \<Rightarrow> ('resp, 'st, 'cb) task_client
      \<Rightarrow> (task_error + (('resp, 'st, 'cb) task_client \<times> ('resp, 'st, 'cb) finished_call list)) option" where
  "task_turn answer c =
     (if task_thread c \<noteq> Running then None
      else case pop_front (task_queue c) of
             None \<Rightarrow> None
           | Some (task, q) \<Rightarrow> Some (run_client_task answer task (c\<lparr>task_queue := q\<rparr>)))"

text \<open>What the destructor queues before it joins the thread.\<close>

definition begin_destroy_task_client :: "('resp, 'st, 'cb) task_client \<Rightarrow> ('resp, 'st, 'cb) task_client" where
  "begin_destroy_task_client c =
     c\<lparr>task_queue := emplace_back id PoisonPill (emplace_back id DestroyClient (task_queue c))\<rparr>"

inductive task_client_reachable :: "('resp, 'st, 'cb) task_client \<Rightarrow> bool" where
  task_init: "task_client_reachable (new_task_client host_address)"
| task_next: "task_client_reachable c \<Longrightarrow> task_turn answer c = Some (Inr (c', cbs)) \<Longrightarrow> task_client_reachable c'"
| task_destroy: "task_client_reachable c \<Longrightarrow> task_client_reachable (begin_destroy_task_client c)"

section \<open>Properties\<close>

text \<open>
  Without a connection \<open>get_server_time_now\<close> says so and makes no call, and it never uses a null
  stub as long as the client was given a server by its address; connected, it returns the reply's text.
\<close>

theorem example_client_time_or_message:
  fixes c :: "('chan, 'reader, 'cb) example_client"
  assumes "client_reachable used (tr :: ('ret, 'st, 'cb) client_effect list) (grpc_client_of c)"
    and "\<not> is_using_in_process_server (grpc_client_of c)"
  shows "get_server_time_now rpc f c =
     (if get_state (grpc_client_of c) = Connected then Inr (rpc (the (channel (sd (grpc_client_of c)))) f)
      else Inr ''Not connected a server'')"
proof -
  have "client_inv (grpc_client_of c)" using client_reachable_keeps [OF assms(1)] by simp
  with assms(2) show ?thesis
    by (auto simp: get_server_time_now_def use_stub_def use_safely_def get_state_simp client_inv_def streams_inv_def
        is_using_in_process_server_def split: option.splits)
qed

text \<open>
  Toggling the stream twice while the client is not connected does not switch it off again:
  each time a further stream is registered, and all of them will be started when the client connects.
\<close>

theorem example_client_toggles_register_again:
  fixes c :: "('chan, 'reader, 'cb) example_client"
  assumes "client_reachable used (tr :: ('ret, 'st, 'cb) client_effect list) (grpc_client_of c)"
    and "operator_new new" and "get_state (grpc_client_of c) \<noteq> Connected" and "stream_context c = None"
  shows "\<exists>c1 c2. toggle_streaming new f cb1 cb2 c = Inr c1 \<and> toggle_streaming new f cb1 cb2 c1 = Inr c2
     \<and> length (um_keys (streams (sd (grpc_client_of c2)))) = length (um_keys (streams (sd (grpc_client_of c)))) + 2"
proof -
  have one: "\<exists>c1. toggle_streaming new f cb1 cb2 c = Inr c1 \<and> stream_context c1 = None
      \<and> (\<exists>tr :: ('ret, 'st, 'cb) client_effect list. client_reachable used tr (grpc_client_of c1))
      \<and> get_state (grpc_client_of c1) \<noteq> Connected
      \<and> length (um_keys (streams (sd (grpc_client_of c1)))) = Suc (length (um_keys (streams (sd (grpc_client_of c)))))"
    if c: "client_reachable used (tr :: ('ret, 'st, 'cb) client_effect list) (grpc_client_of c)"
      "get_state (grpc_client_of c) \<noteq> Connected" "stream_context c = None"
    for c :: "('chan, 'reader, 'cb) example_client" and tr :: "('ret, 'st, 'cb) client_effect list"
  proof -
    let ?g = "grpc_client_of c" and ?s = "new_client_stream f :: ('chan, 'reader, 'cb) client_stream"
    define key where "key = new (um_keys (streams (sd ?g)))"
    define g1 where "g1 = with_shared (\<lambda>d. d\<lparr>streams := um_emplace key ?s (streams d)\<rparr>) ?g"
    define g2 where "g2 = callback_setter_on_update key cb1 g1"
    define g3 where "g3 = callback_setter_on_finish key cb2 g2"
    have key: "key \<notin> set (um_keys (streams (sd ?g)))" using operator_newD [OF assms(2)] by (simp add: key_def)
    have reg: "register_stream new f ?g = Inr (key, g1)"
      using c(2) by (auto simp: register_stream_def register_body_def use_shared_simp get_state_simp Let_def
          key_def g1_def with_shared_def)
    have "client_reachable used tr g1"
      using client_next [OF c(1), of "EvRegister new f" g1 "[]"] reg assms(2) by simp
    then have "client_reachable used tr g2"
      using client_next [of used tr g1 "EvStreamUpdate key cb1" g2 "[]"] by (simp add: g2_def)
    then have "client_reachable used tr g3"
      using client_next [of used tr g2 "EvStreamFinish key cb2" g3 "[]"] by (simp add: g3_def)
    moreover have g3: "connection_state (sd g3) = connection_state (sd ?g)"
      "streams (sd g3) = um_adjust (on_finish cb2) key (um_adjust (on_update cb1) key (um_emplace key ?s (streams (sd ?g))))"
      by (simp_all add: g3_def g2_def g1_def callback_setter_on_finish_def callback_setter_on_update_def
          on_stream_finish_def on_stream_update_def use_safely_def)
    moreover have "map_of (streams (sd g3)) key = Some (on_finish cb2 (on_update cb1 ?s))"
      using key g3(2) by (simp add: map_of_um_adjust map_of_um_emplace map_of_None_um_keys)
    moreover have "\<not> streaming (on_finish cb2 (on_update cb1 ?s))"
      by (simp add: streaming_def on_finish_def on_update_def new_client_stream_def)
    moreover have "length (um_keys (streams (sd g3))) = Suc (length (um_keys (streams (sd ?g))))"
      using key g3(2) by (simp add: um_emplace_fresh)
    moreover have "toggle_streaming new f cb1 cb2 c = Inr (c\<lparr>grpc_client_of := g3, stream_context := None\<rparr>)"
      using c(3) reg calculation by (simp add: toggle_streaming_def g3_def g2_def)
    ultimately show ?thesis using c(2) by (auto simp: get_state_simp)
  qed
  from one [OF assms(1,3,4)] obtain c1 and tr1 :: "('ret, 'st, 'cb) client_effect list" where
    1: "toggle_streaming new f cb1 cb2 c = Inr c1" "stream_context c1 = None"
    "client_reachable used tr1 (grpc_client_of c1)" "get_state (grpc_client_of c1) \<noteq> Connected"
    "length (um_keys (streams (sd (grpc_client_of c1)))) = Suc (length (um_keys (streams (sd (grpc_client_of c)))))"
    by blast
  from one [OF 1(3,4,2)] 1 show ?thesis by auto
qed

lemma arch_run_stopped:
  "arch_run es c = Inr c' \<Longrightarrow> arch_context c \<noteq> None \<Longrightarrow> arch_thread c \<noteq> Running \<Longrightarrow>
    arch_context c' \<noteq> None \<and> arch_thread c' \<noteq> Running"
proof (induction es arbitrary: c)
  case (Cons e es)
  from Cons.prems(1) obtain c1 where c1: "arch_step e c = Inr c1" "arch_run es c1 = Inr c'"
    by (auto split: sum.splits)
  moreover have "arch_context c1 \<noteq> None \<and> arch_thread c1 \<noteq> Running"
    using c1(1) Cons.prems(2,3)
    by (cases e) (auto simp: arch_toggle_streaming_def arch_join_def arch_thread_begins_def arch_thread_ends_def split: if_splits)
  ultimately show ?case using Cons.IH by blast
qed simp

text \<open>
  The client that manages its stream itself can stream once: its first toggle starts the
  stream and the next stops it, but nothing ever deletes the context, so that whatever happens
  afterwards, no toggle starts a stream again.
\<close>

theorem arch_client_streams_only_once:
  assumes "arch_run (ArchToggle # ArchBegins # ArchToggle # es) new_arch_client = Inr c"
  shows "arch_thread c \<noteq> Running \<and> arch_context c \<noteq> None"
proof -
  let ?c = "\<lparr>arch_context = Some Cancelled, arch_thread = Joined\<rparr>"
  have "arch_run es ?c = Inr c"
    using assms by (simp add: new_arch_client_def arch_toggle_streaming_def arch_join_def arch_thread_begins_def)
  from arch_run_stopped [OF this] show ?thesis by simp
qed

text \<open>
  Toggling twice before the new thread has had time to set the context ends the program: the
  second toggle finds no context and replaces a thread that is still joinable.
\<close>

theorem arch_client_quick_toggle_terminates:
  "arch_run [ArchToggle, ArchToggle] new_arch_client = Inl Terminate
   \<and> (\<exists>c. arch_run [ArchToggle] new_arch_client = Inr c \<and> destroy_arch_client c = Inl Terminate)"
  by (simp add: new_arch_client_def arch_toggle_streaming_def destroy_arch_client_def)

lemma task_client_queue_invalid: "task_client_reachable c \<Longrightarrow> \<not> completion_queue_valid c"
proof (induction rule: task_client_reachable.induct)
  case (task_next c answer c' cbs)
  then show ?case
    by (auto simp: task_turn_def run_client_task_def process_completion_queue_def
        split: if_splits option.splits client_task.splits)
qed (simp_all add: new_task_client_def begin_destroy_task_client_def)

text \<open>
  The task-based client never processes a completion: the flag that says the queue can be
  used is never set, so in every state \<open>process_completion_queue\<close> does nothing, whatever the queue
  holds, and in particular its assertion in the destructor holds for that reason alone.
\<close>

theorem task_client_ignores_completions:
  assumes "task_client_reachable c"
  shows "process_completion_queue answer c = Inr (c, [])
     \<and> (\<forall>task. run_client_task answer task c \<noteq> Inl AssertQueueInvalid)"
  using task_client_queue_invalid [OF assms]
  by (auto simp: process_completion_queue_def run_client_task_def split: client_task.splits)

fun task_turns :: "nat \<Rightarrow> ('resp, 'st, 'cb) task_client \<Rightarrow> ('resp, 'st, 'cb) task_client" where
  "task_turns 0 c = c"
| "task_turns (Suc n) c = (case task_turn None c of Some (Inr (c', cbs)) \<Rightarrow> task_turns n c' | _ \<Rightarrow> c)"

text \<open>
  The destructor of the task-based client always comes back: from any state in which the
  thread still runs and no earlier pill is queued, the thread takes one turn for each task that is
  left, the poison pill last, and returns.
\<close>

theorem task_client_destructor_returns:
  assumes "task_client_reachable c" and "task_thread c = Running" and "PoisonPill \<notin> set (queue (task_queue c))"
  shows "task_thread (task_turns (length (queue (task_queue c)) + 2) (begin_destroy_task_client c)) = Returned"
proof -
  have "task_thread (task_turns (length ts + 2) c) = Returned"
    if "queue (task_queue c) = ts @ [DestroyClient, PoisonPill]" "PoisonPill \<notin> set ts" "task_thread c = Running"
      "\<not> completion_queue_valid c" for ts c
    using that
  proof (induction ts arbitrary: c)
    case Nil
    then show ?case
      by (simp add: task_turn_def pop_front_def run_client_task_def process_completion_queue_def numeral_2_eq_2)
  next
    case (Cons t ts)
    then obtain c1 where c1: "task_turn None c = Some (Inr (c1, []))" "queue (task_queue c1) = ts @ [DestroyClient, PoisonPill]"
      "task_thread c1 = Running" "\<not> completion_queue_valid c1"
      by (cases t) (auto simp: task_turn_def pop_front_def run_client_task_def process_completion_queue_def)
    with Cons.IH [of c1] Cons.prems(2) show ?case by simp
  qed
  from this [of "begin_destroy_task_client c" "queue (task_queue c)"] assms task_client_queue_invalid [OF assms(1)]
  show ?thesis by (simp add: begin_destroy_task_client_def emplace_back_def)
qed

lemma um_erase_adjust: "um_erase p (um_adjust f p m) = um_erase p m"
  by (induction m) (auto simp: um_erase_def um_adjust_def)

text \<open>
  If the flag were set, a call would be answered as intended: \<open>send\<close> hands gRPC the request and a tag, and
  when the tag comes back with the reply, the callback of this call is invoked with the status and the
  response, and the handler is deleted; a tag that comes back without success only deletes it.
\<close>

theorem client_call_answered:
  assumes "operator_new new" and "map_of (client_rpcs c) p = Some h" and "completion_queue_valid c"
  shows "\<exists>c1 tag. send_unary new p request c = Inr (c1, [AsyncCall p request, FinishInto p tag], tag)
     \<and> (\<exists>c2. process_completion_queue (Some (tag, ok)) (call_answered p response status c1) = Inr (c2,
           if ok then [FinishedCall (call_on_finish h) status response] else [])
         \<and> client_rpcs c2 = um_erase p (client_rpcs c)
         \<and> tagger_tags (client_tagger c2) = tagger_tags (client_tagger c))"
proof -
  obtain tag t where t: "tagger_make_tag new p ClientFinished (client_tagger c) = (tag, t)" by (rule prod.exhaust)
  let ?c1 = "c\<lparr>client_rpcs := um_adjust (call_reader_update (\<lambda>_. True)) p (client_rpcs c), client_tagger := t\<rparr>"
  have "p \<in> set (um_keys (client_rpcs c))" using assms(2) by (auto simp: in_um_keys_map_of)
  with t have send: "send_unary new p request c = Inr (?c1, [AsyncCall p request, FinishInto p tag], tag)"
    by (simp add: send_unary_def)
  let ?ts = "tagger_tags (client_tagger c)" and ?tag = "mk_example_Tag p ClientFinished"
  have tags: "tagger_tags t = um_emplace tag ?tag ?ts" "tag \<notin> set (um_keys ?ts)"
    using t operator_newD [OF assms(1), of "um_keys ?ts"] by (auto simp: tagger_make_tag_def example_make_tag_def Let_def)
  then have "map_of (tagger_tags t) tag = Some ?tag" "um_erase tag (tagger_tags t) = ?ts"
    by (simp_all add: map_of_um_emplace map_of_None_um_keys um_erase_emplace_fresh)
  then have get: "tagger_get_tag tag t = Inr (?tag, t\<lparr>tagger_tags := ?ts\<rparr>)"
    by (simp add: tagger_get_tag_def example_get_tag_def)
  show ?thesis
    unfolding send using assms(2,3) get
    by (auto simp: process_completion_queue_def call_answered_def mk_example_Tag_def invoke_finished_def map_of_um_adjust um_erase_adjust)
qed

section \<open>Witnesses\<close>

definition connected_example :: "(nat, nat, nat) example_client" where
  "connected_example = \<lparr>grpc_client_of = connected_client, stream_context = None\<rparr>"

definition connecting_example :: "(nat, nat, nat) example_client" where
  "connecting_example = \<lparr>grpc_client_of = connecting_client, stream_context = None\<rparr>"

theorem example_client_time_or_message_witness:
  "get_server_time_now (\<lambda>chan f. ''1h'') HOURS connected_example = Inr ''1h''
    \<and> get_server_time_now (\<lambda>chan f. ''1h'') HOURS connecting_example = Inr ''Not connected a server''"
proof -
  have 1: "grpc_client_of connected_example = connected_client" "grpc_client_of connecting_example = connecting_client"
    by (simp_all add: connected_example_def connecting_example_def)
  have 2: "\<not> is_using_in_process_server connected_client" "\<not> is_using_in_process_server connecting_client"
    "get_state connected_client = Connected" "get_state connecting_client \<noteq> Connected"
    by (simp_all add: is_using_in_process_server_def get_state_simp connected_client_def connecting_client_def)
  show ?thesis
    using example_client_time_or_message [OF connected_reachable [folded 1(1)], of "\<lambda>chan f. ''1h''" HOURS]
      example_client_time_or_message [OF connecting_reachable [folded 1(2)], of "\<lambda>chan f. ''1h''" HOURS] 1 2
    by simp
qed

theorem example_client_toggles_register_again_witness:
  "\<exists>c1 c2. toggle_streaming bump_new (\<lambda>chan. chan) 1 2 connecting_example = Inr c1
     \<and> toggle_streaming bump_new (\<lambda>chan. chan) 1 2 c1 = Inr c2
     \<and> length (um_keys (streams (sd (grpc_client_of c2)))) = 3"
  using example_client_toggles_register_again
    [of False _ connecting_example bump_new "\<lambda>chan. chan" 1 2] connecting_reachable
  by (auto simp: connecting_example_def connecting_client_def get_state_simp numeral_3_eq_3)

theorem arch_client_streams_only_once_witness:
  "\<exists>c. arch_run [ArchToggle, ArchBegins, ArchToggle, ArchToggle, ArchBegins] new_arch_client = Inr c \<and> arch_thread c \<noteq> Running"
proof -
  obtain c where "arch_run [ArchToggle, ArchBegins, ArchToggle, ArchToggle, ArchBegins] new_arch_client = Inr c"
    by (simp add: new_arch_client_def arch_toggle_streaming_def arch_join_def arch_thread_begins_def)
  with arch_client_streams_only_once [OF this] show ?thesis by blast
qed

theorem task_client_ignores_completions_witness:
  "process_completion_queue (Some (3, True)) (new_task_client ''h:1'' :: (nat, nat, nat) task_client) = Inr (new_task_client ''h:1'', [])"
  using task_client_ignores_completions [OF task_init] by blast

theorem task_client_destructor_returns_witness:
  "task_thread (task_turns 3 (begin_destroy_task_client (new_task_client ''h:1'' :: (nat, nat, nat) task_client))) = Returned"
proof -
  let ?c = "new_task_client ''h:1'' :: (nat, nat, nat) task_client"
  have q: "queue (task_queue ?c) = [InitClient ''h:1'']" "task_thread ?c = Running"
    by (simp_all add: new_task_client_def emplace_back_def new_blocking_queue_def)
  have "task_thread (task_turns (length (queue (task_queue ?c)) + 2) (begin_destroy_task_client ?c)) = Returned"
    by (rule task_client_destructor_returns [OF task_init]) (simp_all add: q)
  moreover have "length (queue (task_queue ?c)) + 2 = 3" by (simp add: q)
  ultimately show ?thesis by metis
qed

definition one_call :: "(nat, nat, nat) task_client" where
  "one_call = (new_task_client ''h:1'')\<lparr>completion_queue_valid := True, client_rpcs := [(4, make_unique_client_unary_rpc 0 0 9)]\<rparr>"

theorem client_call_answered_witness:
  "\<exists>c1 c2 tag. send_unary bump_new 4 (7 :: nat) one_call = Inr (c1, [AsyncCall 4 7, FinishInto 4 tag], tag)
     \<and> process_completion_queue (Some (tag, True)) (call_answered 4 70 1 c1) = Inr (c2, [FinishedCall 9 1 70])
     \<and> client_rpcs c2 = []"
proof -
  have c: "map_of (client_rpcs one_call) 4 = Some (make_unique_client_unary_rpc 0 0 9)" "completion_queue_valid one_call"
    by (simp_all add: one_call_def)
  from client_call_answered [OF operator_new_bump c, of "7 :: nat" True 70 1] show ?thesis
    by (auto simp: make_unique_client_unary_rpc_def one_call_def um_erase_def um_adjust_def)
qed

end
