(* ===== verification/Example_System.thy ===== *)
theory Example_System
  imports Example_Server Example_Clients
begin

text \<open>
  The two example programs together: the commands of \<open>ExampleClient\<close> (example/src/example_client.cpp)
  answered by \<open>ExampleServer\<close> (example_server.cpp). gRPC carries the request of a unary call to the
  server, where it comes back from the server's queue under the tag of the handler, and the reply to the
  client that waits for it; that much is taken from its documentation.
\<close>

section \<open>A call through gRPC\<close>

type_synonym clock_effects = "(ptr \<times> (clock_request, string, status, unit) rpc_effect) list"

fun reply_in :: "clock_effects \<Rightarrow> string option" where
  "reply_in [] = None"
| "reply_in ((p, NonStreamEffect (NsFinish response st addr)) # es) = Some response"
| "reply_in (e # es) = reply_in es"

text \<open>
  The server's turn for the call, at the time \<open>now\<close>, through the handler registered at \<open>q\<close>; the
  display text the client's \<open>Time\<close> has afterwards, and the server.
\<close>

definition call_time ::
    "(clock_request, string) activation \<Rightarrow> int \<Rightarrow> ptr \<Rightarrow> format \<Rightarrow> example_server \<Rightarrow> async_error + (string \<times> example_server)" where
  "call_time b now q f s =
     (case server_turn b (FormatRequest f) q True ((clock_server s)\<lparr>world := now\<rparr>) of
        Inl e \<Rightarrow> Inl e
      | Inr s' \<Rightarrow>
          Inr (case reply_in (drop (length (server_trace (clock_server s))) (server_trace s')) of
                 None \<Rightarrow> [] | Some display_time \<Rightarrow> display_time,
               s\<lparr>clock_server := s'\<rparr>))"

datatype system_error = AtServer async_error | AtClient client_error

text \<open>
  A sequence of time commands: each is executed by the client, and if that has a connection the server
  takes a turn.
\<close>

fun time_session ::
    "ptr \<Rightarrow> ((clock_request, string) activation \<times> int \<times> format) list \<Rightarrow> ('chan, 'reader, 'cb) example_client
      \<Rightarrow> example_server \<Rightarrow> system_error + (string list \<times> example_server)" where
  "time_session q [] c s = Inr ([], s)"
| "time_session q ((b, now, f) # cmds) c s =
     (let through = call_time b now q f s
      in case get_server_time_now (\<lambda>stub f. case call_time b now q f s of Inl e \<Rightarrow> [] | Inr (t, _) \<Rightarrow> t) f c of
           Inl e \<Rightarrow> Inl (AtClient e)
         | Inr text \<Rightarrow>
             (case (if get_state (grpc_client_of c) = Connected then map_sum id snd through else Inr s) of
                Inl e \<Rightarrow> Inl (AtServer e)
              | Inr s1 \<Rightarrow> map_sum id (\<lambda>(ts, s2). (text # ts, s2)) (time_session q cmds c s1)))"

section \<open>The server between calls\<close>

definition serves_time :: "int \<Rightarrow> ptr \<Rightarrow> example_server \<Rightarrow> bool" where
  "serves_time start q s \<longleftrightarrow> q \<in> set (server_pending (clock_server s))
     \<and> (\<exists>h. map_of (handlers_of (clock_server s)) q = Some (NonStreamRpc h) \<and> ns_ready h
          \<and> callback h = get_time_callback start)"

lemma new_server_serves_time:
  assumes "operator_new new" and "new_example_server new a start address = Inr s"
  shows "\<exists>q. serves_time start q s"
proof -
  from assms(2) obtain stream s1 where "register_async new a (get_time_callback start) s1 = Inr (clock_server s)"
    by (auto simp: new_example_server_def split: sum.splits prod.splits)
  from register_async_fields [OF assms(1) this] show ?thesis by (auto simp: serves_time_def)
qed

lemma call_time_answers:
  assumes "serves_time start q s" and "queue_answer b = Some (response_addr b, True)"
  shows "\<exists>s'. call_time b now q f s = Inr (format_duration f (now - start), s') \<and> serves_time start q s'"
proof -
  let ?s = "(clock_server s)\<lparr>world := now\<rparr>"
  from assms(1) obtain h where h: "map_of (handlers_of ?s) q = Some (NonStreamRpc h)" "ns_ready h"
    "callback h = get_time_callback start"
    by (auto simp: serves_time_def)
  have cb: "callback h (FormatRequest f) (default_response b) (world ?s) = ((OK, format_duration f (now - start)), now)"
    using h(3) by (simp add: get_time_callback_def get_time_def)
  let ?h = "h\<lparr>connection := Some \<lparr>ns_request = default_request b\<rparr>\<rparr>"
  have "ns_ready ?h" "callback ?h = get_time_callback start" using h by (simp_all add: ns_ready_def)
  with h(1) assms(2) ns_activate_next_answers [OF h(2) cb, of "default_request b" "response_addr b"] show ?thesis
    by (auto simp: call_time_def server_turn_def activate_at_def use_safely_def map_of_um_adjust serves_time_def)
qed

lemma connected_client_calls:
  fixes c :: "('chan, 'reader, 'cb) example_client"
  assumes "client_reachable used (tr :: ('ret, 'st, 'cb) client_effect list) (grpc_client_of c)"
    and "\<not> is_using_in_process_server (grpc_client_of c)"
  shows "get_server_time_now rpc f c =
     (if get_state (grpc_client_of c) = Connected then Inr (rpc (the (channel (sd (grpc_client_of c)))) f)
      else Inr ''Not connected a server'')"
proof -
  have "client_inv (grpc_client_of c)" using client_reachable_keeps [OF assms(1)] by simp
  with assms(2) show ?thesis
    by (auto simp: get_server_time_now_def use_stub_def use_safely_def get_state_simp client_inv_def streams_inv_def
        is_using_in_process_server_def split: option.splits)
qed

section \<open>Properties\<close>

text \<open>
  The examples work together: a client connected to a newly constructed server asks for the time
  any number of times, in any formats, and each reply is the time that has passed since the server was
  constructed, in the format of that command; the server is ready again after every call. A client that is
  not connected answers every command with its message and makes no call.
\<close>

theorem example_system_tells_time:
  fixes c :: "('chan, 'reader, 'cb) example_client"
  assumes "operator_new new" and "new_example_server new a start address = Inr s"
    and "client_reachable used (tr :: ('ret, 'st, 'cb) client_effect list) (grpc_client_of c)"
    and "\<not> is_using_in_process_server (grpc_client_of c)"
    and "\<forall>(b, now, f) \<in> set cmds. queue_answer b = Some (response_addr b, True)"
  shows "\<exists>q s'. time_session q cmds c s =
     Inr (map (\<lambda>(b, now, f). if get_state (grpc_client_of c) = Connected then format_duration f (now - start)
                             else ''Not connected a server'') cmds, s')"
proof -
  note client = connected_client_calls [OF assms(3,4)]
  have "\<exists>s'. time_session q cmds c s =
     Inr (map (\<lambda>(b, now, f). if get_state (grpc_client_of c) = Connected then format_duration f (now - start)
                             else ''Not connected a server'') cmds, s')"
    if "serves_time start q s" for q s
    using that assms(5)
  proof (induction cmds arbitrary: s)
    case (Cons call cmds)
    obtain b now f where call: "call = (b, now, f)" by (rule prod_cases3)
    with Cons.prems call_time_answers [of start q s b now f] obtain s1 where
      s1: "call_time b now q f s = Inr (format_duration f (now - start), s1)" "serves_time start q s1" by auto
    from Cons.IH [OF Cons.prems(1)] Cons.IH [OF s1(2)] Cons.prems(2) s1(1) show ?case
      by (auto simp: call client)
  qed simp
  with new_server_serves_time [OF assms(1,2)] show ?thesis by blast
qed

theorem example_system_tells_time_witness:
  "\<exists>s q s'. new_example_server bump_new clock_env 0 ''0.0.0.0:50055'' = Inr s
     \<and> time_session q [(clock_env, 7200000000000, HOURS), (clock_env, 9000000000, SECONDS)] connected_example s
       = Inr ([format_duration HOURS 7200000000000, format_duration SECONDS 9000000000], s')"
proof -
  obtain s where s: "new_example_server bump_new clock_env 0 ''0.0.0.0:50055'' = Inr s"
    using example_server_constructs by blast
  have c: "grpc_client_of connected_example = connected_client" "\<not> is_using_in_process_server connected_client"
    "get_state connected_client = Connected"
    by (simp_all add: connected_example_def is_using_in_process_server_def get_state_simp connected_client_def connecting_client_def)
  have "queue_answer clock_env = Some (response_addr clock_env, True)" by (simp add: clock_env_def)
  with example_system_tells_time [OF operator_new_bump s connected_reachable [folded c(1)],
      of "[(clock_env, 7200000000000, HOURS), (clock_env, 9000000000, SECONDS)]"] c s
  show ?thesis by auto
qed

end
