(* ===== verification/Example_Client_Stream.thy ===== *)
theory Example_Client_Stream
  imports Example_Clients
begin

text \<open>
  The pointer \<open>stream_context_\<close> of \<open>ExampleClient\<close> (example/src/example_client.cpp) over time. The
  function that opens a stream stores the address of the stream's context in it, whoever starts the
  stream; the finish callback clears it; and \<open>toggle_streaming\<close> cancels through it. The client's own
  thread and the streams' threads run between the three calls of a toggle: \<open>register_stream\<close>,
  \<open>on_update\<close> and \<open>on_finish\<close>.

  A context is named by the key of its stream. Every start of a stream stores the new context, so the
  pointer refers to the stream started last, and it dangles if that stream has no context any more.
\<close>

section \<open>Steps\<close>

datatype toggle_pc = NoToggle | Registered ptr | UpdateSet ptr

record ('chan, 'reader, 'cb) ex_client =
  ex_client_of :: "('chan, 'reader, 'cb) grpc_client"
  ex_context :: "ptr option"
  ex_toggle :: toggle_pc

datatype ex_error = InExampleClient client_error | DanglingContext ptr

abbreviation ex_streams :: "('chan, 'reader, 'cb) ex_client \<Rightarrow> (ptr, ('chan, 'reader, 'cb) client_stream) umap" where
  "ex_streams c \<equiv> streams (sd (ex_client_of c))"

definition streaming_at :: "ptr \<Rightarrow> (ptr, ('chan, 'reader, 'cb) client_stream) umap \<Rightarrow> bool" where
  "streaming_at p m = (case map_of m p of None \<Rightarrow> False | Some s \<Rightarrow> streaming s)"

text \<open>The lambda that opens a stream stores its context.\<close>

definition context_after_starts ::
    "(ptr, ('chan, 'reader, 'cb) client_stream) umap \<Rightarrow> (ptr, ('chan, 'reader, 'cb) client_stream) umap
      \<Rightarrow> ptr option \<Rightarrow> ptr option" where
  "context_after_starts old new ctx =
     (let started = filter (\<lambda>p. streaming_at p new \<and> \<not> streaming_at p old) (um_keys new)
      in if started = [] then ctx else Some (last started))"

text \<open>The finish callback of a stream that ends clears the pointer.\<close>

fun is_finish :: "('ret, 'st, 'cb) client_effect \<Rightarrow> bool" where
  "is_finish (FromStream p (OnFinish cb st)) = True"
| "is_finish e = False"

definition context_after_ends :: "('ret, 'st, 'cb) client_effect list \<Rightarrow> ptr option \<Rightarrow> ptr option" where
  "context_after_ends es ctx = (if list_ex is_finish es then None else ctx)"

definition ex_turn ::
    "connectivity \<Rightarrow> bool \<Rightarrow> ('ret, 'st) stream_rest \<Rightarrow> ('chan, 'reader, 'cb) ex_client
      \<Rightarrow> ex_error + ('chan, 'reader, 'cb) ex_client" where
  "ex_turn answer ok rest c =
     (case (run_turn answer ok rest (ex_client_of c)
             :: client_error + (('chan, 'reader, 'cb) grpc_client \<times> ('ret, 'st, 'cb) client_effect list)) of
        Inl e \<Rightarrow> Inl (InExampleClient e)
      | Inr (g, es) \<Rightarrow>
          Inr (c\<lparr>ex_client_of := g,
                 ex_context := context_after_starts (ex_streams c) (streams (sd g)) (context_after_ends es (ex_context c))\<rparr>))"

definition ex_stream_ends ::
    "ptr \<Rightarrow> 'ret list \<Rightarrow> 'st \<Rightarrow> ('chan, 'reader, 'cb) ex_client \<Rightarrow> ('chan, 'reader, 'cb) ex_client" where
  "ex_stream_ends key updates status c =
     c\<lparr>ex_client_of := with_shared (\<lambda>d. d\<lparr>streams := um_adjust (stream_ends_by_itself updates status) key (streams d)\<rparr>)
          (ex_client_of c),
       ex_context := (case map_of (ex_streams c) key of
          None \<Rightarrow> ex_context c
        | Some s \<Rightarrow> if stream_thread s = Running \<and> finish_callback s \<noteq> None then None else ex_context c)\<rparr>"

text \<open>\<open>stream_context_->TryCancel()\<close>, or the first of the three calls.\<close>

definition toggle_begin ::
    "(ptr list \<Rightarrow> ptr) \<Rightarrow> ('chan \<Rightarrow> 'reader) \<Rightarrow> ('chan, 'reader, 'cb) ex_client \<Rightarrow> ex_error + ('chan, 'reader, 'cb) ex_client" where
  "toggle_begin new f c =
     (case ex_context c of
        Some key \<Rightarrow>
          (if streaming_at key (ex_streams c)
           then Inr (c\<lparr>ex_client_of := with_shared
                  (\<lambda>d. d\<lparr>streams := um_adjust (\<lambda>s. s\<lparr>context_of := Some Cancelled\<rparr>) key (streams d)\<rparr>) (ex_client_of c)\<rparr>)
           else Inl (DanglingContext key))
      | None \<Rightarrow>
          (case register_stream new f (ex_client_of c) of
             Inl e \<Rightarrow> Inl (InExampleClient e)
           | Inr (key, g) \<Rightarrow>
               Inr (c\<lparr>ex_client_of := g, ex_toggle := Registered key,
                      ex_context := context_after_starts (ex_streams c) (streams (sd g)) (ex_context c)\<rparr>)))"

definition toggle_set_update :: "'cb \<Rightarrow> ('chan, 'reader, 'cb) ex_client \<Rightarrow> ('chan, 'reader, 'cb) ex_client" where
  "toggle_set_update cb c =
     (case ex_toggle c of
        Registered key \<Rightarrow> c\<lparr>ex_client_of := callback_setter_on_update key cb (ex_client_of c), ex_toggle := UpdateSet key\<rparr>
      | _ \<Rightarrow> c)"

definition toggle_set_finish :: "'cb \<Rightarrow> ('chan, 'reader, 'cb) ex_client \<Rightarrow> ('chan, 'reader, 'cb) ex_client" where
  "toggle_set_finish cb c =
     (case ex_toggle c of
        UpdateSet key \<Rightarrow> c\<lparr>ex_client_of := callback_setter_on_finish key cb (ex_client_of c), ex_toggle := NoToggle\<rparr>
      | _ \<Rightarrow> c)"

definition toggle_at_once ::
    "(ptr list \<Rightarrow> ptr) \<Rightarrow> ('chan \<Rightarrow> 'reader) \<Rightarrow> 'cb \<Rightarrow> 'cb \<Rightarrow> ('chan, 'reader, 'cb) ex_client
      \<Rightarrow> ex_error + ('chan, 'reader, 'cb) ex_client" where
  "toggle_at_once new f cb1 cb2 c = map_sum id (toggle_set_finish cb2 \<circ> toggle_set_update cb1) (toggle_begin new f c)"

section \<open>Toggles that are not interrupted\<close>

text \<open>
  The client's thread and the ends of streams come between toggles, and never inside one. The list
  records the events for which the environment answered.
\<close>

definition ex_start :: "('chan, 'reader, 'cb) grpc_client \<Rightarrow> ('chan, 'reader, 'cb) ex_client" where
  "ex_start g = \<lparr>ex_client_of = g, ex_context = None, ex_toggle = NoToggle\<rparr>"

inductive prompt_reachable ::
    "('ret list \<times> 'st) list \<Rightarrow> ('chan, 'reader, 'cb) grpc_client \<Rightarrow> ('chan, 'reader, 'cb) ex_client \<Rightarrow> bool" where
  prompt_init: "client_inv g \<Longrightarrow> streams (sd g) = [] \<Longrightarrow> prompt_reachable [] g (ex_start g)"
| prompt_turn: "prompt_reachable tr g c \<Longrightarrow> follow_thread (ex_client_of c) = Running \<Longrightarrow>
    ex_turn answer ok (rest :: ('ret, 'st) stream_rest) c = Inr c' \<Longrightarrow> prompt_reachable tr g c'"
| prompt_ends: "prompt_reachable tr g c \<Longrightarrow>
    prompt_reachable ((updates, status) # tr) g (ex_stream_ends key updates status c)"
| prompt_toggle: "prompt_reachable tr g c \<Longrightarrow> operator_new new \<Longrightarrow> toggle_at_once new f cb1 cb2 c = Inr c' \<Longrightarrow>
    prompt_reachable tr g c'"

text \<open>Every stream has its finish callback, and the pointer's stream has a thread that will call it.\<close>

definition ex_inv :: "('chan, 'reader, 'cb) ex_client \<Rightarrow> bool" where
  "ex_inv c \<longleftrightarrow> client_inv (ex_client_of c) \<and> ex_toggle c = NoToggle
     \<and> (\<forall>s \<in> snd ` set (ex_streams c). finish_callback s \<noteq> None)
     \<and> (\<forall>p. ex_context c = Some p \<longrightarrow>
          (\<exists>s. map_of (ex_streams c) p = Some s \<and> streaming s \<and> stream_thread s = Running))"

section \<open>The loops over the streams\<close>

lemma start_all_streams:
  "start_all (start_stream chan) m = Inr m' \<Longrightarrow>
     map_of m' p = map_option (\<lambda>s. if streaming s then s
       else s\<lparr>context_of := Some Open, reader := Some (init_func s chan), stream_thread := Running\<rparr>) (map_of m p)"
  by (induction m arbitrary: m') (auto simp: start_stream_def split: sum.splits if_splits)

lemma start_all_finish:
  "start_all (start_stream chan) m = Inr m' \<Longrightarrow> t \<in> snd ` set m' \<Longrightarrow>
     \<exists>s \<in> snd ` set m. finish_callback t = finish_callback s"
proof (induction m arbitrary: m')
  case (Cons x m)
  obtain q u where x: "x = (q, u)" by (rule prod.exhaust)
  from Cons.prems(1) obtain u' m1 where
    start: "start_stream chan u = Inr u'" "start_all (start_stream chan) m = Inr m1" "m' = (q, u') # m1"
    by (auto simp: x split: sum.splits)
  then have "finish_callback u' = finish_callback u" by (auto simp: start_stream_def split: if_splits)
  with Cons.prems(2) Cons.IH [OF start(2)] start(3) show ?case by (auto simp: x)
qed simp

lemma run_stream_thread_finish:
  "finish_callback s = Some cb \<Longrightarrow>
     OnFinish cb status \<in> set (snd (run_stream_thread updates status s :: _ \<times> ('ret, 'st, 'cb) client_stream_effect list))"
  by (induction updates) (auto simp: deliver_finish_def split: prod.splits)

lemma stop_stream_finish:
  assumes "stop_stream updates status s = Inr (s', es)" and "streaming s" and "stream_thread s = Running"
    and "finish_callback s = Some cb"
  shows "OnFinish cb status \<in> set es"
  using assms run_stream_thread_finish [of "s\<lparr>context_of := Some Cancelled\<rparr>" cb status updates]
  by (auto simp: stop_stream_def join_stream_thread_def split: prod.splits)

lemma stop_stream_callback:
  "stop_stream updates status s = Inr (s', es :: ('ret, 'st, 'cb) client_stream_effect list) \<Longrightarrow>
     finish_callback s' = finish_callback s"
  using run_stream_thread_fields [of updates status "s\<lparr>context_of := Some Cancelled\<rparr>"]
  by (auto simp: stop_stream_def join_stream_thread_def split: if_splits sum.splits thread_state.splits prod.splits)

definition stop_each :: "('ret, 'st) stream_rest \<Rightarrow> ptr \<Rightarrow> ('chan, 'reader, 'cb) client_stream
    \<Rightarrow> client_error + (('chan, 'reader, 'cb) client_stream \<times> ('ret, 'st, 'cb) client_stream_effect list)" where
  "stop_each rest p = (case rest p of (us, st) \<Rightarrow> stop_stream us st)"

lemma stop_all_finish:
  "stop_all (stop_each rest) m = Inr (m', es) \<Longrightarrow> map_of m p = Some s \<Longrightarrow> streaming s \<Longrightarrow>
     stream_thread s = Running \<Longrightarrow> finish_callback s = Some cb \<Longrightarrow> \<exists>st. (p, OnFinish cb st) \<in> set es"
proof (induction m arbitrary: m' es)
  case (Cons x m)
  obtain q t where x: "x = (q, t)" by (rule prod.exhaust)
  obtain us st where "rest q = (us, st)" by (rule prod.exhaust)
  then have r: "stop_each rest q = stop_stream us st" by (simp add: stop_each_def)
  from Cons.prems(1) obtain t' es1 m1 es2 where
    stop: "stop_stream us st t = Inr (t', es1)" "stop_all (stop_each rest) m = Inr (m1, es2)" "es = map (Pair q) es1 @ es2"
    by (auto simp: x r split: sum.splits prod.splits)
  show ?case
  proof (cases "p = q")
    case True
    with Cons.prems x have "t = s" by simp
    with stop_stream_finish [OF stop(1)] Cons.prems True stop(3) show ?thesis by auto
  next
    case False
    with Cons.prems x Cons.IH [OF stop(2)] stop(3) show ?thesis by auto
  qed
qed simp

lemma stop_all_callbacks:
  "stop_all (stop_each rest) m = Inr (m', es) \<Longrightarrow> t \<in> snd ` set m' \<Longrightarrow>
     \<exists>s \<in> snd ` set m. finish_callback t = finish_callback s"
proof (induction m arbitrary: m' es)
  case (Cons x m)
  obtain q u where x: "x = (q, u)" by (rule prod.exhaust)
  obtain us st where "rest q = (us, st)" by (rule prod.exhaust)
  then have r: "stop_each rest q = stop_stream us st" by (simp add: stop_each_def)
  from Cons.prems(1) obtain u' es1 m1 es2 where
    stop: "stop_stream us st u = Inr (u', es1)" "stop_all (stop_each rest) m = Inr (m1, es2)" "m' = (q, u') # m1"
    by (auto simp: x r split: sum.splits prod.splits)
  with Cons.prems(2) Cons.IH [OF stop(2)] stop_stream_callback [OF stop(1)] show ?case
    by (auto simp: x)
qed simp

lemma stopping_each:
  "stopping rest d = map_sum id (\<lambda>(m, es). (es, d\<lparr>streams := m\<rparr>)) (stop_all (stop_each rest) (streams d))"
  by (simp add: stopping_def stop_each_def [abs_def])

section \<open>A turn of the thread\<close>

text \<open>The three cases: nothing happens to the streams, all of them start, or all of them stop.\<close>

lemma turn_cases:
  fixes rest :: "('ret, 'st) stream_rest" and es :: "('ret, 'st, 'cb) client_effect list"
  assumes turn: "run_turn answer ok rest c = Inr (g, es)" and inv: "client_inv c" and run: "follow_thread c = Running"
  obtains (same) "streams (sd g) = streams (sd c)" "\<not> list_ex is_finish es"
  | (starts) st where "start_all (start_stream st) (streams (sd c)) = Inr (streams (sd g))" "\<not> list_ex is_finish es"
      "connection_state (sd c) \<noteq> Ready"
  | (stops) es1 where "stop_all (stop_each rest) (streams (sd c)) = Inr (streams (sd g), es1)"
      "\<And>p cb st. (p, OnFinish cb st) \<in> set es1 \<Longrightarrow> list_ex is_finish es"
proof -
  have chan: "channel (sd c) \<noteq> None" using inv run by (auto simp: client_inv_def)
  have rep: "\<not> list_ex is_finish (report cb ch :: ('ret, 'st, 'cb) client_effect list)" for cb ch
    by (auto simp: report_def split: option.splits)
  from turn obtain changed again es1 d' where
    f: "follow_body answer ok rest (sd c) = Inr ((changed, again, es1), d')" "sd g = d'"
      "es = map (\<lambda>(p, e). FromStream p e) es1 @ report (change_callback c) changed"
    by (auto simp: run_turn_def use_shared_simp split: sum.splits prod.splits)
  show ?thesis
  proof (cases "ok \<and> to_cnc_client_state answer \<noteq> to_cnc_client_state (connection_state (sd c))")
    case False
    with f(1) chan have "streams d' = streams (sd c)" "es1 = []" by (auto simp: follow_body_def Let_def split: if_splits)
    with f rep show ?thesis by (intro same) auto
  next
    case True
    show ?thesis
    proof (cases "answer = Ready")
      case ready: True
      with True have nr: "connection_state (sd c) \<noteq> Ready" by auto
      from f(1) True ready chan obtain es' where
        "starting ((sd c)\<lparr>connection_state := answer\<rparr>) = Inr d'" "es1 = []"
        by (auto simp: follow_body_def split: sum.splits)
      moreover have "stub (sd c) = channel (sd c)" using inv by (simp add: client_inv_def streams_inv_def)
      ultimately obtain st where "start_all (start_stream st) (streams (sd c)) = Inr (streams d')" "es1 = []"
        using chan by (cases "start_all (start_stream (the (stub (sd c)))) (streams (sd c))")
          (auto simp: starting_def)
      with f rep nr show ?thesis by (intro starts) auto
    next
      case False
      with f(1) True chan obtain d2 where
        "stopping rest ((sd c)\<lparr>connection_state := answer\<rparr>) = Inr (es1, d')"
        by (auto simp: follow_body_def split: sum.splits)
      then have "stop_all (stop_each rest) (streams (sd c)) = Inr (streams d', es1)"
        by (cases "stop_all (stop_each rest) (streams (sd c))") (auto simp: stopping_each)
      with f(2,3) show ?thesis by (intro stops) (force simp: list_ex_iff)+
    qed
  qed
qed

lemma map_of_streams: "map_of m p = Some s \<Longrightarrow> s \<in> snd ` set m"
  by (force dest: map_of_SomeD)

lemma context_after_starts_cases:
  assumes "context_after_starts old new ctx = Some p"
  shows "ctx = Some p \<or> (streaming_at p new \<and> \<not> streaming_at p old)"
proof -
  let ?l = "filter (\<lambda>p. streaming_at p new \<and> \<not> streaming_at p old) (um_keys new)"
  have "last ?l \<in> set ?l" if "?l \<noteq> []" using that by (rule last_in_set)
  with assms show ?thesis by (auto simp: context_after_starts_def Let_def split: if_splits)
qed

lemma ex_inv_turn:
  fixes rest :: "('ret, 'st) stream_rest" and c :: "('chan, 'reader, 'cb) ex_client"
  assumes inv: "ex_inv c" and run: "follow_thread (ex_client_of c) = Running" and turn: "ex_turn answer ok rest c = Inr c'"
  shows "ex_inv c'"
proof -
  have ci: "client_inv (ex_client_of c)" using inv by (simp add: ex_inv_def)
  from turn obtain g and es :: "('ret, 'st, 'cb) client_effect list" where
    g: "run_turn answer ok rest (ex_client_of c) = Inr (g, es)"
      "c' = c\<lparr>ex_client_of := g,
         ex_context := context_after_starts (ex_streams c) (streams (sd g)) (context_after_ends es (ex_context c))\<rparr>"
    by (auto simp: ex_turn_def split: sum.splits)
  have cg: "client_inv g" using run_turn_keeps [OF ci run, of answer ok rest] g(1) by (auto simp: step_keeps_def)
  from g(1) ci run show ?thesis
  proof (cases rule: turn_cases)
    case same
    then have "context_after_starts (ex_streams c) (streams (sd g)) (context_after_ends es (ex_context c)) = ex_context c"
      by (simp add: context_after_starts_def context_after_ends_def)
    with same inv g(2) cg show ?thesis by (simp add: ex_inv_def)
  next
    case (starts st)
    have none: "\<not> streaming s" if "s \<in> snd ` set (ex_streams c)" for s
      using ci starts(3) that unfolding client_inv_def streams_inv_def by blast
    then have ctx: "ex_context c = None"
      using inv map_of_streams unfolding ex_inv_def by (metis option.exhaust)
    have at: "map_of (streams (sd g)) p = Some s \<Longrightarrow> stream_thread s = Running" for p s
    proof -
      assume "map_of (streams (sd g)) p = Some s"
      with start_all_streams [OF starts(1), of p] obtain s0 where
        s0: "map_of (ex_streams c) p = Some s0" "s = (if streaming s0 then s0
           else s0\<lparr>context_of := Some Open, reader := Some (init_func s0 st), stream_thread := Running\<rparr>)"
        by (cases "map_of (ex_streams c) p") simp_all
      with none [OF map_of_streams [OF s0(1)]] show "stream_thread s = Running" by simp
    qed
    have "\<exists>s. map_of (streams (sd g)) p = Some s \<and> streaming s \<and> stream_thread s = Running"
      if "context_after_starts (ex_streams c) (streams (sd g)) (context_after_ends es (ex_context c)) = Some p" for p
      using context_after_starts_cases [OF that] ctx starts(2) at
      by (auto simp: context_after_ends_def streaming_at_def split: option.splits)
    moreover have "\<forall>s \<in> snd ` set (streams (sd g)). finish_callback s \<noteq> None"
      using start_all_finish [OF starts(1)] inv unfolding ex_inv_def by metis
    ultimately show ?thesis using g(2) cg inv by (simp add: ex_inv_def)
  next
    case (stops es1)
    have "context_after_ends es (ex_context c) = None"
    proof (cases "ex_context c")
      case (Some p)
      with inv obtain s cb where s: "map_of (ex_streams c) p = Some s" "streaming s" "stream_thread s = Running"
        "finish_callback s = Some cb"
        using map_of_streams unfolding ex_inv_def by (metis option.exhaust)
      from stop_all_finish [OF stops(1) s] stops(2) show ?thesis by (auto simp: context_after_ends_def)
    qed (simp add: context_after_ends_def)
    moreover have "\<not> streaming_at p (streams (sd g))" for p
      using client_streams.stop_all_ok [of "ex_streams c" rest] ci stops(1) map_of_streams
      by (fastforce simp: client_inv_def streams_inv_def stop_each_def [abs_def] streaming_at_def split: option.splits)
    moreover have "\<forall>s \<in> snd ` set (streams (sd g)). finish_callback s \<noteq> None"
      using stop_all_callbacks [OF stops(1)] inv unfolding ex_inv_def by metis
    ultimately show ?thesis using g(2) cg inv
      by (auto simp: ex_inv_def dest!: context_after_starts_cases)
  qed
qed

section \<open>The end of a stream, and a toggle\<close>

lemma um_adjust_cong: "(\<And>v. (k, v) \<in> set m \<Longrightarrow> f v = g v) \<Longrightarrow> um_adjust f k m = um_adjust g k m"
  by (auto simp: um_adjust_def)

lemma um_adjust_values: "t \<in> snd ` set (um_adjust f k m) \<Longrightarrow> \<exists>s \<in> snd ` set m. t = s \<or> t = f s"
  by (force simp: um_adjust_def)

lemma adjust_finish_callbacks:
  assumes "\<forall>s \<in> snd ` set m. finish_callback s \<noteq> None" and "\<And>s. finish_callback (f s) = finish_callback s"
  shows "\<forall>s \<in> snd ` set (um_adjust f k m). finish_callback s \<noteq> None"
  using assms um_adjust_values by metis

lemma ex_inv_ends: "ex_inv c \<Longrightarrow> ex_inv (ex_stream_ends key updates status c)"
proof -
  assume inv: "ex_inv c"
  let ?f = "stream_ends_by_itself updates status :: ('a, 'b, 'c) client_stream \<Rightarrow> ('a, 'b, 'c) client_stream"
  have f: "stream_ok s \<Longrightarrow> stream_ok (?f s) \<and> streaming (?f s) = streaming s"
    "finish_callback (?f s) = finish_callback s" "stream_thread s \<noteq> Running \<Longrightarrow> ?f s = s" for s
    by (auto simp: stream_ends_by_itself_def run_stream_thread_fields stream_ok_def streaming_def)
  have "client_inv (ex_client_of (ex_stream_ends key updates status c))"
    using adjust_keeps [of "ex_client_of c" ?f False key] inv f(1)
    by (simp add: ex_stream_ends_def ex_inv_def step_keeps_def)
  moreover have "\<exists>s. map_of (um_adjust ?f key (ex_streams c)) p = Some s \<and> streaming s \<and> stream_thread s = Running"
    if p: "ex_context (ex_stream_ends key updates status c) = Some p" for p
  proof -
    from p have "ex_context c = Some p" by (auto simp: ex_stream_ends_def split: option.splits if_splits)
    with inv obtain s where s: "map_of (ex_streams c) p = Some s" "streaming s" "stream_thread s = Running"
      unfolding ex_inv_def by blast
    moreover have "finish_callback s \<noteq> None"
      using inv map_of_streams [OF s(1)] unfolding ex_inv_def by blast
    ultimately have "p \<noteq> key" using p by (auto simp: ex_stream_ends_def)
    with s show ?thesis by (simp add: map_of_um_adjust)
  qed
  moreover have "\<forall>s \<in> snd ` set (um_adjust ?f key (ex_streams c)). finish_callback s \<noteq> None"
    using inv f(2) by (intro adjust_finish_callbacks) (simp_all add: ex_inv_def)
  ultimately show ?thesis using inv by (simp add: ex_inv_def ex_stream_ends_def)
qed

lemma ex_inv_cancel:
  assumes inv: "ex_inv c" and key: "ex_context c = Some key"
  shows "\<exists>c'. toggle_begin new f c = Inr c' \<and> ex_inv c'"
proof -
  let ?f = "\<lambda>s :: ('a, 'b, 'c) client_stream. s\<lparr>context_of := Some Cancelled\<rparr>"
  let ?g = "\<lambda>s. if streaming s then ?f s else s"
  from inv key obtain s where s: "map_of (ex_streams c) key = Some s" "streaming s" "stream_thread s = Running"
    by (auto simp: ex_inv_def)
  have ok: "um_ok (ex_streams c)" using inv by (simp add: ex_inv_def client_inv_def streams_inv_def)
  have "v = s" if "(key, v) \<in> set (ex_streams c)" for v
    using that s(1) ok map_of_is_SomeI [of "ex_streams c" key v] by (simp add: um_ok_def um_keys_def)
  then have same: "um_adjust ?f key (ex_streams c) = um_adjust ?g key (ex_streams c)"
    using s(2) by (intro um_adjust_cong) auto
  have g: "stream_ok t \<Longrightarrow> stream_ok (?g t) \<and> streaming (?g t) = streaming t"
    "finish_callback (?g t) = finish_callback t" "stream_thread (?g t) = stream_thread t" for t
    by (auto simp: stream_ok_def streaming_def)
  let ?c = "c\<lparr>ex_client_of := with_shared (\<lambda>d. d\<lparr>streams := um_adjust ?g key (streams d)\<rparr>) (ex_client_of c)\<rparr>"
  have "toggle_begin new f c = Inr ?c"
    using key s same by (simp add: toggle_begin_def streaming_at_def with_shared_def)
  moreover have "client_inv (ex_client_of ?c)"
    using adjust_keeps [of "ex_client_of c" ?g False key] inv g(1) by (simp add: ex_inv_def step_keeps_def)
  moreover have "\<forall>t \<in> snd ` set (um_adjust ?g key (ex_streams c)). finish_callback t \<noteq> None"
    using inv g(2) by (intro adjust_finish_callbacks) (simp_all add: ex_inv_def)
  moreover have "map_of (um_adjust ?g key (ex_streams c)) key = Some (?f s)"
    using s by (simp add: map_of_um_adjust)
  ultimately show ?thesis using inv key s by (auto simp: ex_inv_def streaming_def)
qed

lemma ex_inv_register:
  assumes inv: "ex_inv c" and none: "ex_context c = None" and new: "operator_new new"
  shows "\<exists>c'. toggle_at_once new f cb1 cb2 c = Inr c' \<and> ex_inv c'"
proof -
  let ?g = "ex_client_of c"
  have ci: "client_inv ?g" using inv by (simp add: ex_inv_def)
  from register_keeps [OF ci new, of f] obtain key g1 where
    r: "register_stream new f ?g = Inr (key, g1)" "client_inv g1" by blast
  then obtain s where s: "streams (sd g1) = um_emplace key s (ex_streams c)" "key \<notin> set (um_keys (ex_streams c))"
    "streaming s \<longrightarrow> stream_thread s = Running"
    using operator_newD [OF new, of "um_keys (ex_streams c)"]
    by (auto simp: register_stream_def use_shared_simp register_body_def Let_def start_stream_def new_client_stream_def
        streaming_def split: sum.splits if_splits option.splits)
  define g2 where "g2 = callback_setter_on_update key cb1 g1"
  define g3 where "g3 = callback_setter_on_finish key cb2 g2"
  have "client_inv g2"
    using client_step_keeps [OF r(2), of "EvStreamUpdate key cb1 :: ('a, 'b, unit, unit, 'c) client_event"]
    by (auto simp: g2_def step_keeps_def)
  then have ci3: "client_inv g3"
    using client_step_keeps [of g2 "EvStreamFinish key cb2 :: ('a, 'b, unit, unit, 'c) client_event"]
    by (auto simp: g3_def step_keeps_def)
  have st3: "streams (sd g3) = um_adjust (on_finish cb2) key (um_adjust (on_update cb1) key (um_emplace key s (ex_streams c)))"
    by (simp add: g3_def g2_def callback_setter_on_finish_def callback_setter_on_update_def on_stream_finish_def
        on_stream_update_def use_safely_def s(1))
  let ?ctx = "context_after_starts (ex_streams c) (streams (sd g1)) None"
  have at: "map_of (streams (sd g3)) p =
      (if p = key then Some (on_finish cb2 (on_update cb1 s)) else map_of (ex_streams c) p)" for p
    using s(2) by (simp add: st3 map_of_um_adjust map_of_um_emplace)
  have "p = key \<and> streaming s" if "?ctx = Some p" for p
    using context_after_starts_cases [OF that] s(1,2)
    by (auto simp: streaming_at_def map_of_um_emplace map_of_None_um_keys [symmetric] split: option.splits if_splits)
  then have ctx: "\<exists>t. map_of (streams (sd g3)) p = Some t \<and> streaming t \<and> stream_thread t = Running"
    if "?ctx = Some p" for p
    using that s(3) by (simp add: at on_finish_def on_update_def streaming_def)
  have fin: "finish_callback t \<noteq> None" if "t \<in> snd ` set (streams (sd g3))" for t
  proof -
    have "um_ok (streams (sd g3))" using ci3 by (simp add: client_inv_def streams_inv_def)
    with that obtain p where "map_of (streams (sd g3)) p = Some t"
      by (force simp: um_ok_def um_keys_def dest: map_of_is_SomeI)
    then show ?thesis using inv map_of_streams [of "ex_streams c" p t]
      by (auto simp: at ex_inv_def on_finish_def split: if_splits)
  qed
  have "toggle_at_once new f cb1 cb2 c = Inr (c\<lparr>ex_client_of := g3, ex_toggle := NoToggle, ex_context := ?ctx\<rparr>)"
    using none r(1) by (simp add: toggle_at_once_def toggle_begin_def toggle_set_update_def toggle_set_finish_def g3_def g2_def)
  with ci3 ctx fin show ?thesis by (simp add: ex_inv_def)
qed

lemma ex_inv_toggle:
  assumes "ex_inv c" and "operator_new new"
  shows "\<exists>c'. toggle_at_once new f cb1 cb2 c = Inr c' \<and> ex_inv c'"
proof (cases "ex_context c")
  case None
  show ?thesis by (rule ex_inv_register [OF assms(1) None assms(2)])
next
  case (Some key)
  from ex_inv_cancel [OF assms(1) Some, of new f] obtain c1 where c1: "toggle_begin new f c = Inr c1" "ex_inv c1" by blast
  then show ?thesis by (auto simp: toggle_at_once_def toggle_set_update_def toggle_set_finish_def ex_inv_def)
qed

lemma prompt_inv: "prompt_reachable (tr :: ('ret list \<times> 'st) list) g c \<Longrightarrow> ex_inv c"
proof (induction rule: prompt_reachable.induct)
  case (prompt_init g)
  then show ?case by (simp add: ex_inv_def ex_start_def)
next
  case (prompt_turn tr g c answer ok rest c')
  then show ?case by (blast intro: ex_inv_turn)
next
  case (prompt_ends tr g c updates status key)
  then show ?case by (blast intro: ex_inv_ends)
next
  case (prompt_toggle tr g c new f cb1 cb2 c')
  then show ?case using ex_inv_toggle [of c new f cb1 cb2] by auto
qed

lemma client_stream_silent:
  fixes s :: "('chan, 'reader, 'cb) client_stream"
  assumes "update_callback s = None" and "finish_callback s = None"
  shows "run_stream_thread updates status s = (s\<lparr>stream_thread := Returned\<rparr>, [] :: ('ret, 'st, 'cb) client_stream_effect list)"
  using assms by (induction updates) (simp_all add: deliver_update_def deliver_finish_def)

section \<open>Properties\<close>

text \<open>
  Claim C37. As long as nothing happens between the three calls of a toggle, the pointer is sound: whenever
  it is set, it refers to a context that exists, of a stream whose thread runs, and a toggle always
  succeeds, however turns of the client's thread, streams that end, and toggles follow each other.
\<close>

theorem example_toggle_pointer_sound:
  assumes "prompt_reachable (tr :: ('ret list \<times> 'st) list) g c" and "operator_new new"
  shows "(\<forall>p. ex_context c = Some p \<longrightarrow> streaming_at p (ex_streams c))
     \<and> (\<exists>c'. toggle_at_once new f cb1 cb2 c = Inr c')"
proof -
  note inv = prompt_inv [OF assms(1)]
  with ex_inv_toggle [OF inv assms(2), of f cb1 cb2] show ?thesis
    by (auto simp: ex_inv_def streaming_at_def)
qed

text \<open>
  Claim C38. The order of the calls leaves a gap. \<open>register_stream\<close> starts the stream of a connected client at
  once, before \<open>on_finish\<close> has set the callback that clears the pointer. If the connection is lost in
  between, the stream is stopped without the callback and its context is destroyed: the pointer dangles,
  and the next toggle calls \<open>TryCancel\<close> through it.
\<close>

theorem example_toggle_pointer_dangles:
  fixes g :: "(nat, nat, nat) grpc_client" and rest :: "(nat, nat) stream_rest"
  assumes "client_inv g" and "follow_thread g = Running" and "get_state g = Connected" and "streams (sd g) = []"
    and "operator_new new"
  shows "\<exists>c1 c2 p. toggle_begin new f (ex_start g) = Inr c1
     \<and> ex_turn TransientFailure True rest c1 = Inr c2
     \<and> toggle_begin new f (toggle_set_finish cb2 (toggle_set_update cb1 c2)) = Inl (DanglingContext p)"
proof -
  have chan: "channel (sd g) \<noteq> None" and ready: "connection_state (sd g) = Ready"
    and same: "stub (sd g) = channel (sd g)"
    using assms(1-3) by (auto simp: client_inv_def get_state_simp streams_inv_def)
  then obtain ch where ch: "channel (sd g) = Some ch" "stub (sd g) = Some ch" by auto
  obtain us st where rest: "rest (new []) = (us, st)" by (rule prod.exhaust)
  let ?s = "\<lparr>context_of = Some Open, reader = Some (f ch), stream_thread = Running, init_func = f,
     update_callback = None, finish_callback = None\<rparr> :: (nat, nat, nat) client_stream"
  let ?t = "?s\<lparr>context_of := None, stream_thread := Joined\<rparr>"
  let ?g1 = "with_shared (\<lambda>d. d\<lparr>streams := [(new [], ?s)]\<rparr>) g"
  let ?c1 = "\<lparr>ex_client_of = ?g1, ex_context = Some (new []), ex_toggle = Registered (new [])\<rparr>"
  have 1: "toggle_begin new f (ex_start g) = Inr ?c1"
    using ch ready assms(4)
    by (simp add: toggle_begin_def ex_start_def register_stream_def use_shared_simp register_body_def Let_def
        start_stream_def new_client_stream_def streaming_def um_emplace_def with_shared_def
        context_after_starts_def streaming_at_def)
  have stop: "stop_stream us st ?s = Inr (?t, [] :: (nat, nat, nat) client_stream_effect list)"
    using client_stream_silent [of "?s\<lparr>context_of := Some Cancelled\<rparr>" us st]
    by (simp add: stop_stream_def join_stream_thread_def streaming_def)
  obtain g2 and es :: "(nat, nat, nat) client_effect list" where
    2: "run_turn TransientFailure True rest ?g1 = Inr (g2, es)" "streams (sd g2) = [(new [], ?t)]" "\<not> list_ex is_finish es"
    using ch ready rest stop
    by (auto simp: run_turn_def use_shared_simp follow_body_def stopping_def report_def with_shared_def Let_def
        split: option.splits)
  have "ex_turn TransientFailure True rest ?c1 = Inr (?c1\<lparr>ex_client_of := g2\<rparr>)"
    using 2 by (simp add: ex_turn_def context_after_starts_def streaming_at_def context_after_ends_def streaming_def)
  moreover have "toggle_begin new f (toggle_set_finish cb2 (toggle_set_update cb1 (?c1\<lparr>ex_client_of := g2\<rparr>)))
      = Inl (DanglingContext (new []))"
    using 2(2)
    by (simp add: toggle_begin_def toggle_set_update_def toggle_set_finish_def streaming_at_def
        callback_setter_on_update_def on_stream_update_def callback_setter_on_finish_def on_stream_finish_def
        use_safely_def um_adjust_def on_update_def on_finish_def streaming_def)
  ultimately show ?thesis using 1 by blast
qed

section \<open>Witnesses\<close>

definition ready_client :: "(nat, nat, nat) grpc_client" where
  "ready_client = \<lparr>shared_of = \<lparr>data = \<lparr>connection_state = Ready, channel = Some 7, stub = Some 7, streams = []\<rparr>\<rparr>,
     using_in_process_server = False, server_address = ''h:1'', event_queue = Some \<lparr>queue_shut = False, owed = 1\<rparr>,
     follow_thread = Running, change_callback = Some 1\<rparr>"

lemma ready_client_ok:
  "client_inv ready_client" "follow_thread ready_client = Running" "get_state ready_client = Connected"
  "streams (sd ready_client) = []"
  by (simp_all add: ready_client_def client_inv_def streams_inv_def get_state_simp)

theorem example_toggle_pointer_sound_witness:
  "\<exists>c1 c2. toggle_at_once bump_new Suc 2 3 (ex_start ready_client) = Inr c1
     \<and> toggle_at_once bump_new Suc 2 3 (ex_stream_ends 1 [5 :: nat] (0 :: nat) c1) = Inr c2"
proof -
  have 0: "prompt_reachable ([] :: (nat list \<times> nat) list) ready_client (ex_start ready_client)"
    by (rule prompt_init [OF ready_client_ok(1,4)])
  from example_toggle_pointer_sound [OF this operator_new_bump] obtain c1 where
    c1: "toggle_at_once bump_new Suc 2 3 (ex_start ready_client) = Inr c1" by blast
  have "prompt_reachable [([5 :: nat], 0 :: nat)] ready_client (ex_stream_ends 1 [5 :: nat] (0 :: nat) c1)"
    by (rule prompt_ends, rule prompt_toggle [OF 0 operator_new_bump c1])
  from example_toggle_pointer_sound [OF this operator_new_bump] c1 show ?thesis by blast
qed

theorem example_toggle_pointer_dangles_witness:
  "\<exists>c1 c2 p. toggle_begin bump_new Suc (ex_start ready_client) = Inr c1
     \<and> ex_turn TransientFailure True nothing_left c1 = Inr c2
     \<and> toggle_begin bump_new Suc (toggle_set_finish 3 (toggle_set_update 2 c2)) = Inl (DanglingContext p)"
  by (rule example_toggle_pointer_dangles [OF ready_client_ok operator_new_bump])

end
