(* ===== verification/Example_Main.thy ===== *)
theory Example_Main
  imports Example_Client_Stream
begin

text \<open>
  \<open>main\<close> of the example client (example/src/example_client.cpp): it constructs the client, shows the
  usage, and executes one command for each word of the input until there is none left or the word is
  \<open>x\<close>. What it prints is a list of lines. Before each command the client's thread may take turns and
  streams may end.
\<close>

section \<open>The program\<close>

definition usage_line :: "string \<Rightarrow> string \<Rightarrow> string" where
  "usage_line key what = [CHR 0x09, CHR 0x27] @ key @ [CHR 0x27] @ '' - '' @ what"

definition display_usage :: "string list" where
  "display_usage =
     [''Type characters to display the server time in different formats:'',
      usage_line ''f'' ''Display the full time'',
      usage_line ''h'' ''Display hours only'',
      usage_line ''m'' ''Display minutes only'',
      usage_line ''s'' ''Display seconds only'',
      usage_line ''t'' ''Toggle a stream of time updates'',
      usage_line ''u'' ''Display usage message'',
      usage_line ''x'' ''Exit the program'',
      '''']"

definition unrecognized_lines :: "string \<Rightarrow> string list" where
  "unrecognized_lines input = (''Unrecognized input: '' @ [CHR 0x27] @ input @ [CHR 0x27]) # display_usage"

definition time_lines :: "string \<Rightarrow> string list" where
  "time_lines time_string = (if time_string = [] then [] else [''Server time now: '' @ time_string])"

text \<open>\<open>rpc\<close> is what the server would answer at the time of the command.\<close>

definition run_command ::
    "('chan \<Rightarrow> format \<Rightarrow> string) \<Rightarrow> (ptr list \<Rightarrow> ptr) \<Rightarrow> ('chan \<Rightarrow> 'reader) \<Rightarrow> 'cb \<Rightarrow> 'cb \<Rightarrow> string
      \<Rightarrow> ('chan, 'reader, 'cb) ex_client \<Rightarrow> ex_error + (string list \<times> ('chan, 'reader, 'cb) ex_client)" where
  "run_command rpc new open_stream print_time finished input c =
     (case command_of input of
        TimeNow f \<Rightarrow>
          (case get_server_time_now rpc f \<lparr>grpc_client_of = ex_client_of c, stream_context = ex_context c\<rparr> of
             Inl e \<Rightarrow> Inl (InExampleClient e)
           | Inr time_string \<Rightarrow> Inr (time_lines time_string, c))
      | ToggleStream \<Rightarrow> map_sum id (Pair []) (toggle_at_once new open_stream print_time finished c)
      | Usage \<Rightarrow> Inr (display_usage, c)
      | Unrecognized word \<Rightarrow> Inr (unrecognized_lines word, c))"

datatype ('ret, 'st) between =
    ThreadTurn connectivity bool "('ret, 'st) stream_rest"
  | StreamEnds ptr "'ret list" 'st

fun happens ::
    "('ret, 'st) between list \<Rightarrow> ('chan, 'reader, 'cb) ex_client \<Rightarrow> ex_error + ('chan, 'reader, 'cb) ex_client" where
  "happens [] c = Inr c"
| "happens (ThreadTurn answer ok rest # es) c =
     (if follow_thread (ex_client_of c) = Running then
        (case ex_turn answer ok rest c of Inl e \<Rightarrow> Inl e | Inr c1 \<Rightarrow> happens es c1)
      else happens es c)"
| "happens (StreamEnds key updates status # es) c = happens es (ex_stream_ends key updates status c)"

type_synonym ('ret, 'st, 'chan) main_input = "('ret, 'st) between list \<times> ('chan \<Rightarrow> format \<Rightarrow> string) \<times> string"

fun main_loop ::
    "(ptr list \<Rightarrow> ptr) \<Rightarrow> ('chan \<Rightarrow> 'reader) \<Rightarrow> 'cb \<Rightarrow> 'cb \<Rightarrow> ('ret, 'st, 'chan) main_input list
      \<Rightarrow> ('chan, 'reader, 'cb) ex_client \<Rightarrow> ex_error + (string list \<times> ('chan, 'reader, 'cb) ex_client)" where
  "main_loop new f cb1 cb2 [] c = Inr ([], c)"
| "main_loop new f cb1 cb2 ((es, rpc, input) # inputs) c =
     (case happens es c of
        Inl e \<Rightarrow> Inl e
      | Inr c1 \<Rightarrow>
          if input = ''x'' then Inr ([], c1)
          else
            (case run_command rpc new f cb1 cb2 input c1 of
               Inl e \<Rightarrow> Inl e
             | Inr (out, c2) \<Rightarrow> map_sum id (\<lambda>(outs, c3). (out @ outs, c3)) (main_loop new f cb1 cb2 inputs c2)))"

definition example_client_main ::
    "(string \<Rightarrow> channel_arguments \<Rightarrow> 'chan) \<Rightarrow> connectivity \<Rightarrow> ('ret, 'st) stream_rest \<Rightarrow> (ptr list \<Rightarrow> ptr)
      \<Rightarrow> ('chan \<Rightarrow> 'reader) \<Rightarrow> 'cb \<Rightarrow> 'cb \<Rightarrow> 'cb \<Rightarrow> string list \<Rightarrow> ('ret, 'st, 'chan) main_input list
      \<Rightarrow> ex_error + (string list \<times> ('chan, 'reader, 'cb) ex_client)" where
  "example_client_main create answer rest new f print_cb cb1 cb2 argv inputs =
     (case (new_example_client create answer rest (host_address_of argv) print_cb
             :: client_error + (('chan, 'reader, 'cb) example_client \<times> ('ret, 'st, 'cb) client_effect list)) of
        Inl e \<Rightarrow> Inl (InExampleClient e)
      | Inr (c, es) \<Rightarrow>
          map_sum id (\<lambda>(outs, c1). (display_usage @ outs @ ['''', ''Exiting''], c1))
            (main_loop new f cb1 cb2 inputs (ex_start (grpc_client_of c))))"

section \<open>What the program is to print\<close>

text \<open>
  The state of the connection changes with the answers the client's thread gets, and with nothing else.
  With it the output is a function of the input.
\<close>

fun state_after :: "connectivity \<Rightarrow> ('ret, 'st) between list \<Rightarrow> connectivity" where
  "state_after st [] = st"
| "state_after st (ThreadTurn answer ok rest # es) = state_after (if ok then answer else st) es"
| "state_after st (StreamEnds key updates status # es) = state_after st es"

fun expected_lines :: "'chan \<Rightarrow> connectivity \<Rightarrow> ('chan \<Rightarrow> format \<Rightarrow> string) \<Rightarrow> command \<Rightarrow> string list" where
  "expected_lines chan st rpc (TimeNow f) = time_lines (if st = Ready then rpc chan f else ''Not connected a server'')"
| "expected_lines chan st rpc ToggleStream = []"
| "expected_lines chan st rpc Usage = display_usage"
| "expected_lines chan st rpc (Unrecognized word) = unrecognized_lines word"

fun expected_output :: "'chan \<Rightarrow> connectivity \<Rightarrow> ('ret, 'st, 'chan) main_input list \<Rightarrow> string list" where
  "expected_output chan st [] = []"
| "expected_output chan st ((es, rpc, input) # inputs) =
     (if input = ''x'' then []
      else expected_lines chan (state_after st es) rpc (command_of input) @ expected_output chan (state_after st es) inputs)"

section \<open>The client during the loop\<close>

definition main_inv :: "'chan \<Rightarrow> connectivity \<Rightarrow> ('chan, 'reader, 'cb) ex_client \<Rightarrow> bool" where
  "main_inv chan st c \<longleftrightarrow> ex_inv c \<and> channel (sd (ex_client_of c)) = Some chan
     \<and> connection_state (sd (ex_client_of c)) = st \<and> follow_thread (ex_client_of c) = Running"

lemma main_inv_turn:
  fixes rest :: "('ret, 'st) stream_rest"
  assumes "main_inv chan st c"
  shows "\<exists>c'. ex_turn answer ok rest c = Inr c' \<and> main_inv chan (if ok then answer else st) c'"
proof -
  let ?d = "sd (ex_client_of c)"
  have inv: "streams_inv ?d" "channel ?d = Some chan" "connection_state ?d = st" "ex_inv c"
    "follow_thread (ex_client_of c) = Running"
    using assms by (auto simp: main_inv_def ex_inv_def client_inv_def)
  with follow_connected [of ?d answer ok rest] obtain ch es d' where
    "follow_body answer ok rest ?d = Inr ((ch, True, es), d')" "channel d' = Some chan"
    "connection_state d' = (if ok then answer else st)" by auto
  then obtain c' where c': "ex_turn answer ok rest c = Inr c'" "channel (sd (ex_client_of c')) = Some chan"
    "connection_state (sd (ex_client_of c')) = (if ok then answer else st)" "follow_thread (ex_client_of c') = Running"
    using inv(5) by (auto simp: ex_turn_def run_turn_def use_shared_simp)
  with ex_inv_turn [OF inv(4,5) c'(1)] show ?thesis by (simp add: main_inv_def)
qed

lemma main_inv_ends: "main_inv chan st c \<Longrightarrow> main_inv chan st (ex_stream_ends key updates status c)"
  using ex_inv_ends [of c key updates status] by (simp add: main_inv_def ex_stream_ends_def with_shared_def)

lemma main_inv_happens:
  "main_inv chan st c \<Longrightarrow> \<exists>c'. happens (es :: ('ret, 'st) between list) c = Inr c' \<and> main_inv chan (state_after st es) c'"
proof (induction es arbitrary: st c)
  case (Cons e es)
  show ?case
  proof (cases e)
    case (ThreadTurn answer ok rest)
    from main_inv_turn [OF Cons.prems, of answer ok rest] obtain c1 where
      c1: "ex_turn answer ok rest c = Inr c1" "main_inv chan (if ok then answer else st) c1" by blast
    with Cons.IH [OF c1(2)] Cons.prems show ?thesis by (simp add: ThreadTurn main_inv_def)
  next
    case (StreamEnds key updates status)
    with Cons.IH [OF main_inv_ends [OF Cons.prems]] show ?thesis by simp
  qed
qed simp

lemma toggle_client:
  "toggle_at_once new f cb1 cb2 c = Inr c' \<Longrightarrow>
     channel (sd (ex_client_of c')) = channel (sd (ex_client_of c))
     \<and> connection_state (sd (ex_client_of c')) = connection_state (sd (ex_client_of c))
     \<and> follow_thread (ex_client_of c') = follow_thread (ex_client_of c)"
  by (auto simp: toggle_at_once_def toggle_begin_def toggle_set_update_def toggle_set_finish_def register_stream_def
      use_shared_simp register_body_def Let_def callback_setter_on_update_def on_stream_update_def
      callback_setter_on_finish_def on_stream_finish_def use_safely_def with_shared_def
      split: option.splits sum.splits toggle_pc.splits if_splits)

lemma main_inv_command:
  assumes inv: "main_inv chan st c" and new: "operator_new new"
  shows "\<exists>c'. run_command rpc new f cb1 cb2 input c = Inr (expected_lines chan st rpc (command_of input), c') \<and> main_inv chan st c'"
proof (cases "command_of input")
  case (TimeNow fm)
  have "stub (sd (ex_client_of c)) = Some chan"
    using inv by (simp add: main_inv_def ex_inv_def client_inv_def streams_inv_def)
  then show ?thesis
    using inv by (simp add: TimeNow run_command_def get_server_time_now_def use_stub_def use_safely_def main_inv_def
        del: command_of.simps)
next
  case ToggleStream
  from ex_inv_toggle [OF _ new, of c f cb1 cb2] inv obtain c' where
    "toggle_at_once new f cb1 cb2 c = Inr c'" "ex_inv c'" by (auto simp: main_inv_def)
  with toggle_client [OF this(1)] inv show ?thesis
    by (simp add: ToggleStream run_command_def main_inv_def del: command_of.simps)
qed (use inv in \<open>simp_all add: run_command_def del: command_of.simps\<close>)

lemma main_loop_prints:
  "main_inv chan st c \<Longrightarrow> operator_new new \<Longrightarrow>
     \<exists>c'. main_loop new f cb1 cb2 (inputs :: ('ret, 'st, 'chan) main_input list) c = Inr (expected_output chan st inputs, c')"
proof (induction inputs arbitrary: st c)
  case (Cons i inputs)
  obtain es rpc input where i: "i = (es, rpc, input)" by (rule prod_cases3)
  from main_inv_happens [OF Cons.prems(1), of es] obtain c1 where
    c1: "happens es c = Inr c1" "main_inv chan (state_after st es) c1" by blast
  from main_inv_command [OF c1(2) Cons.prems(2), of rpc f cb1 cb2 input] obtain c2 where
    c2: "run_command rpc new f cb1 cb2 input c1 = Inr (expected_lines chan (state_after st es) rpc (command_of input), c2)"
    "main_inv chan (state_after st es) c2" by blast
  from Cons.IH [OF c2(2) Cons.prems(2)] c1(1) c2(1) show ?case by (auto simp: i simp del: command_of.simps)
qed simp

section \<open>Properties\<close>


section \<open>Witness\<close>

definition demo_inputs :: "(nat, nat, nat) main_input list" where
  "demo_inputs =
     [([], \<lambda>chan f. ''1h'', ''h''),
      ([ThreadTurn Ready True nothing_left], \<lambda>chan f. ''1h'', ''h''),
      ([], \<lambda>chan f. '''', ''t''),
      ([], \<lambda>chan f. '''', ''q''),
      ([], \<lambda>chan f. '''', ''x''),
      ([], \<lambda>chan f. '''', ''h'')]"


end
