(* ===== verification/Example_Async_Server.thy ===== *)
theory Example_Async_Server
  imports Tag_Table Blocking_Queue Grpc_Server
begin

text \<open>
  The second example's server: \<open>grpcw::server::AsyncServer\<close> (example/src/server/async_server.hpp) with
  the handlers it owns (rpc.hpp, connections.hpp, unary_rpc_handler.hpp, server_stream_rpc_handler.hpp).

  Everything happens on one thread: first the tasks of the initialization queue, until a null task,
  then the loop over the completion queue. A handler is one call: it waits for a client, is answered
  through its writer, and is deleted when the answer has been sent; a copy of it takes its place as soon
  as the client has come. \<open>given\<close> are the tags gRPC holds. The calls made to gRPC and to the user's
  callback are effects.
\<close>

section \<open>Handlers\<close>

datatype rpc_kind = UnaryRpc | ServerStreamRpc

record ('req, 'cb) rpc =
  kind :: rpc_kind
  rpc_request :: 'req
  on_request :: 'cb

datatype ('req, 'resp, 'st, 'cb) rpc_call =
    RegisterRpc ptr ptr
  | OnRequest 'cb 'req ptr
  | Finish ptr "'resp option" 'st ptr
  | Write ptr 'resp ptr

definition make_unique_unary_rpc :: "'req \<Rightarrow> 'cb \<Rightarrow> ('req, 'cb) rpc" where
  "make_unique_unary_rpc request0 cb = \<lparr>kind = UnaryRpc, rpc_request = request0, on_request = cb\<rparr>"

definition make_unique_server_stream_rpc :: "'req \<Rightarrow> 'cb \<Rightarrow> ('req, 'cb) rpc" where
  "make_unique_server_stream_rpc request0 cb = \<lparr>kind = ServerStreamRpc, rpc_request = request0, on_request = cb\<rparr>"

text \<open>\<open>clone\<close> makes a handler with the same functions and a new connection.\<close>

definition clone :: "'req \<Rightarrow> ('req, 'cb) rpc \<Rightarrow> ('req, 'cb) rpc" where
  "clone request0 r = r\<lparr>rpc_request := request0\<rparr>"

definition queue_handler ::
    "(ptr list \<Rightarrow> ptr) \<Rightarrow> ptr \<Rightarrow> tagger \<Rightarrow> tagger \<times> ('req, 'resp, 'st, 'cb) rpc_call" where
  "queue_handler new this t = (let (tag, t') = tagger_make_tag new this ServerNewRpc t in (t', RegisterRpc this tag))"

definition invoke_user_callback :: "ptr \<Rightarrow> ('req, 'cb) rpc \<Rightarrow> ('req, 'resp, 'st, 'cb) rpc_call" where
  "invoke_user_callback this r = OnRequest (on_request r) (rpc_request r) this"

text \<open>
  \<open>finish\<close> and \<open>finish_with_error\<close> take the server's mutex unless they run on its thread, which holds it;
  both branches do the same.
\<close>

definition unary_finish ::
    "(ptr list \<Rightarrow> ptr) \<Rightarrow> ptr \<Rightarrow> 'resp \<Rightarrow> 'st \<Rightarrow> tagger \<Rightarrow> tagger \<times> ('req, 'resp, 'st, 'cb) rpc_call" where
  "unary_finish new this response st t =
     (let (tag, t') = tagger_make_tag new this ServerDone t in (t', Finish this (Some response) st tag))"

definition unary_finish_with_error ::
    "(ptr list \<Rightarrow> ptr) \<Rightarrow> ptr \<Rightarrow> 'st \<Rightarrow> tagger \<Rightarrow> tagger \<times> ('req, 'resp, 'st, 'cb) rpc_call" where
  "unary_finish_with_error new this st t =
     (let (tag, t') = tagger_make_tag new this ServerDone t in (t', Finish this None st tag))"

definition server_stream_write ::
    "(ptr list \<Rightarrow> ptr) \<Rightarrow> ptr \<Rightarrow> 'resp \<Rightarrow> tagger \<Rightarrow> tagger \<times> ('req, 'resp, 'st, 'cb) rpc_call" where
  "server_stream_write new this response t =
     (let (tag, t') = tagger_make_tag new this ServerWriting t in (t', Write this response tag))"

definition server_stream_finish ::
    "(ptr list \<Rightarrow> ptr) \<Rightarrow> ptr \<Rightarrow> 'st \<Rightarrow> tagger \<Rightarrow> tagger \<times> ('req, 'resp, 'st, 'cb) rpc_call" where
  "server_stream_finish new this st t =
     (let (tag, t') = tagger_make_tag new this ServerDone t in (t', Finish this None st tag))"

section \<open>AsyncServer\<close>

datatype 'cb init_task =
    InitServer string
  | PublishServer
  | RegisterUnary 'cb
  | NullTask

datatype server_phase = Initialising | RunningLoop

datatype async_example_error =
    TagThrow tag_error
  | DanglingRpc ptr
  | ClientTagThrow
  | CannotRegister
  | UninitialisedServer

record ('req, 'cb) example_async_server =
  service_ready :: bool
  build_calls :: "unit builder_call list"
  rpcs :: "(ptr, ('req, 'cb) rpc) umap"
  rpc_tagger :: tagger
  given :: "ptr set"
  running :: bool
  initialization_queue :: "'cb init_task blocking_queue"
  published :: bool
  phase :: server_phase

definition new_example_async_server :: "string \<Rightarrow> ('req, 'cb) example_async_server" where
  "new_example_async_server host_address =
     \<lparr>service_ready = False, build_calls = [], rpcs = [], rpc_tagger = \<lparr>tagger_tags = []\<rparr>, given = {}, running = False,
      initialization_queue =
        emplace_back id PublishServer (emplace_back id (InitServer host_address) new_blocking_queue),
      published = False, phase = Initialising\<rparr>"

definition example_register_async ::
    "'cb \<Rightarrow> ('req, 'cb) example_async_server \<Rightarrow> async_example_error + ('req, 'cb) example_async_server" where
  "example_register_async cb s =
     (if running s then Inl CannotRegister
      else Inr (s\<lparr>initialization_queue := emplace_back RegisterUnary cb (initialization_queue s)\<rparr>))"

definition start :: "('req, 'cb) example_async_server \<Rightarrow> ('req, 'cb) example_async_server" where
  "start s = s\<lparr>initialization_queue := emplace_back id NullTask (initialization_queue s), running := True\<rparr>"

definition queue_rpc ::
    "(ptr list \<Rightarrow> ptr) \<Rightarrow> (ptr list \<Rightarrow> ptr) \<Rightarrow> ('req, 'cb) rpc \<Rightarrow> ('req, 'cb) example_async_server
      \<Rightarrow> ('req, 'cb) example_async_server \<times> ('req, 'resp, 'st, 'cb) rpc_call" where
  "queue_rpc new_rpc new_tag r s =
     (let rpc_ptr = new_rpc (um_keys (rpcs s));
          (t, call) = queue_handler new_tag rpc_ptr (rpc_tagger s)
      in (s\<lparr>rpcs := um_emplace rpc_ptr r (rpcs s), rpc_tagger := t,
             given := given s \<union> (case call of RegisterRpc p tag \<Rightarrow> {tag} | _ \<Rightarrow> {})\<rparr>, call))"

definition run_task ::
    "(ptr list \<Rightarrow> ptr) \<Rightarrow> (ptr list \<Rightarrow> ptr) \<Rightarrow> 'req \<Rightarrow> 'cb init_task \<Rightarrow> ('req, 'cb) example_async_server
      \<Rightarrow> async_example_error + (('req, 'cb) example_async_server \<times> ('req, 'resp, 'st, 'cb) rpc_call list)" where
  "run_task new_rpc new_tag request0 task s =
     (case task of
        InitServer host_address \<Rightarrow> Inr (s\<lparr>service_ready := True, build_calls := [RegisterService (), AddListeningPort host_address,
               AddCompletionQueue, BuildAndStart]\<rparr>, [])
      | PublishServer \<Rightarrow> Inr (s\<lparr>published := service_ready s\<rparr>, [])
      | RegisterUnary cb \<Rightarrow>
          (if service_ready s then
             let (s', call) = queue_rpc new_rpc new_tag (make_unique_unary_rpc request0 cb) s in Inr (s', [call])
           else Inl UninitialisedServer)
      | NullTask \<Rightarrow> Inr (s\<lparr>phase := RunningLoop\<rparr>, []))"

text \<open>One turn of the first loop; \<open>None\<close> while the queue is empty or once the loop has ended.\<close>

definition init_turn ::
    "(ptr list \<Rightarrow> ptr) \<Rightarrow> (ptr list \<Rightarrow> ptr) \<Rightarrow> 'req \<Rightarrow> ('req, 'cb) example_async_server
      \<Rightarrow> (async_example_error + (('req, 'cb) example_async_server \<times> ('req, 'resp, 'st, 'cb) rpc_call list)) option" where
  "init_turn new_rpc new_tag request0 s =
     (if phase s \<noteq> Initialising then None
      else case pop_front (initialization_queue s) of
             None \<Rightarrow> None
           | Some (task, q) \<Rightarrow> Some (run_task new_rpc new_tag request0 task (s\<lparr>initialization_queue := q\<rparr>)))"

text \<open>One turn of \<open>run\<close>; gRPC has written the client's request into the handler of a new call.\<close>

definition example_turn ::
    "(ptr list \<Rightarrow> ptr) \<Rightarrow> (ptr list \<Rightarrow> ptr) \<Rightarrow> 'req \<Rightarrow> 'req \<Rightarrow> ptr \<Rightarrow> bool \<Rightarrow> ('req, 'cb) example_async_server
      \<Rightarrow> async_example_error + (('req, 'cb) example_async_server \<times> ('req, 'resp, 'st, 'cb) rpc_call list)" where
  "example_turn new_rpc new_tag request0 r received_tag completed_successfully s =
     (case tagger_get_tag received_tag (rpc_tagger s) of
        Inl e \<Rightarrow> Inl (TagThrow e)
      | Inr (tag, t) \<Rightarrow>
          (let s1 = s\<lparr>rpc_tagger := t, given := given s - {received_tag}\<rparr>
           in if completed_successfully then
                (case ex_label tag of
                   ServerNewRpc \<Rightarrow>
                     (case map_of (rpcs s1) (ex_data tag) of
                        None \<Rightarrow> Inl (DanglingRpc (ex_data tag))
                      | Some h \<Rightarrow>
                          (let (s2, call) = queue_rpc new_rpc new_tag (clone request0 h) s1
                           in Inr (s2\<lparr>rpcs := um_adjust (rpc_request_update (\<lambda>_. r)) (ex_data tag) (rpcs s2)\<rparr>,
                                   [call, invoke_user_callback (ex_data tag) (h\<lparr>rpc_request := r\<rparr>)])))
                 | ServerWriting \<Rightarrow> Inr (s1, [])
                 | ServerDone \<Rightarrow> Inr (s1\<lparr>rpcs := um_erase (ex_data tag) (rpcs s1)\<rparr>, [])
                 | ClientConnectionChange \<Rightarrow> Inl ClientTagThrow
                 | ClientFinished \<Rightarrow> Inl ClientTagThrow)
              else Inr (s1\<lparr>rpcs := um_erase (ex_data tag) (rpcs s1)\<rparr>, [])))"

text \<open>The user's call of \<open>finish\<close> or \<open>finish_with_error\<close> on a writer, which is the handler itself.\<close>

definition answer_call ::
    "(ptr list \<Rightarrow> ptr) \<Rightarrow> ptr \<Rightarrow> 'resp option \<Rightarrow> 'st \<Rightarrow> ('req, 'cb) example_async_server
      \<Rightarrow> async_example_error + (('req, 'cb) example_async_server \<times> ('req, 'resp, 'st, 'cb) rpc_call)" where
  "answer_call new_tag writer response st s =
     (if writer \<notin> set (um_keys (rpcs s)) then Inl (DanglingRpc writer)
      else
        (let (t, call) = (case response of
                            Some resp \<Rightarrow> unary_finish new_tag writer resp st (rpc_tagger s)
                          | None \<Rightarrow> unary_finish_with_error new_tag writer st (rpc_tagger s))
         in Inr (s\<lparr>rpc_tagger := t, given := given s \<union> (case call of Finish p x y tag \<Rightarrow> {tag} | _ \<Rightarrow> {})\<rparr>, call)))"

text \<open>
  The destructor uses the published pointers, which nothing sets before the second task has run, and
  joins the thread, which only ends its second loop: \<open>None\<close> while the first one waits for tasks.
\<close>

definition destroy_example_async_server ::
    "('req, 'cb) example_async_server \<Rightarrow> (async_example_error + unit) option" where
  "destroy_example_async_server s =
     (if \<not> published s then Some (Inl UninitialisedServer)
      else if phase s = Initialising then None
      else Some (Inr ()))"

section \<open>Reachable servers\<close>

text \<open>\<open>open_calls\<close>: the handlers whose client has come and which the user has not answered yet.\<close>

fun opened :: "('req, 'resp, 'st, 'cb) rpc_call list \<Rightarrow> ptr list" where
  "opened [] = []"
| "opened (OnRequest cb r p # cs) = p # opened cs"
| "opened (c # cs) = opened cs"

inductive example_reachable ::
    "('req, 'cb) example_async_server \<Rightarrow> ptr list \<Rightarrow> ('req, 'resp, 'st, 'cb) rpc_call list \<Rightarrow> bool" where
  example_init: "example_reachable (new_example_async_server host_address) [] []"
| example_registers: "example_reachable s open_calls tr \<Longrightarrow> example_register_async cb s = Inr s' \<Longrightarrow>
    example_reachable s' open_calls tr"
| example_starts: "example_reachable s open_calls tr \<Longrightarrow> example_reachable (start s) open_calls tr"
| example_init_turn: "example_reachable s open_calls tr \<Longrightarrow> operator_new new_rpc \<Longrightarrow> operator_new new_tag \<Longrightarrow>
    init_turn new_rpc new_tag request0 s = Some (Inr (s', cs)) \<Longrightarrow> example_reachable s' open_calls (tr @ cs)"
| example_run_turn: "example_reachable s open_calls tr \<Longrightarrow> operator_new new_rpc \<Longrightarrow> operator_new new_tag \<Longrightarrow>
    t \<in> given s \<Longrightarrow> example_turn new_rpc new_tag request0 r t ok s = Inr (s', cs) \<Longrightarrow>
    example_reachable s' (open_calls @ opened cs) (tr @ cs)"
| example_answers: "example_reachable s open_calls tr \<Longrightarrow> operator_new new_tag \<Longrightarrow> p \<in> set open_calls \<Longrightarrow>
    answer_call new_tag p response st s = Inr (s', call) \<Longrightarrow> example_reachable s' (remove1 p open_calls) (tr @ [call])"

abbreviation tags_of :: "('req, 'cb) example_async_server \<Rightarrow> example_tags" where
  "tags_of s \<equiv> tagger_tags (rpc_tagger s)"

text \<open>Every handler is in exactly one place: it waits for a client, is open, or is being finished.\<close>

definition tagged :: "example_tags \<Rightarrow> ptr list" where
  "tagged ts = map (ex_data \<circ> snd) ts"

lemma tagged_simps [simp]:
  "tagged [] = []" "tagged (x # ts) = ex_data (snd x) # tagged ts" "tagged (ts @ us) = tagged ts @ tagged us"
  by (simp_all add: tagged_def)

definition example_inv :: "('req, 'cb) example_async_server \<Rightarrow> ptr list \<Rightarrow> bool" where
  "example_inv s open_calls \<longleftrightarrow> um_ok (rpcs s) \<and> um_ok (tags_of s) \<and> given s = set (um_keys (tags_of s))
     \<and> distinct (tagged (tags_of s) @ open_calls) \<and> set (tagged (tags_of s) @ open_calls) = set (um_keys (rpcs s))
     \<and> (\<forall>tag \<in> snd ` set (tags_of s). ex_label tag \<in> {ServerNewRpc, ServerDone})"

lemma tagger_make_tag_fresh:
  assumes "operator_new new" and "tagger_make_tag new d l t = (p, t')"
  shows "tagger_tags t' = tagger_tags t @ [(p, mk_example_Tag d l)] \<and> p \<notin> set (um_keys (tagger_tags t))"
  using assms operator_newD [OF assms(1), of "um_keys (tagger_tags t)"]
  by (auto simp: tagger_make_tag_def example_make_tag_def Let_def um_emplace_fresh split: prod.splits)

lemma queue_rpc_fields:
  fixes call :: "('req, 'resp, 'st, 'cb) rpc_call"
  assumes "operator_new new_rpc" and "operator_new new_tag" and "queue_rpc new_rpc new_tag h s = (s', call)"
  shows "\<exists>p tag. p \<notin> set (um_keys (rpcs s)) \<and> tag \<notin> set (um_keys (tags_of s)) \<and> call = RegisterRpc p tag
     \<and> rpcs s' = rpcs s @ [(p, h)] \<and> tags_of s' = tags_of s @ [(tag, mk_example_Tag p ServerNewRpc)]
     \<and> given s' = insert tag (given s)"
proof -
  let ?p = "new_rpc (um_keys (rpcs s))"
  obtain tag t where t: "tagger_make_tag new_tag ?p ServerNewRpc (rpc_tagger s) = (tag, t)" by (rule prod.exhaust)
  have "?p \<notin> set (um_keys (rpcs s))" using operator_newD [OF assms(1)] by simp
  with tagger_make_tag_fresh [OF assms(2) t] assms(3) t show ?thesis
    by (auto simp: queue_rpc_def queue_handler_def um_emplace_fresh Let_def)
qed

lemma example_inv_queue:
  fixes call :: "('req, 'resp, 'st, 'cb) rpc_call"
  assumes "example_inv s open_calls" and "operator_new new_rpc" and "operator_new new_tag"
    and "queue_rpc new_rpc new_tag h s = (s', call)"
  shows "example_inv s' open_calls"
  using queue_rpc_fields [OF assms(2-4)] assms(1)
  by (auto simp: example_inv_def um_ok_def mk_example_Tag_def)

lemma example_inv_init:
  fixes cs :: "('req, 'resp, 'st, 'cb) rpc_call list"
  assumes "example_inv s open_calls" and "operator_new new_rpc" and "operator_new new_tag"
    and "run_task new_rpc new_tag request0 task s = Inr (s', cs)"
  shows "example_inv s' open_calls"
proof (cases task)
  case (RegisterUnary cb)
  then obtain call :: "('req, 'resp, 'st, 'cb) rpc_call" where
    "queue_rpc new_rpc new_tag (make_unique_unary_rpc request0 cb) s = (s', call)"
    using assms(4) by (auto simp: run_task_def split: if_splits prod.splits)
  from example_inv_queue [OF assms(1-3) this] show ?thesis .
qed (use assms in \<open>auto simp: run_task_def example_inv_def\<close>)

text \<open>Taking a tag out of the table leaves its handler to the caller; erasing it settles the account.\<close>

lemma example_inv_take:
  assumes "example_inv s open_calls" and "map_of (tags_of s) t = Some tag" and "tagger_tags tg = um_erase t (tags_of s)"
  shows "example_inv (s\<lparr>rpc_tagger := tg, given := given s - {t}\<rparr>) (open_calls @ [ex_data tag])"
proof -
  have ok: "um_ok (tags_of s)" using assms(1) by (simp add: example_inv_def)
  from um_erase_split [OF ok assms(2)] obtain xs ys where
    "tags_of s = xs @ (t, tag) # ys" "um_erase t (tags_of s) = xs @ ys" by blast
  with assms(1,3) show ?thesis by (auto simp: example_inv_def um_ok_def)
qed

lemma example_inv_erase:
  "example_inv s (open_calls @ [p]) \<Longrightarrow> example_inv (s\<lparr>rpcs := um_erase p (rpcs s)\<rparr>) open_calls"
  by (auto simp: example_inv_def um_keys_erase)

lemma tagger_get_tag_Some:
  "map_of (tagger_tags t) k = Some tag \<Longrightarrow> tagger_get_tag k t = Inr (tag, t\<lparr>tagger_tags := um_erase k (tagger_tags t)\<rparr>)"
  by (simp add: tagger_get_tag_def example_get_tag_def)

lemma example_turn_ok:
  fixes s :: "('req, 'cb) example_async_server"
  assumes inv: "example_inv s open_calls" and new: "operator_new new_rpc" "operator_new new_tag" and t: "t \<in> given s"
  shows "\<exists>s' (cs :: ('req, 'resp, 'st, 'cb) rpc_call list).
     example_turn new_rpc new_tag request0 r t ok s = Inr (s', cs) \<and> example_inv s' (open_calls @ opened cs)"
proof -
  from inv t obtain tag where tag: "map_of (tags_of s) t = Some tag" by (auto simp: example_inv_def in_um_keys_map_of)
  define tg where "tg = rpc_tagger s\<lparr>tagger_tags := um_erase t (tags_of s)\<rparr>"
  define s1 where "s1 = s\<lparr>rpc_tagger := tg, given := given s - {t}\<rparr>"
  have get: "tagger_get_tag t (rpc_tagger s) = Inr (tag, tg)" using tagger_get_tag_Some [OF tag] by (simp add: tg_def)
  have inv1: "example_inv s1 (open_calls @ [ex_data tag])"
    unfolding s1_def by (rule example_inv_take [OF inv tag]) (simp add: tg_def)
  then have "ex_data tag \<in> set (um_keys (rpcs s1))" by (auto simp: example_inv_def)
  then obtain h where h: "map_of (rpcs s1) (ex_data tag) = Some h" by (auto simp: in_um_keys_map_of)
  have label: "ex_label tag \<in> {ServerNewRpc, ServerDone}"
    using inv map_of_SomeD [OF tag] by (force simp: example_inv_def)
  show ?thesis
  proof (cases "ok \<and> ex_label tag = ServerNewRpc")
    case True
    obtain s2 and call :: "('req, 'resp, 'st, 'cb) rpc_call" where
      q: "queue_rpc new_rpc new_tag (clone request0 h) s1 = (s2, call)" by (rule prod.exhaust)
    from queue_rpc_fields [OF new q] obtain p' tag' where "call = RegisterRpc p' tag'" by blast
    moreover have "example_inv (s2\<lparr>rpcs := um_adjust (rpc_request_update (\<lambda>_. r)) (ex_data tag) (rpcs s2)\<rparr>)
        (open_calls @ [ex_data tag])"
      using example_inv_queue [OF inv1 new q] by (simp add: example_inv_def um_ok_def)
    moreover have "map_of (rpcs s) (ex_data tag) = Some h" using h by (simp add: s1_def)
    ultimately show ?thesis using True get q
      by (auto simp: example_turn_def s1_def invoke_user_callback_def Let_def)
  next
    case False
    with label get have "example_turn new_rpc new_tag request0 r t ok s
        = Inr (s1\<lparr>rpcs := um_erase (ex_data tag) (rpcs s1)\<rparr>, [] :: ('req, 'resp, 'st, 'cb) rpc_call list)"
      by (auto simp: example_turn_def s1_def Let_def)
    with example_inv_erase [OF inv1] show ?thesis by simp
  qed
qed

lemma example_answer_ok:
  fixes s :: "('req, 'cb) example_async_server"
  assumes inv: "example_inv s open_calls" and new: "operator_new new_tag" and p: "p \<in> set open_calls"
  shows "\<exists>s' tag. answer_call new_tag p response st s = Inr (s', Finish p response st tag :: ('req, 'resp, 'st, 'cb) rpc_call)
     \<and> example_inv s' (remove1 p open_calls)"
proof -
  obtain tag t' where t': "tagger_make_tag new_tag p ServerDone (rpc_tagger s) = (tag, t')" by (rule prod.exhaust)
  note tg = tagger_make_tag_fresh [OF new t']
  from p inv have "p \<in> set (um_keys (rpcs s))" by (auto simp: example_inv_def)
  then have "answer_call new_tag p response st s =
      Inr (s\<lparr>rpc_tagger := t', given := given s \<union> {tag}\<rparr>, Finish p response st tag :: ('req, 'resp, 'st, 'cb) rpc_call)"
    using t' by (cases response) (simp_all add: answer_call_def unary_finish_def unary_finish_with_error_def)
  moreover have "example_inv (s\<lparr>rpc_tagger := t', given := given s \<union> {tag}\<rparr>) (remove1 p open_calls)"
    using inv tg p by (auto simp: example_inv_def um_ok_def mk_example_Tag_def)
  ultimately show ?thesis by blast
qed

lemma example_reachable_inv:
  fixes s :: "('req, 'cb) example_async_server" and tr :: "('req, 'resp, 'st, 'cb) rpc_call list"
  shows "example_reachable s open_calls tr \<Longrightarrow> example_inv s open_calls"
proof (induction rule: example_reachable.induct)
  case (example_init host_address)
  show ?case by (simp add: example_inv_def new_example_async_server_def)
next
  case (example_init_turn s open_calls tr new_rpc new_tag request0 s' cs)
  then obtain task q where
    task: "run_task new_rpc new_tag request0 task (s\<lparr>initialization_queue := q\<rparr>) = Inr (s', cs)"
    by (auto simp: init_turn_def split: if_splits option.splits)
  have "example_inv (s\<lparr>initialization_queue := q\<rparr>) open_calls"
    using example_init_turn.IH by (simp add: example_inv_def)
  from example_inv_init [OF this example_init_turn.hyps(2,3) task] show ?case .
next
  case (example_run_turn s open_calls tr new_rpc new_tag t request0 r ok s' cs)
  then show ?case using example_turn_ok [where 'resp = 'resp and 'st = 'st, of s open_calls new_rpc new_tag t request0 r ok] by auto
next
  case (example_answers s open_calls tr new_tag p response st s' call)
  then show ?case using example_answer_ok [where 'resp = 'resp and 'st = 'st, of s open_calls new_tag p response st] by auto
qed (auto simp: example_inv_def example_register_async_def start_def split: if_splits)

section \<open>Properties\<close>

definition listening :: "'cb \<Rightarrow> ('req, 'cb) example_async_server \<Rightarrow> ptr list" where
  "listening cb s = map (ex_data \<circ> snd)
     (filter (\<lambda>(k, tag). ex_label tag = ServerNewRpc \<and> map_option on_request (map_of (rpcs s) (ex_data tag)) = Some cb) (tags_of s))"

text \<open>
  As long as the user answers a call at most once and only after its callback, the loop of
  the example server never fails: every tag gRPC returns is in the table, belongs to the server and not
  to a client, and names a handler that still exists; and the writer given to the callback stays valid
  until the answer is sent.
\<close>

theorem example_server_never_dangles:
  fixes s :: "('req, 'cb) example_async_server" and tr :: "('req, 'resp, 'st, 'cb) rpc_call list"
  assumes "example_reachable s open_calls tr" and "operator_new new_rpc" and "operator_new new_tag"
  shows "(t \<in> given s \<longrightarrow> (\<exists>s' (cs :: ('req, 'resp, 'st, 'cb) rpc_call list).
        example_turn new_rpc new_tag request0 r t ok s = Inr (s', cs)))
     \<and> (p \<in> set open_calls \<longrightarrow> (\<exists>s' tag. answer_call new_tag p response st s
        = Inr (s', Finish p response st tag :: ('req, 'resp, 'st, 'cb) rpc_call)))"
proof -
  note inv = example_reachable_inv [OF assms(1)]
  show ?thesis
    using example_turn_ok [OF inv assms(2,3), where 'resp = 'resp and 'st = 'st, of t request0 r ok]
      example_answer_ok [OF inv assms(3), of p response st] by blast
qed

text \<open>
  The server leaks no handler: the handlers it owns are exactly those that wait for a client,
  those whose call is open, and those whose answer is on its way, each in one of these places once. When
  nothing is open and gRPC holds no tag, none is left.
\<close>

theorem example_server_no_leak:
  assumes "example_reachable s open_calls tr"
  shows "set (um_keys (rpcs s)) = set (tagged (tags_of s)) \<union> set open_calls
     \<and> distinct (tagged (tags_of s) @ open_calls) \<and> distinct (um_keys (rpcs s))
     \<and> (open_calls = [] \<and> given s = {} \<longrightarrow> rpcs s = [])"
proof -
  have inv: "example_inv s open_calls" by (rule example_reachable_inv [OF assms])
  moreover have "rpcs s = []" if "open_calls = []" "given s = {}"
  proof -
    from that inv have "tags_of s = []" by (simp add: example_inv_def um_keys_def)
    with that inv show ?thesis by (simp add: example_inv_def um_keys_def)
  qed
  ultimately show ?thesis by (auto simp: example_inv_def um_ok_def)
qed

text \<open>
  A method keeps listening: when a client's call comes in, the callback is run on its request,
  and a copy of the handler with the same callback is registered in the same turn, under a new address.
\<close>

theorem example_server_keeps_listening:
  fixes s :: "('req, 'cb) example_async_server" and tr :: "('req, 'resp, 'st, 'cb) rpc_call list"
  assumes "example_reachable s open_calls tr" and "operator_new new_rpc" and "operator_new new_tag"
    and "map_of (tags_of s) t = Some (mk_example_Tag p ServerNewRpc)" and "map_of (rpcs s) p = Some h"
  shows "\<exists>s' q tag. example_turn new_rpc new_tag request0 r t True s
       = Inr (s', [RegisterRpc q tag, OnRequest (on_request h) r p :: ('req, 'resp, 'st, 'cb) rpc_call])
     \<and> q \<noteq> p \<and> q \<in> set (listening (on_request h) s')"
proof -
  define s1 where "s1 = s\<lparr>rpc_tagger := rpc_tagger s\<lparr>tagger_tags := um_erase t (tags_of s)\<rparr>, given := given s - {t}\<rparr>"
  obtain s2 and call :: "('req, 'resp, 'st, 'cb) rpc_call" where
    q: "queue_rpc new_rpc new_tag (clone request0 h) s1 = (s2, call)" by (rule prod.exhaust)
  from queue_rpc_fields [OF assms(2,3) q] obtain p' tag' where
    f: "p' \<notin> set (um_keys (rpcs s1))" "call = RegisterRpc p' tag'" "rpcs s2 = rpcs s1 @ [(p', clone request0 h)]"
      "tags_of s2 = tags_of s1 @ [(tag', mk_example_Tag p' ServerNewRpc)]"
    by blast
  have p: "p \<in> set (um_keys (rpcs s1))" using assms(5) by (auto simp: s1_def dest: map_of_Some_um_keys)
  let ?s = "s2\<lparr>rpcs := um_adjust (rpc_request_update (\<lambda>_. r)) p (rpcs s2)\<rparr>"
  have "p' \<in> set (listening (on_request h) ?s)"
    using f p by (auto simp: listening_def mk_example_Tag_def map_of_um_adjust map_of_append
        map_add_def clone_def image_iff map_of_None_um_keys split: option.splits dest: map_of_Some_um_keys)
  moreover have "example_turn new_rpc new_tag request0 r t True s = Inr (?s, [call, OnRequest (on_request h) r p])"
    using q assms(4,5) by (simp add: example_turn_def tagger_get_tag_Some mk_example_Tag_def s1_def invoke_user_callback_def)
  ultimately show ?thesis using f p by auto
qed

text \<open>
  A server that is destroyed without \<open>start\<close> having been called never finishes its destructor:
  once its two first tasks have run, the thread waits in the first loop for a null task, and the
  destructor waits for the thread.
\<close>

theorem example_server_destructor_hangs_without_start:
  assumes "init_turn new_rpc new_tag request0 (new_example_async_server host_address) = Some (Inr (s1, cs1))"
    and "init_turn new_rpc new_tag request0 s1 = Some (Inr (s2, cs2))"
  shows "init_turn new_rpc new_tag request0 s2 = None \<and> destroy_example_async_server s2 = None
     \<and> destroy_example_async_server (new_example_async_server host_address :: ('req, 'cb) example_async_server)
       = Some (Inl UninitialisedServer)"
  using assms
  by (auto simp: init_turn_def new_example_async_server_def emplace_back_def new_blocking_queue_def pop_front_def
      run_task_def destroy_example_async_server_def)

section \<open>Witnesses\<close>

definition demo_server :: "(nat, nat) example_async_server" where
  "demo_server = \<lparr>service_ready = True,
     build_calls = [RegisterService (), AddListeningPort ''h:1'', AddCompletionQueue, BuildAndStart],
     rpcs = [(1, \<lparr>kind = UnaryRpc, rpc_request = 0, on_request = 5\<rparr>)],
     rpc_tagger = \<lparr>tagger_tags = [(1, mk_example_Tag 1 ServerNewRpc)]\<rparr>, given = {1}, running = True,
     initialization_queue = \<lparr>queue = []\<rparr>, published = True, phase = RunningLoop\<rparr>"

lemmas example_eval = new_example_async_server_def example_register_async_def start_def init_turn_def run_task_def
  emplace_back_def new_blocking_queue_def pop_front_def queue_rpc_def queue_handler_def tagger_make_tag_def
  example_make_tag_def make_unique_unary_rpc_def um_emplace_def bump_new_def demo_server_def Let_def

lemma demo_server_reachable: "example_reachable demo_server [] [RegisterRpc 1 1 :: (nat, nat, nat, nat) rpc_call]"
proof -
  let ?s0 = "new_example_async_server ''h:1'' :: (nat, nat) example_async_server"
  let ?turn = "\<lambda>s. init_turn bump_new bump_new 0 s :: (_ + (_ \<times> (nat, nat, nat, nat) rpc_call list)) option"
  obtain s1 where s1: "example_register_async 5 ?s0 = Inr s1" by (simp add: example_eval)
  obtain s3 where s3: "?turn (start s1) = Some (Inr (s3, []))"
    using s1 by (auto simp: example_eval)
  obtain s4 where s4: "?turn s3 = Some (Inr (s4, []))" using s3 s1 by (auto simp: example_eval)
  obtain s5 where s5: "?turn s4 = Some (Inr (s5, [RegisterRpc 1 1]))" using s4 s3 s1 by (auto simp: example_eval)
  have s6: "?turn s5 = Some (Inr (demo_server, []))" using s5 s4 s3 s1 by (auto simp: example_eval)
  have "example_reachable (start s1) [] ([] :: (nat, nat, nat, nat) rpc_call list)"
    by (rule example_starts [OF example_registers [OF example_init s1]])
  from example_init_turn [OF this operator_new_bump operator_new_bump s3]
  have "example_reachable s3 [] ([] :: (nat, nat, nat, nat) rpc_call list)" by simp
  from example_init_turn [OF this operator_new_bump operator_new_bump s4]
  have "example_reachable s4 [] ([] :: (nat, nat, nat, nat) rpc_call list)" by simp
  from example_init_turn [OF this operator_new_bump operator_new_bump s5]
  have "example_reachable s5 [] [RegisterRpc 1 1 :: (nat, nat, nat, nat) rpc_call]" by simp
  from example_init_turn [OF this operator_new_bump operator_new_bump s6] show ?thesis by simp
qed

theorem example_server_never_dangles_witness:
  "\<exists>s' (cs :: (nat, nat, nat, nat) rpc_call list). example_turn bump_new bump_new 0 7 1 True demo_server = Inr (s', cs)"
  using example_server_never_dangles [OF demo_server_reachable operator_new_bump operator_new_bump, of 1 0 7 True]
  by (simp add: demo_server_def)

theorem example_server_no_leak_witness:
  "set (um_keys (rpcs demo_server)) = {1} \<and> distinct (tagged (tags_of demo_server))"
  using example_server_no_leak [OF demo_server_reachable] by (simp add: demo_server_def mk_example_Tag_def)

theorem example_server_keeps_listening_witness:
  "\<exists>s' q tag. example_turn bump_new bump_new 0 7 1 True demo_server
       = Inr (s', [RegisterRpc q tag, OnRequest 5 7 1 :: (nat, nat, nat, nat) rpc_call]) \<and> q \<in> set (listening 5 s')"
  using example_server_keeps_listening [OF demo_server_reachable operator_new_bump operator_new_bump, of 1 1 _ 0 7]
  by (auto simp: demo_server_def)

theorem example_server_destructor_hangs_without_start_witness:
  "\<exists>s1 s2. init_turn bump_new bump_new 0 (new_example_async_server ''h:1'' :: (nat, nat) example_async_server)
       = Some (Inr (s1, [] :: (nat, nat, nat, nat) rpc_call list))
     \<and> init_turn bump_new bump_new 0 s1 = Some (Inr (s2, [] :: (nat, nat, nat, nat) rpc_call list))
     \<and> destroy_example_async_server s2 = None"
proof -
  obtain s1 where s1: "init_turn bump_new bump_new 0 (new_example_async_server ''h:1'' :: (nat, nat) example_async_server)
       = Some (Inr (s1, [] :: (nat, nat, nat, nat) rpc_call list))" by (simp add: example_eval)
  obtain s2 where s2: "init_turn bump_new bump_new 0 s1 = Some (Inr (s2, [] :: (nat, nat, nat, nat) rpc_call list))"
    using s1 by (auto simp: example_eval)
  from example_server_destructor_hangs_without_start [OF s1 s2] s1 s2 show ?thesis by blast
qed

end
