(* ===== verification/Example_Arch_Server.thy ===== *)
theory Example_Arch_Server
  imports Example_Async_Server Example_Clock
begin

text \<open>
  The second server program (example/src/server/new_arch_server.cpp): \<open>main\<close> constructs an
  \<open>AsyncServer\<close>, registers one unary method whose callback answers with \<open>time_since\<close>, and starts the
  server. The callback captures the time at which the program started, so that time is what stands for
  the callback in the server's handlers. It runs on the server's thread, inside the turn of the loop, and
  answers there and then through the writer.
\<close>

section \<open>The program\<close>

type_synonym arch_server = "(format, int) example_async_server"

type_synonym arch_call = "(format, string, status, int) rpc_call"

definition new_arch_server_main :: "string list \<Rightarrow> int \<Rightarrow> async_example_error + arch_server" where
  "new_arch_server_main argv server_start_time =
     map_sum id start
       (example_register_async server_start_time (new_example_async_server (host_address_of argv)))"

text \<open>The lambda given to \<open>register_async\<close>.\<close>

definition time_callback ::
    "(ptr list \<Rightarrow> ptr) \<Rightarrow> int \<Rightarrow> int \<Rightarrow> format \<Rightarrow> ptr \<Rightarrow> arch_server \<Rightarrow> async_example_error + (arch_server \<times> arch_call)" where
  "time_callback new_tag now server_start_time request writer s =
     (case time_since now server_start_time request of
        (status, time) \<Rightarrow> answer_call new_tag writer (Some time) status s)"

text \<open>What a turn of the loop does when it calls the callback.\<close>

fun run_callbacks ::
    "(ptr list \<Rightarrow> ptr) \<Rightarrow> int \<Rightarrow> arch_call list \<Rightarrow> arch_server \<Rightarrow> async_example_error + (arch_server \<times> arch_call list)" where
  "run_callbacks new_tag now [] s = Inr (s, [])"
| "run_callbacks new_tag now (OnRequest cb request p # cs) s =
     (case time_callback new_tag now cb request p s of
        Inl e \<Rightarrow> Inl e
      | Inr (s1, call) \<Rightarrow>
          map_sum id (\<lambda>(s2, ds). (s2, OnRequest cb request p # call # ds)) (run_callbacks new_tag now cs s1))"
| "run_callbacks new_tag now (c # cs) s = map_sum id (\<lambda>(s1, ds). (s1, c # ds)) (run_callbacks new_tag now cs s)"

text \<open>A new request has the first format of the enumeration, as gRPC makes it, until the client's is read.\<close>

definition arch_turn ::
    "(ptr list \<Rightarrow> ptr) \<Rightarrow> (ptr list \<Rightarrow> ptr) \<Rightarrow> int \<Rightarrow> format \<Rightarrow> ptr \<Rightarrow> bool \<Rightarrow> arch_server
      \<Rightarrow> async_example_error + (arch_server \<times> arch_call list)" where
  "arch_turn new_rpc new_tag now request t ok s =
     (case example_turn new_rpc new_tag COMPOUND request t ok s of
        Inl e \<Rightarrow> Inl e
      | Inr (s1, cs) \<Rightarrow> run_callbacks new_tag now cs s1)"

text \<open>The thread's first loop, for as long as it finds a task, at most \<open>n\<close> turns.\<close>

fun init_loop ::
    "(ptr list \<Rightarrow> ptr) \<Rightarrow> (ptr list \<Rightarrow> ptr) \<Rightarrow> nat \<Rightarrow> arch_server
      \<Rightarrow> async_example_error + (arch_server \<times> arch_call list)" where
  "init_loop new_rpc new_tag 0 s = Inr (s, [])"
| "init_loop new_rpc new_tag (Suc n) s =
     (case init_turn new_rpc new_tag COMPOUND s of
        None \<Rightarrow> Inr (s, [])
      | Some (Inl e) \<Rightarrow> Inl e
      | Some (Inr (s1, cs)) \<Rightarrow> map_sum id (\<lambda>(s2, ds). (s2, cs @ ds)) (init_loop new_rpc new_tag n s1))"

text \<open>The four tasks are all the queue ever holds.\<close>

inductive arch_reachable :: "int \<Rightarrow> arch_server \<Rightarrow> arch_call list \<Rightarrow> bool" for server_start_time where
  arch_init: "new_arch_server_main argv server_start_time = Inr s0 \<Longrightarrow> operator_new new_rpc \<Longrightarrow> operator_new new_tag \<Longrightarrow>
    init_loop new_rpc new_tag 4 s0 = Inr (s, cs) \<Longrightarrow> arch_reachable server_start_time s cs"
| arch_next: "arch_reachable server_start_time s tr \<Longrightarrow> operator_new new_rpc \<Longrightarrow> operator_new new_tag \<Longrightarrow> t \<in> given s \<Longrightarrow>
    arch_turn new_rpc new_tag now request t ok s = Inr (s', cs) \<Longrightarrow> arch_reachable server_start_time s' (tr @ cs)"

section \<open>Invariant\<close>

lemma example_turn_server:
  "example_turn new_rpc new_tag request0 r t ok s = Inr (s', cs) \<Longrightarrow> published s' = published s \<and> phase s' = phase s"
  by (auto simp: example_turn_def queue_rpc_def Let_def split: sum.splits prod.splits if_splits example_label.splits
      option.splits)

text \<open>The callbacks in a table of handlers, and how the operations of the turn change them.\<close>

definition callbacks_of :: "(ptr, ('req, 'cb) rpc) umap \<Rightarrow> 'cb set" where
  "callbacks_of m = set (map (\<lambda>x. on_request (snd x)) m)"

lemma callbacks_of_steps:
  "callbacks_of (um_erase p m) \<subseteq> callbacks_of m"
  "callbacks_of (um_adjust (rpc_request_update f) p m) = callbacks_of m"
  "callbacks_of (um_emplace p h m) \<subseteq> insert (on_request h) (callbacks_of m)"
  "map_of m p = Some h \<Longrightarrow> on_request h \<in> callbacks_of m"
proof -
  show "callbacks_of (um_erase p m) \<subseteq> callbacks_of m" by (force simp: um_erase_def callbacks_of_def)
  have "map (\<lambda>x. on_request (snd x)) (um_adjust (rpc_request_update f) p m) = map (\<lambda>x. on_request (snd x)) m"
    by (auto simp: um_adjust_def)
  then show "callbacks_of (um_adjust (rpc_request_update f) p m) = callbacks_of m" unfolding callbacks_of_def by (rule arg_cong)
  show "callbacks_of (um_emplace p h m) \<subseteq> insert (on_request h) (callbacks_of m)"
    by (auto simp: um_emplace_def callbacks_of_def)
  show "map_of m p = Some h \<Longrightarrow> on_request h \<in> callbacks_of m" by (force simp: callbacks_of_def dest: map_of_SomeD)
qed

lemma queue_rpc_callbacks:
  "queue_rpc new_rpc new_tag h s = (s', call) \<Longrightarrow> callbacks_of (rpcs s') \<subseteq> insert (on_request h) (callbacks_of (rpcs s))"
  by (auto simp: queue_rpc_def Let_def dest: subsetD [OF callbacks_of_steps(3)] split: prod.splits)

lemma example_turn_callbacks:
  fixes s :: "('req, 'cb) example_async_server" and cs :: "('req, 'resp, 'st, 'cb) rpc_call list"
  assumes "example_turn new_rpc new_tag request0 r t ok s = Inr (s', cs)"
  shows "callbacks_of (rpcs s') \<subseteq> callbacks_of (rpcs s)"
proof -
  obtain tag tg where get: "tagger_get_tag t (rpc_tagger s) = Inr (tag, tg)"
    using assms by (auto simp: example_turn_def split: sum.splits)
  let ?s1 = "s\<lparr>rpc_tagger := tg, given := given s - {t}\<rparr>"
  show ?thesis
  proof (cases "ok \<and> ex_label tag = ServerNewRpc")
    case True
    with assms get obtain h s2 and call :: "('req, 'resp, 'st, 'cb) rpc_call" where q: "map_of (rpcs s) (ex_data tag) = Some h"
      "queue_rpc new_rpc new_tag (clone request0 h) ?s1 = (s2, call)"
      "s' = s2\<lparr>rpcs := um_adjust (rpc_request_update (\<lambda>_. r)) (ex_data tag) (rpcs s2)\<rparr>"
      by (auto simp: example_turn_def Let_def split: option.splits prod.splits)
    moreover note callbacks_of_steps(4) [OF q(1)]
    ultimately show ?thesis
      using queue_rpc_callbacks [OF q(2)] by (auto simp: callbacks_of_steps clone_def)
  next
    case False
    with assms get have "rpcs s' = rpcs s \<or> rpcs s' = um_erase (ex_data tag) (rpcs s)"
      by (cases "ex_label tag") (auto simp: example_turn_def Let_def split: if_splits)
    then show ?thesis using callbacks_of_steps(1) [of "ex_data tag" "rpcs s"] by auto
  qed
qed

lemma answer_call_server:
  "answer_call new_tag p response st s = Inr (s', call) \<Longrightarrow>
     published s' = published s \<and> phase s' = phase s \<and> rpcs s' = rpcs s"
  by (auto simp: answer_call_def split: if_splits prod.splits option.splits)

lemma answer_call_tags:
  assumes "answer_call new_tag p (Some response) st s = Inr (s', call)" and "operator_new new_tag"
    and "map_of (tags_of s) k = Some x"
  shows "map_of (tags_of s') k = Some x"
proof -
  obtain tag t where t: "tagger_make_tag new_tag p ServerDone (rpc_tagger s) = (tag, t)" by (rule prod.exhaust)
  with assms tagger_make_tag_fresh [OF assms(2) t] show ?thesis
    by (auto simp: answer_call_def unary_finish_def map_add_def split: if_splits)
qed

text \<open>No call is open between turns, and every handler has the one callback.\<close>

definition arch_inv :: "int \<Rightarrow> arch_server \<Rightarrow> bool" where
  "arch_inv server_start_time s \<longleftrightarrow> example_inv s [] \<and> callbacks_of (rpcs s) \<subseteq> {server_start_time}
     \<and> published s \<and> phase s = RunningLoop"

text \<open>The constructor, the registration and \<open>start\<close>: the thread ends its first loop after the four tasks.\<close>

lemma arch_start:
  assumes "new_arch_server_main argv start_time = Inr s0" and "operator_new new_rpc" and "operator_new new_tag"
    and "init_loop new_rpc new_tag 4 s0 = Inr (s, cs)"
  shows "arch_inv start_time s \<and> cs = [RegisterRpc (new_rpc []) (new_tag [])]"
  using assms
  by (auto simp: new_arch_server_main_def example_register_async_def new_example_async_server_def start_def
      emplace_back_def new_blocking_queue_def numeral_eq_Suc init_turn_def pop_front_def run_task_def queue_rpc_def
      queue_handler_def tagger_make_tag_def example_make_tag_def mk_example_Tag_def um_emplace_def Let_def
      arch_inv_def example_inv_def callbacks_of_def make_unique_unary_rpc_def um_ok_def)

text \<open>Both kinds of turn: a new call, which is answered at once, and everything else.\<close>

lemma arch_turn_ok:
  assumes inv: "arch_inv start_time s" and new: "operator_new new_rpc" "operator_new new_tag" and t: "t \<in> given s"
  obtains (answered) p q tag tag' s' where
      "arch_turn new_rpc new_tag now request t ok s =
         Inr (s', [RegisterRpc q tag, OnRequest start_time request p,
                   Finish p (Some (format_duration request (now - start_time))) OK tag'])"
      "arch_inv start_time s'" "ok" "map_of (tags_of s) t = Some (mk_example_Tag p ServerNewRpc)"
      "map_of (tags_of s') tag = Some (mk_example_Tag q ServerNewRpc)"
  | (other) s' where "arch_turn new_rpc new_tag now request t ok s = Inr (s', [])" "arch_inv start_time s'"
      "\<not> (ok \<and> map_option ex_label (map_of (tags_of s) t) = Some ServerNewRpc)"
proof -
  have einv: "example_inv s []" using inv by (simp add: arch_inv_def)
  with t obtain x where x: "map_of (tags_of s) t = Some x" by (auto simp: example_inv_def in_um_keys_map_of)
  let ?s1 = "s\<lparr>rpc_tagger := rpc_tagger s\<lparr>tagger_tags := um_erase t (tags_of s)\<rparr>, given := given s - {t}\<rparr>"
  from example_turn_ok [where 'resp = string and 'st = status, OF einv new t, of COMPOUND request ok] obtain s1
    and cs :: "arch_call list" where
    turn: "example_turn new_rpc new_tag COMPOUND request t ok s = Inr (s1, cs)" "example_inv s1 (opened cs)" by auto
  have cbs: "callbacks_of (rpcs s1) \<subseteq> {start_time}" "published s1" "phase s1 = RunningLoop"
    using example_turn_callbacks [OF turn(1)] example_turn_server [OF turn(1)] inv by (auto simp: arch_inv_def)
  show ?thesis
  proof (cases "ok \<and> ex_label x = ServerNewRpc")
    case True
    then have xp: "mk_example_Tag (ex_data x) ServerNewRpc = x" by (simp add: mk_example_Tag_def)
    with x have xt: "map_of (tags_of s) t = Some (mk_example_Tag (ex_data x) ServerNewRpc)" by simp
    from turn(1) x True obtain h s2 and call :: arch_call where q: "map_of (rpcs s) (ex_data x) = Some h"
      "queue_rpc new_rpc new_tag (clone COMPOUND h) ?s1 = (s2, call)"
      "s1 = s2\<lparr>rpcs := um_adjust (rpc_request_update (\<lambda>_. request)) (ex_data x) (rpcs s2)\<rparr>"
      "cs = [call, OnRequest (on_request h) request (ex_data x)]"
      by (auto simp: example_turn_def tagger_get_tag_Some Let_def invoke_user_callback_def split: option.splits prod.splits)
    from queue_rpc_fields [OF new q(2)] obtain p' tag where
      f: "tag \<notin> set (um_keys (tags_of ?s1))" "call = RegisterRpc p' tag"
      "tags_of s2 = tags_of ?s1 @ [(tag, mk_example_Tag p' ServerNewRpc)]" by blast
    have h: "on_request h = start_time" using callbacks_of_steps(4) [OF q(1)] inv by (auto simp: arch_inv_def)
    have open1: "opened cs = [ex_data x]" using q(4) f(2) by simp
    from example_answer_ok [OF turn(2) new(2), of "ex_data x" "Some (format_duration request (now - start_time))" OK] open1
    obtain s3 tag' where ans: "answer_call new_tag (ex_data x) (Some (format_duration request (now - start_time))) OK s1
        = Inr (s3, Finish (ex_data x) (Some (format_duration request (now - start_time))) OK tag' :: arch_call)"
      "example_inv s3 []" by auto
    have "map_of (tags_of s1) tag = Some (mk_example_Tag p' ServerNewRpc)"
      using f q(3) by (simp add: map_add_def map_of_None_um_keys [symmetric])
    with answer_call_tags [OF ans(1) new(2)] have "map_of (tags_of s3) tag = Some (mk_example_Tag p' ServerNewRpc)" by simp
    moreover have "arch_inv start_time s3" using ans answer_call_server [OF ans(1)] cbs by (simp add: arch_inv_def)
    moreover have "arch_turn new_rpc new_tag now request t ok s =
         Inr (s3, [RegisterRpc p' tag, OnRequest start_time request (ex_data x),
                   Finish (ex_data x) (Some (format_duration request (now - start_time))) OK tag'])"
      using turn(1) q(4) f(2) h ans(1) by (simp add: arch_turn_def time_callback_def time_since_def)
    ultimately show ?thesis using True xt by (intro answered) auto
  next
    case False
    with turn(1) x have "cs = []"
      by (cases "ex_label x") (auto simp: example_turn_def tagger_get_tag_Some Let_def split: if_splits)
    with turn cbs False x show ?thesis by (intro other) (auto simp: arch_turn_def arch_inv_def)
  qed
qed

lemma arch_reachable_inv: "arch_reachable start_time s tr \<Longrightarrow> arch_inv start_time s"
proof (induction rule: arch_reachable.induct)
  case (arch_init argv s0 new_rpc new_tag s cs)
  then show ?case using arch_start by blast
next
  case (arch_next s tr new_rpc new_tag t now request ok s' cs)
  from arch_turn_ok [OF arch_next.IH arch_next.hyps(2-4), of now request ok] arch_next.hyps(5) show ?case by cases auto
qed

section \<open>Properties\<close>


section \<open>Witness\<close>


end
