(* ===== verification/Example_Stream_Rpc.thy ===== *)
theory Example_Stream_Rpc
  imports Example_Async_Server
begin

text \<open>
  The handler of server-side streams in the second example (example/src/server/server_stream_rpc_handler.hpp)
  with its connection (connections.hpp) and the interfaces it implements (rpc.hpp), beside the one of unary
  calls (unary_rpc_handler.hpp), both as objects with their connection. \<open>AsyncServer\<close> registers only unary
  calls; the second part looks at what a stream handler would meet in its table and its loop.
\<close>

section \<open>The interface NewRpc\<close>

text \<open>
  What \<open>AsyncServer\<close> relies on: a clone has the callback of the original and waits for a client of its own,
  \<open>queue_handler\<close> registers the handler under one new tag that names it, and the callback gets the request
  and the handler itself as the writer.
\<close>

locale new_rpc_interface =
  fixes clone_rpc :: "'h \<Rightarrow> 'h" and queue_rpc_handler :: "(ptr list \<Rightarrow> ptr) \<Rightarrow> ptr \<Rightarrow> tagger \<Rightarrow> tagger \<times> ('req, 'resp, 'st, 'cb) rpc_call"
    and invoke :: "ptr \<Rightarrow> 'h \<Rightarrow> ('req, 'resp, 'st, 'cb) rpc_call" and get_request :: "'h \<Rightarrow> 'req" and set_request :: "'req \<Rightarrow> 'h \<Rightarrow> 'h"
    and callback_of :: "'h \<Rightarrow> 'cb"
  assumes clone_callback: "callback_of (clone_rpc h) = callback_of h"
    and clone_forgets: "clone_rpc (set_request r h) = clone_rpc h"
    and set_request_laws: "get_request (set_request r h) = r" "callback_of (set_request r h) = callback_of h"
    and queue_tags: "operator_new new \<Longrightarrow> queue_rpc_handler new p t = (t', call) \<Longrightarrow>
      \<exists>tag. tagger_make_tag new p ServerNewRpc t = (tag, t') \<and> call = RegisterRpc p tag"
    and invoke_law: "invoke p h = OnRequest (callback_of h) (get_request h) p"
begin

text \<open>A client comes: the loop registers a clone and calls back with the request of this client.\<close>

lemma client_comes:
  "invoke p (set_request r h) = OnRequest (callback_of h) r p"
  "callback_of (clone_rpc (set_request r h)) = callback_of h"
  "get_request (clone_rpc (set_request r h)) = get_request (clone_rpc h)"
  by (simp_all add: invoke_law set_request_laws clone_callback clone_forgets)

lemma queued_once:
  assumes "operator_new new" and "queue_rpc_handler new p t = (t', call)"
  shows "\<exists>tag. call = RegisterRpc p tag \<and> tagger_tags t' = tagger_tags t @ [(tag, mk_example_Tag p ServerNewRpc)]
     \<and> tag \<notin> set (um_keys (tagger_tags t))"
  using queue_tags [OF assms] tagger_make_tag_fresh [OF assms(1)] by blast

end

section \<open>Connections and handlers\<close>

record 'req rpc_connection =
  connection_request :: 'req

definition new_unary_connection :: "'req \<Rightarrow> 'req rpc_connection" where
  "new_unary_connection request0 = \<lparr>connection_request = request0\<rparr>"

definition new_server_stream_connection :: "'req \<Rightarrow> 'req rpc_connection" where
  "new_server_stream_connection request0 = \<lparr>connection_request = request0\<rparr>"

record ('req, 'cb) unary_handler =
  unary_connection :: "'req rpc_connection"
  unary_on_request :: 'cb

record ('req, 'cb) server_stream_handler =
  ss_connection :: "'req rpc_connection"
  ss_on_request :: 'cb

definition new_unary_handler :: "'req \<Rightarrow> 'cb \<Rightarrow> ('req, 'cb) unary_handler" where
  "new_unary_handler request0 cb = \<lparr>unary_connection = new_unary_connection request0, unary_on_request = cb\<rparr>"

definition unary_clone :: "'req \<Rightarrow> ('req, 'cb) unary_handler \<Rightarrow> ('req, 'cb) unary_handler" where
  "unary_clone request0 h = new_unary_handler request0 (unary_on_request h)"

definition unary_invoke :: "ptr \<Rightarrow> ('req, 'cb) unary_handler \<Rightarrow> ('req, 'resp, 'st, 'cb) rpc_call" where
  "unary_invoke this h = OnRequest (unary_on_request h) (connection_request (unary_connection h)) this"

definition new_server_stream_handler :: "'req \<Rightarrow> 'cb \<Rightarrow> ('req, 'cb) server_stream_handler" where
  "new_server_stream_handler request0 cb = \<lparr>ss_connection = new_server_stream_connection request0, ss_on_request = cb\<rparr>"

definition server_stream_clone :: "'req \<Rightarrow> ('req, 'cb) server_stream_handler \<Rightarrow> ('req, 'cb) server_stream_handler" where
  "server_stream_clone request0 h = new_server_stream_handler request0 (ss_on_request h)"

definition server_stream_queue_handler ::
    "(ptr list \<Rightarrow> ptr) \<Rightarrow> ptr \<Rightarrow> tagger \<Rightarrow> tagger \<times> ('req, 'resp, 'st, 'cb) rpc_call" where
  "server_stream_queue_handler new this t =
     (let (tag, t') = tagger_make_tag new this ServerNewRpc t in (t', RegisterRpc this tag))"

definition server_stream_invoke :: "ptr \<Rightarrow> ('req, 'cb) server_stream_handler \<Rightarrow> ('req, 'resp, 'st, 'cb) rpc_call" where
  "server_stream_invoke this h = OnRequest (ss_on_request h) (connection_request (ss_connection h)) this"

interpretation unary_new_rpc: new_rpc_interface "unary_clone request0" queue_handler unary_invoke
    "\<lambda>h. connection_request (unary_connection h)" "\<lambda>r h. h\<lparr>unary_connection := \<lparr>connection_request = r\<rparr>\<rparr>" unary_on_request
  by unfold_locales
    (auto simp: unary_clone_def new_unary_handler_def new_unary_connection_def queue_handler_def unary_invoke_def split: prod.splits)

interpretation server_stream_new_rpc: new_rpc_interface "server_stream_clone request0" server_stream_queue_handler server_stream_invoke
    "\<lambda>h. connection_request (ss_connection h)" "\<lambda>r h. h\<lparr>ss_connection := \<lparr>connection_request = r\<rparr>\<rparr>" ss_on_request
  by unfold_locales
    (auto simp: server_stream_clone_def new_server_stream_handler_def new_server_stream_connection_def
      server_stream_queue_handler_def server_stream_invoke_def split: prod.splits)

text \<open>The entries of the server's table are these handlers, and its operations theirs.\<close>

definition rpc_of_unary :: "('req, 'cb) unary_handler \<Rightarrow> ('req, 'cb) rpc" where
  "rpc_of_unary h = \<lparr>kind = UnaryRpc, rpc_request = connection_request (unary_connection h), on_request = unary_on_request h\<rparr>"

definition rpc_of_stream :: "('req, 'cb) server_stream_handler \<Rightarrow> ('req, 'cb) rpc" where
  "rpc_of_stream h = \<lparr>kind = ServerStreamRpc, rpc_request = connection_request (ss_connection h), on_request = ss_on_request h\<rparr>"

lemma rpc_refines:
  "rpc_of_unary (unary_clone r h) = clone r (rpc_of_unary h)" "invoke_user_callback p (rpc_of_unary h) = unary_invoke p h"
  "rpc_of_unary (new_unary_handler r cb) = make_unique_unary_rpc r cb"
  "rpc_of_stream (server_stream_clone r g) = clone r (rpc_of_stream g)" "invoke_user_callback p (rpc_of_stream g) = server_stream_invoke p g"
  "rpc_of_stream (new_server_stream_handler r cb) = make_unique_server_stream_rpc r cb"
  by (simp_all add: rpc_of_unary_def rpc_of_stream_def unary_clone_def server_stream_clone_def clone_def new_unary_handler_def
      new_server_stream_handler_def new_unary_connection_def new_server_stream_connection_def make_unique_unary_rpc_def
      make_unique_server_stream_rpc_def invoke_user_callback_def unary_invoke_def server_stream_invoke_def)

section \<open>A stream in the server\<close>

definition stream_call ::
    "((ptr list \<Rightarrow> ptr) \<Rightarrow> ptr \<Rightarrow> tagger \<Rightarrow> tagger \<times> ('req, 'resp, 'st, 'cb) rpc_call) \<Rightarrow> (ptr list \<Rightarrow> ptr) \<Rightarrow> ptr
      \<Rightarrow> ('req, 'cb) example_async_server
      \<Rightarrow> async_example_error + (('req, 'cb) example_async_server \<times> ('req, 'resp, 'st, 'cb) rpc_call)" where
  "stream_call operation new_tag writer s =
     (if writer \<notin> set (um_keys (rpcs s)) then Inl (DanglingRpc writer)
      else (let (t, call) = operation new_tag writer (rpc_tagger s)
            in Inr (s\<lparr>rpc_tagger := t,
                 given := given s \<union> (case call of Write p resp tag \<Rightarrow> {tag} | Finish p resp st tag \<Rightarrow> {tag} | _ \<Rightarrow> {})\<rparr>, call)))"

fun stream_writes ::
    "(ptr list \<Rightarrow> ptr) \<Rightarrow> ptr \<Rightarrow> 'resp list \<Rightarrow> ('req, 'cb) example_async_server
      \<Rightarrow> async_example_error + (('req, 'cb) example_async_server \<times> ('req, 'resp, 'st, 'cb) rpc_call list)" where
  "stream_writes new_tag writer [] s = Inr (s, [])"
| "stream_writes new_tag writer (resp # resps) s =
     (case stream_call (\<lambda>new p t. server_stream_write new p resp t) new_tag writer s of
        Inl e \<Rightarrow> Inl e
      | Inr (s1, call) \<Rightarrow> (case stream_writes new_tag writer resps s1 of Inl e \<Rightarrow> Inl e | Inr (s2, cs) \<Rightarrow> Inr (s2, call # cs)))"

definition writes_under_way :: "ptr \<Rightarrow> ('req, 'cb) example_async_server \<Rightarrow> nat" where
  "writes_under_way p s = count_list (map snd (tags_of s)) (mk_example_Tag p ServerWriting)"

section \<open>Properties\<close>

text \<open>
  Nothing keeps a second \<open>write\<close> of this handler back while the first is under way, which gRPC forbids, and
  nothing tells the caller when it may write again: any number of writes in a row are all given to gRPC at
  once. A write that fails makes the loop delete the handler, although the caller still has it as its
  writer; the next call on it uses a deleted object.
\<close>

theorem server_stream_writes_unguarded:
  fixes s :: "('req, 'cb) example_async_server"
  assumes "operator_new new" and "p \<in> set (um_keys (rpcs s))"
  shows "\<exists>s' (cs :: ('req, 'resp, 'st, 'cb) rpc_call list). stream_writes new p resps s = Inr (s', cs)
     \<and> length cs = length resps \<and> writes_under_way p s' = writes_under_way p s + length resps"
  using assms(2)
proof (induction resps arbitrary: s)
  case (Cons resp resps)
  obtain tag t' where t': "tagger_make_tag new p ServerWriting (rpc_tagger s) = (tag, t')" by (rule prod.exhaust)
  let ?s1 = "s\<lparr>rpc_tagger := t', given := given s \<union> {tag}\<rparr>"
  have call: "stream_call (\<lambda>new p t. server_stream_write new p resp t) new p s =
      Inr (?s1, Write p resp tag :: ('req, 'resp, 'st, 'cb) rpc_call)"
    using Cons.prems t' by (simp add: stream_call_def server_stream_write_def)
  have w: "writes_under_way p ?s1 = Suc (writes_under_way p s)"
    using tagger_make_tag_fresh [OF assms(1) t'] by (simp add: writes_under_way_def)
  have "p \<in> set (um_keys (rpcs ?s1))" using Cons.prems by simp
  from Cons.IH [OF this] obtain s' and cs :: "('req, 'resp, 'st, 'cb) rpc_call list" where
    "stream_writes new p resps ?s1 = Inr (s', cs)" "length cs = length resps"
    "writes_under_way p s' = writes_under_way p ?s1 + length resps" by blast
  with call w show ?case by auto
qed simp

theorem server_stream_failed_write_dangles:
  fixes s :: "('req, 'cb) example_async_server" and operation :: "(ptr list \<Rightarrow> ptr) \<Rightarrow> ptr \<Rightarrow> tagger \<Rightarrow> tagger \<times> ('req, 'resp, 'st, 'cb) rpc_call"
  assumes "map_of (tags_of s) t = Some (mk_example_Tag p ServerWriting)"
  shows "\<exists>s'. example_turn new_rpc new_tag request0 r t False s = Inr (s', [] :: ('req, 'resp, 'st, 'cb) rpc_call list)
     \<and> stream_call operation new_tag p s' = Inl (DanglingRpc p)"
  using tagger_get_tag_Some [OF assms]
  by (auto simp: example_turn_def stream_call_def mk_example_Tag_def Let_def um_keys_erase)

text \<open>A stream has been written to once and its client is gone.\<close>

definition demo_stream_server :: "(nat, nat) example_async_server" where
  "demo_stream_server = (new_example_async_server ''h:1'')\<lparr>rpcs := [(1, rpc_of_stream (new_server_stream_handler 0 5))],
     rpc_tagger := \<lparr>tagger_tags = [(3, mk_example_Tag 1 ServerWriting)]\<rparr>, given := {3}\<rparr>"

theorem server_stream_writes_unguarded_witness:
  "\<exists>s' (cs :: (nat, nat, nat, nat) rpc_call list).
     stream_writes bump_new 1 [7, 8] demo_stream_server = Inr (s', cs) \<and> writes_under_way 1 s' = 3"
proof -
  have "1 \<in> set (um_keys (rpcs demo_stream_server))" "writes_under_way 1 demo_stream_server = 1"
    by (simp_all add: demo_stream_server_def writes_under_way_def)
  with server_stream_writes_unguarded [where 'resp = nat and 'st = nat and resps = "[7, 8]", OF operator_new_bump this(1)]
  show ?thesis by auto
qed

theorem server_stream_failed_write_dangles_witness:
  "\<exists>s'. example_turn bump_new bump_new 0 0 3 False demo_stream_server = Inr (s', [] :: (nat, nat, nat, nat) rpc_call list)
     \<and> (stream_call (\<lambda>new p t. server_stream_write new p 7 t) bump_new 1 s' ::
           async_example_error + ((nat, nat) example_async_server \<times> (nat, nat, nat, nat) rpc_call)) = Inl (DanglingRpc 1)"
proof -
  have "map_of (tags_of demo_stream_server) 3 = Some (mk_example_Tag 1 ServerWriting)" by (simp add: demo_stream_server_def)
  from server_stream_failed_write_dangles [OF this] show ?thesis by blast
qed

end
