(* ===== verification/Grpcw_Client_Tests.thy ===== *)
theory Grpcw_Client_Tests
  imports Grpc_Client_View Blocking_Queue
begin

text \<open>
  The test cases of \<open>GrpcClient\<close> (src/testing/grpcw/client/grpc_client_tests.cpp): a client whose state
  change callback pushes into a \<open>BlockingQueue\<close>, and a main thread that takes the states out and checks
  them. A server is seen in the states the channel takes, which are the arguments of each test: the
  answer of \<open>GetState\<close> when the channel is made, and the answers the client's thread gets between two
  statements of the test, the time it waits in \<open>pop_front\<close> included.
\<close>

section \<open>Tests as lists of statements\<close>

datatype test_statement =
    RequireState grpc_client_state
  | ChangeServer string connectivity
  | ChangeInProcess
  | KillStreamsAndChannel
  | ThreadTurns "connectivity list"
  | RequirePop grpc_client_state
  | CheckConnects
  | RequireEmpty
  | DestroyClient

datatype test_failure = RequireFails | WaitsForEver | ClientFails client_error | NoClient | ThreadNotRunning

type_synonym test_client = "(string, unit, unit) grpc_client"

record state_updater =
  state_queue :: "grpc_client_state blocking_queue"

definition handle_state_change :: "grpc_client_state \<Rightarrow> state_updater \<Rightarrow> state_updater" where
  "handle_state_change state u = u\<lparr>state_queue := push_back state (state_queue u)\<rparr>"

record test_run =
  tested :: "test_client option"
  updater :: state_updater

definition test_begins :: test_run where
  "test_begins = \<lparr>tested = Some new_grpc_client, updater = \<lparr>state_queue = new_blocking_queue\<rparr>\<rparr>"

text \<open>An operation of the client or turns of its thread; each call of the callback goes to the updater.\<close>

definition client_does :: "(string, unit, unit, unit, unit) client_event list \<Rightarrow> test_run \<Rightarrow> test_failure + test_run" where
  "client_does evs t =
     (case tested t of
        None \<Rightarrow> Inl NoClient
      | Some c \<Rightarrow>
          if \<not> client_run_allowed evs c then Inl ThreadNotRunning
          else (case client_run evs c of
             Inl e \<Rightarrow> Inl (ClientFails e)
           | Inr (c', es) \<Rightarrow> Inr (t\<lparr>tested := Some c', updater := fold handle_state_change (reports es) (updater t)\<rparr>)))"

definition pop_state :: "test_run \<Rightarrow> test_failure + (grpc_client_state \<times> test_run)" where
  "pop_state t =
     (case pop_front (state_queue (updater t)) of
        None \<Rightarrow> Inl WaitsForEver
      | Some (state, q) \<Rightarrow> Inr (state, t\<lparr>updater := \<lparr>state_queue = q\<rparr>\<rparr>))"

definition require_pop :: "grpc_client_state \<Rightarrow> test_run \<Rightarrow> test_failure + test_run" where
  "require_pop expected t =
     (case pop_state t of
        Inl e \<Rightarrow> Inl e
      | Inr (state, t') \<Rightarrow> if state = expected then Inr t' else Inl RequireFails)"

definition check_connects :: "test_run \<Rightarrow> test_failure + test_run" where
  "check_connects t =
     (case pop_state t of
        Inl e \<Rightarrow> Inl e
      | Inr (state, t') \<Rightarrow>
          if state = AttemptingToConnect then require_pop Connected t'
          else if state = Connected then Inr t' else Inl RequireFails)"

definition no_streams :: "(unit, unit) stream_rest" where
  "no_streams p = ([], ())"

definition create_channel :: "string \<Rightarrow> channel_arguments \<Rightarrow> string" where
  "create_channel address channel_arguments = address"

fun run_statement :: "test_statement \<Rightarrow> test_run \<Rightarrow> test_failure + test_run" where
  "run_statement (RequireState st) t =
     (case tested t of None \<Rightarrow> Inl NoClient | Some c \<Rightarrow> if get_state c = st then Inr t else Inl RequireFails)"
| "run_statement (ChangeServer address answer) t =
     client_does [EvChangeServer create_channel answer no_streams address ()] t"
| "run_statement ChangeInProcess t = client_does [EvInProcess no_streams ''In-Process''] t"
| "run_statement KillStreamsAndChannel t = client_does [EvKill no_streams] t"
| "run_statement (ThreadTurns answers) t = client_does (map (\<lambda>answer. EvTurn answer True no_streams) answers) t"
| "run_statement (RequirePop st) t = require_pop st t"
| "run_statement CheckConnects t = check_connects t"
| "run_statement RequireEmpty t = (if bq_empty (state_queue (updater t)) then Inr t else Inl RequireFails)"
| "run_statement DestroyClient t =
     (case client_does [EvKill no_streams] t of Inl e \<Rightarrow> Inl e | Inr t' \<Rightarrow> Inr (t'\<lparr>tested := None\<rparr>))"

fun run_test :: "test_statement list \<Rightarrow> test_run \<Rightarrow> test_failure + test_run" where
  "run_test [] t = Inr t"
| "run_test (s # ss) t = (case run_statement s t of Inl e \<Rightarrow> Inl e | Inr t' \<Rightarrow> run_test ss t')"

definition passes :: "test_statement list \<Rightarrow> bool" where
  "passes ss \<longleftrightarrow> (case run_test ss test_begins of Inl e \<Rightarrow> False | Inr t \<Rightarrow> True)"

section \<open>The test cases\<close>

definition no_server :: "connectivity \<Rightarrow> connectivity list \<Rightarrow> connectivity list \<Rightarrow> test_statement list" where
  "no_server first tries later =
     [RequireState NotConnected, ChangeServer ''0.0.0.0:50050'' first, ThreadTurns tries, RequirePop AttemptingToConnect,
      ThreadTurns later, DestroyClient, RequirePop NotConnected, RequireEmpty]"

definition no_server_stop_connection_attempts ::
    "connectivity \<Rightarrow> connectivity list \<Rightarrow> connectivity list \<Rightarrow> test_statement list" where
  "no_server_stop_connection_attempts first tries later =
     [RequireState NotConnected, ChangeServer ''0.0.0.0:50051'' first, ThreadTurns tries, RequirePop AttemptingToConnect,
      ThreadTurns later, KillStreamsAndChannel, RequirePop NotConnected, DestroyClient, RequireEmpty]"

text \<open>The server starts after \<open>tries\<close> and is destroyed after \<open>connects\<close>.\<close>

definition delayed_server ::
    "connectivity \<Rightarrow> connectivity list \<Rightarrow> connectivity list \<Rightarrow> connectivity list \<Rightarrow> test_statement list" where
  "delayed_server first tries connects disconnects =
     [RequireState NotConnected, ChangeServer ''0.0.0.0:50052'' first, ThreadTurns tries, RequirePop AttemptingToConnect,
      ThreadTurns connects, RequirePop Connected, ThreadTurns disconnects, RequirePop NotConnected,
      RequirePop AttemptingToConnect, DestroyClient, RequirePop NotConnected, RequireEmpty]"

definition already_running_server :: "connectivity \<Rightarrow> connectivity list \<Rightarrow> test_statement list" where
  "already_running_server first connects =
     [RequireState NotConnected, ChangeServer ''0.0.0.0:50053'' first, ThreadTurns connects, CheckConnects,
      DestroyClient, RequirePop NotConnected, RequireEmpty]"

definition multiple_addresses ::
    "connectivity \<Rightarrow> connectivity list \<Rightarrow> connectivity \<Rightarrow> connectivity list \<Rightarrow> connectivity \<Rightarrow> connectivity list
      \<Rightarrow> test_statement list" where
  "multiple_addresses first1 connects1 first2 connects2 first3 connects3 =
     [RequireState NotConnected, ChangeServer ''0.0.0.0:50054'' first1, ThreadTurns connects1, CheckConnects,
      ChangeServer ''0.0.0.0:50055'' first2, ThreadTurns connects2, RequirePop NotConnected, CheckConnects,
      ChangeServer ''0.0.0.0:50054'' first3, ThreadTurns connects3, RequirePop NotConnected, CheckConnects,
      DestroyClient, RequirePop NotConnected, RequireEmpty]"

definition external_to_inprocess_and_back ::
    "connectivity \<Rightarrow> connectivity list \<Rightarrow> connectivity \<Rightarrow> connectivity list \<Rightarrow> test_statement list" where
  "external_to_inprocess_and_back first1 connects1 first2 connects2 =
     [RequireState NotConnected, ChangeServer ''0.0.0.0:50056'' first1, ThreadTurns connects1, CheckConnects,
      ChangeInProcess, RequirePop NotConnected, RequireEmpty, RequireState Connected,
      ChangeServer ''0.0.0.0:50056'' first2, ThreadTurns connects2, RequirePop NotConnected, CheckConnects,
      DestroyClient, RequirePop NotConnected, RequireEmpty]"

text \<open>The file has a second case of that name, which leaves the channel arguments to their default.\<close>

definition external_to_inprocess_and_back_again ::
    "connectivity \<Rightarrow> connectivity list \<Rightarrow> connectivity \<Rightarrow> connectivity list \<Rightarrow> test_statement list" where
  "external_to_inprocess_and_back_again first1 connects1 first2 connects2 =
     [RequireState NotConnected, ChangeServer ''0.0.0.0:50056'' first1, ThreadTurns connects1, CheckConnects,
      ChangeInProcess, RequirePop NotConnected, RequireEmpty, RequireState Connected,
      ChangeServer ''0.0.0.0:50056'' first2, ThreadTurns connects2, RequirePop NotConnected, CheckConnects,
      DestroyClient, RequirePop NotConnected, RequireEmpty]"

section \<open>Tests on what the client shows\<close>

text \<open>
  The same statements on what is shown: the view of the client and whether its thread runs, \<open>None\<close> after
  its destructor, and the states in the queue. The result \<open>None\<close> is a test that does not pass.
\<close>

type_synonym view_test = "(client_view \<times> bool) option \<times> grpc_client_state list"

definition view_does :: "view_event list \<Rightarrow> bool \<Rightarrow> view_test \<Rightarrow> view_test option" where
  "view_does evs thread t =
     (case t of
        (None, q) \<Rightarrow> None
      | (Some (v, _), q) \<Rightarrow> (let (rs, v') = view_run evs v in Some (Some (v', thread), q @ rs)))"

definition view_pop :: "grpc_client_state \<Rightarrow> view_test \<Rightarrow> view_test option" where
  "view_pop st t = (case t of (v, s # q) \<Rightarrow> if s = st then Some (v, q) else None | _ \<Rightarrow> None)"

fun view_statement :: "test_statement \<Rightarrow> view_test \<Rightarrow> view_test option" where
  "view_statement (RequireState st) t = (if map_option (shown \<circ> fst) (fst t) = Some st then Some t else None)"
| "view_statement (ChangeServer address answer) t = view_does [ConnectsTo (to_cnc_client_state answer)] True t"
| "view_statement ChangeInProcess t = view_does [GoesInProcess] False t"
| "view_statement KillStreamsAndChannel t = view_does [Disconnects] False t"
| "view_statement (ThreadTurns answers) t =
     (case fst t of
        Some (v, True) \<Rightarrow> view_does (map (Sees \<circ> to_cnc_client_state) answers) True t
      | _ \<Rightarrow> if answers = [] \<and> fst t \<noteq> None then Some t else None)"
| "view_statement (RequirePop st) t = view_pop st t"
| "view_statement CheckConnects t =
     (case view_pop AttemptingToConnect t of Some t' \<Rightarrow> view_pop Connected t' | None \<Rightarrow> view_pop Connected t)"
| "view_statement RequireEmpty t = (if snd t = [] then Some t else None)"
| "view_statement DestroyClient t = map_option (\<lambda>(v, q). (None, q)) (view_does [Disconnects] False t)"

fun view_test :: "test_statement list \<Rightarrow> view_test \<Rightarrow> view_test option" where
  "view_test [] t = Some t"
| "view_test (s # ss) t = (case view_statement s t of None \<Rightarrow> None | Some t' \<Rightarrow> view_test ss t')"

fun thread_after :: "('chan, 'reader, 'ret, 'st, 'cb) client_event \<Rightarrow> bool \<Rightarrow> bool" where
  "thread_after (EvChangeServer create answer rest address cb) b = True"
| "thread_after (EvInProcess rest chan) b = False"
| "thread_after (EvKill rest) b = False"
| "thread_after ev b = b"

fun is_operation :: "('chan, 'reader, 'ret, 'st, 'cb) client_event \<Rightarrow> bool" where
  "is_operation (EvChangeServer create answer rest address cb) = True"
| "is_operation (EvInProcess rest chan) = True"
| "is_operation (EvKill rest) = True"
| "is_operation ev = False"

lemma run_turn_thread: "run_turn answer ok rest c = Inr (c', es) \<Longrightarrow> follow_thread c' = follow_thread c"
  by (auto simp: run_turn_def use_shared_simp split: sum.splits prod.splits)

lemma client_turns:
  fixes c :: test_client
  assumes "client_inv c" and "follow_thread c = Running"
  shows "client_run_allowed (map (\<lambda>answer. EvTurn answer True no_streams :: (string, unit, unit, unit, unit) client_event) answers) c
     \<and> (\<exists>c' (es :: (unit, unit, unit) client_effect list).
          client_run (map (\<lambda>answer. EvTurn answer True no_streams) answers) c = Inr (c', es) \<and> follow_thread c' = Running)"
  using assms
proof (induction answers arbitrary: c)
  case (Cons a as)
  from run_turn_keeps [OF Cons.prems, of a True no_streams] obtain c1 and es :: "(unit, unit, unit) client_effect list"
    where 1: "run_turn a True no_streams c = Inr (c1, es)" "client_inv c1" by (auto simp: step_keeps_def)
  with Cons.IH [of c1] run_turn_thread [OF 1(1)] Cons.prems(2) show ?case by auto
qed simp

definition test_shows :: "test_run \<Rightarrow> view_test \<Rightarrow> bool" where
  "test_shows t v \<longleftrightarrow> queue (state_queue (updater t)) = snd v
     \<and> (case tested t of None \<Rightarrow> fst v = None | Some c \<Rightarrow> client_inv c \<and> fst v = Some (view_of c, follow_thread c = Running))"

lemma updater_gets: "queue (state_queue (fold handle_state_change rs u)) = queue (state_queue u) @ rs"
  by (induction rs arbitrary: u) (simp_all add: handle_state_change_def push_back_def)

lemma client_does_shows:
  assumes "test_shows t v" and "tested t = Some c" and "client_run_allowed evs c"
    and "\<And>c' es. client_run evs c = Inr (c', es) \<Longrightarrow> (follow_thread c' = Running) = b"
  shows "\<exists>t' v'. client_does evs t = Inr t' \<and> view_does (map view_event_of evs) b v = Some v' \<and> test_shows t' v'"
proof -
  have "client_inv c" using assms(1,2) by (simp add: test_shows_def)
  from client_run_view [OF this assms(3)] obtain c' and es :: "(unit, unit, unit) client_effect list" where
    "client_run evs c = Inr (c', es)" "client_inv c'" "view_run (map view_event_of evs) (view_of c) = (reports es, view_of c')" by auto
  with assms show ?thesis
    by (cases v) (auto simp: client_does_def view_does_def test_shows_def updater_gets)
qed

lemma client_gone: "test_shows t v \<Longrightarrow> tested t = None \<Longrightarrow> client_does evs t = Inl NoClient \<and> view_does es b v = None"
  by (cases v) (simp add: test_shows_def client_does_def view_does_def)

lemma thread_then:
  assumes "client_inv c" and "client_step ev c = Inr (c', es)" and "is_operation ev"
  shows "follow_thread c' = Running \<longleftrightarrow> thread_after ev b"
proof (cases ev)
  case (EvChangeServer create answer rest address cb)
  with change_server_keeps [OF assms(1), of create answer rest address cb] assms(2) show ?thesis by auto
next
  case (EvInProcess rest chan)
  with in_process_keeps [OF assms(1), of rest chan] assms(2) show ?thesis by (auto simp: step_keeps_def client_inv_def)
next
  case (EvKill rest)
  show ?thesis by (rule kill_ok [OF assms(1), of rest]) (use EvKill assms(2) in auto)
qed (use assms(3) in simp_all)

lemma operation_shows:
  assumes "test_shows t v" and "is_operation ev"
  shows "case client_does [ev] t of
      Inl e \<Rightarrow> view_does [view_event_of ev] (thread_after ev False) v = None
    | Inr t' \<Rightarrow> \<exists>v'. view_does [view_event_of ev] (thread_after ev False) v = Some v' \<and> test_shows t' v'"
proof (cases "tested t")
  case None
  with client_gone [OF assms(1)] show ?thesis by simp
next
  case (Some c)
  then have inv: "client_inv c" using assms(1) by (simp add: test_shows_def)
  have allowed: "client_run_allowed [ev] c" using assms(2) by (cases ev) (simp_all split: sum.splits)
  have thread: "(follow_thread c' = Running) = thread_after ev False" if "client_run [ev] c = Inr (c', es)" for c' es
    using that thread_then [OF inv _ assms(2)] by (auto split: sum.splits prod.splits)
  from client_does_shows [OF assms(1) Some allowed, of "thread_after ev False"] thread show ?thesis by auto
qed

lemma pop_shows:
  assumes "test_shows t v"
  shows "case require_pop st t of Inl e \<Rightarrow> view_pop st v = None | Inr t' \<Rightarrow> \<exists>v'. view_pop st v = Some v' \<and> test_shows t' v'"
  using assms
  by (cases v; cases "tested t")
    (auto simp: require_pop_def pop_state_def pop_front_def view_pop_def test_shows_def split: list.splits)

lemma check_shows:
  assumes "test_shows t v"
  shows "case check_connects t of
      Inl e \<Rightarrow> view_statement CheckConnects v = None
    | Inr t' \<Rightarrow> \<exists>v'. view_statement CheckConnects v = Some v' \<and> test_shows t' v'"
  using assms
  by (cases v; cases "tested t")
    (auto simp: check_connects_def require_pop_def pop_state_def pop_front_def view_pop_def test_shows_def split: list.splits)

lemma statement_shows:
  assumes "test_shows t v"
  shows "case run_statement s t of
      Inl e \<Rightarrow> view_statement s v = None
    | Inr t' \<Rightarrow> \<exists>v'. view_statement s v = Some v' \<and> test_shows t' v'"
proof (cases s)
  case (RequireState st)
  with assms show ?thesis by (cases v) (auto simp: test_shows_def view_of_def split: option.splits)
next
  case (ChangeServer address answer)
  with operation_shows [OF assms, of "EvChangeServer create_channel answer no_streams address ()"] show ?thesis by (simp split: sum.splits)
next
  case ChangeInProcess
  with operation_shows [OF assms, of "EvInProcess no_streams ''In-Process''"] show ?thesis by (simp split: sum.splits)
next
  case KillStreamsAndChannel
  with operation_shows [OF assms, of "EvKill no_streams"] show ?thesis by (simp split: sum.splits)
next
  case (ThreadTurns answers)
  show ?thesis
  proof (cases "tested t")
    case None
    with client_gone [OF assms None] assms ThreadTurns show ?thesis by (cases v) (auto simp: test_shows_def)
  next
    case (Some c)
    show ?thesis
    proof (cases "follow_thread c = Running")
      case True
      have "client_inv c" using assms Some by (simp add: test_shows_def)
      from client_turns [OF this True, of answers] client_does_shows [OF assms Some, of _ True] assms Some True
      show ?thesis by (cases v) (fastforce simp: ThreadTurns test_shows_def comp_def)
    next
      case False
      with assms Some ThreadTurns show ?thesis
        by (cases v; cases answers) (auto simp: test_shows_def client_does_def)
    qed
  qed
next
  case (RequirePop st)
  with pop_shows [OF assms, of st] show ?thesis by (simp split: sum.splits)
next
  case CheckConnects
  with check_shows [OF assms] show ?thesis by (simp split: sum.splits)
next
  case RequireEmpty
  with assms show ?thesis by (auto simp: test_shows_def bq_empty_def)
next
  case DestroyClient
  with operation_shows [OF assms, of "EvKill no_streams"] show ?thesis
    by (auto simp: test_shows_def split: sum.splits)
qed

lemma test_shows_run:
  "test_shows t v \<Longrightarrow> (case run_test ss t of Inl e \<Rightarrow> view_test ss v = None | Inr t' \<Rightarrow> \<exists>v'. view_test ss v = Some v')"
proof (induction ss arbitrary: t v)
  case (Cons s ss)
  show ?case
  proof (cases "run_statement s t")
    case (Inr t')
    with statement_shows [OF Cons.prems, of s] obtain v' where "view_statement s v = Some v'" "test_shows t' v'" by auto
    with Cons.IH [of t' v'] Inr show ?thesis by (simp split: sum.splits)
  qed (use statement_shows [OF Cons.prems, of s] in simp)
qed simp

lemma passes_view: "passes ss \<longleftrightarrow> view_test ss (Some (first_view, False), []) \<noteq> None"
proof -
  have "test_shows test_begins (Some (first_view, False), [])"
    by (simp add: test_shows_def test_begins_def new_blocking_queue_def new_client_inv new_client_view)
      (simp add: new_grpc_client_def)
  from test_shows_run [OF this, of ss] show ?thesis by (auto simp: passes_def split: sum.splits)
qed

section \<open>Phases of a test\<close>

text \<open>What the user sees of the states a channel takes, seen after the state \<open>a\<close>.\<close>

definition visible_path :: "grpc_client_state \<Rightarrow> connectivity list \<Rightarrow> grpc_client_state list" where
  "visible_path a answers = changes a (map to_cnc_client_state answers)"

definition connects_path :: "grpc_client_state list set" where
  "connects_path = {[Connected], [AttemptingToConnect, Connected]}"

lemma view_run_sees:
  "view_run (map (Sees \<circ> f) xs) v = (changes (shown v) (map f xs), v\<lparr>shown := last (shown v # changes (shown v) (map f xs))\<rparr>)"
proof -
  have "view_run (map (Sees \<circ> f) xs) v = (changes (shown v) (map f xs), v\<lparr>shown := last (shown v # map f xs)\<rparr>)"
    by (induction xs arbitrary: v) simp_all
  then show ?thesis by (simp only: last_changes)
qed

lemma turns_phase:
  "view_test (ThreadTurns xs # ss) (Some (v, True), q) =
     view_test ss (Some (v\<lparr>shown := last (shown v # visible_path (shown v) xs)\<rparr>, True), q @ visible_path (shown v) xs)"
  by (simp add: view_does_def view_run_sees visible_path_def del: last.simps)

lemma connect_phase:
  "view_test (ChangeServer address first # ThreadTurns xs # ss) (Some (\<lparr>shown = st, in_process = False\<rparr>, b), q) =
     view_test ss (Some (\<lparr>shown = last (NotConnected # visible_path NotConnected (first # xs)), in_process = False\<rparr>, True),
       q @ changes st [NotConnected] @ visible_path NotConnected (first # xs))"
  by (simp add: view_does_def view_run_sees visible_path_def)

lemma reconnect_phase:
  "view_test (ChangeServer address first # ThreadTurns xs # ss) (Some (\<lparr>shown = st, in_process = True\<rparr>, b), q) =
     view_test ss (Some (\<lparr>shown = last (st # visible_path st (first # xs)), in_process = False\<rparr>, True),
       q @ visible_path st (first # xs))"
  by (simp add: view_does_def view_run_sees visible_path_def)

lemma statement_phases:
  "view_test (KillStreamsAndChannel # ss) (Some (\<lparr>shown = st, in_process = False\<rparr>, b), q) =
     view_test ss (Some (\<lparr>shown = NotConnected, in_process = False\<rparr>, False), q @ changes st [NotConnected])"
  "view_test (DestroyClient # ss) (Some (\<lparr>shown = st, in_process = False\<rparr>, b), q) =
     view_test ss (None, q @ changes st [NotConnected])"
  "view_test (ChangeInProcess # ss) (Some (\<lparr>shown = st, in_process = False\<rparr>, b), q) =
     view_test ss (Some (\<lparr>shown = Connected, in_process = True\<rparr>, False), q @ changes st [NotConnected])"
  "view_test (RequireState st # ss) (Some (v, b), q) = (if shown v = st then view_test ss (Some (v, b), q) else None)"
  "view_test (RequirePop st # ss) (c, s # q) = (if s = st then view_test ss (c, q) else None)"
  "view_test (RequirePop st # ss) (c, []) = None"
  "view_test (CheckConnects # ss) (c, AttemptingToConnect # Connected # q) = view_test ss (c, q)"
  "view_test (CheckConnects # ss) (c, Connected # q) = view_test ss (c, q)"
  "view_test (RequireEmpty # ss) (c, q) = (if q = [] then view_test ss (c, q) else None)"
  by (simp_all add: view_does_def view_pop_def)

lemmas test_phases = turns_phase connect_phase reconnect_phase statement_phases

section \<open>Properties\<close>

text \<open>
  Claim C34. The test cases pass, whatever the timing, for every behaviour of the channels in which a server that is
  not there is seen as attempts to connect, a server that is there is reached at once or after attempts, and
  one that goes away leaves the channel idle before the next attempt. The cases that come back from an
  in-process channel pass exactly when the new channel is idle at first, since the client does not
  report that it left the in-process channel.
\<close>

theorem grpc_client_tests_pass:
  assumes "visible_path NotConnected (first # tries) = [AttemptingToConnect]"
    and "visible_path AttemptingToConnect later = []"
    and "visible_path AttemptingToConnect connects = [Connected]"
    and "visible_path Connected disconnects = [NotConnected, AttemptingToConnect]"
    and "visible_path NotConnected (first1 # connects1) \<in> connects_path"
    and "visible_path NotConnected (first2 # connects2) \<in> connects_path"
    and "visible_path NotConnected (first3 # connects3) \<in> connects_path"
  shows "passes (no_server first tries later) \<and> passes (no_server_stop_connection_attempts first tries later)
     \<and> passes (delayed_server first tries connects disconnects) \<and> passes (already_running_server first1 connects1)
     \<and> passes (multiple_addresses first1 connects1 first2 connects2 first3 connects3)
     \<and> (passes (external_to_inprocess_and_back first1 connects1 first2 connects2)
          \<longleftrightarrow> to_cnc_client_state first2 = NotConnected)
     \<and> (passes (external_to_inprocess_and_back_again first1 connects1 first2 connects2)
          \<longleftrightarrow> to_cnc_client_state first2 = NotConnected)"
proof (intro conjI)
  show "passes (no_server first tries later)"
    using assms(1,2) by (simp add: passes_view no_server_def first_view_def test_phases del: view_test.simps(2))
  show "passes (no_server_stop_connection_attempts first tries later)"
    using assms(1,2) by (simp add: passes_view no_server_stop_connection_attempts_def first_view_def test_phases del: view_test.simps(2))
  show "passes (delayed_server first tries connects disconnects)"
    using assms(1,3,4) by (simp add: passes_view delayed_server_def first_view_def test_phases del: view_test.simps(2))
  show "passes (already_running_server first1 connects1)"
    using assms(5)
    by (auto simp: passes_view already_running_server_def first_view_def test_phases connects_path_def simp del: view_test.simps(2))
  show "passes (multiple_addresses first1 connects1 first2 connects2 first3 connects3)"
    using assms(5-7)
    by (auto simp: passes_view multiple_addresses_def first_view_def test_phases connects_path_def simp del: view_test.simps(2))
  have "visible_path Connected (first2 # connects2) =
      (case to_cnc_client_state first2 of NotConnected \<Rightarrow> NotConnected # visible_path NotConnected (first2 # connects2)
       | AttemptingToConnect \<Rightarrow> visible_path NotConnected (first2 # connects2)
       | Connected \<Rightarrow> tl (visible_path NotConnected (first2 # connects2)))"
    by (simp add: visible_path_def split: grpc_client_state.splits)
  then show "passes (external_to_inprocess_and_back first1 connects1 first2 connects2) \<longleftrightarrow> to_cnc_client_state first2 = NotConnected"
    using assms(5,6)
    by (cases "to_cnc_client_state first2")
      (auto simp: passes_view external_to_inprocess_and_back_def first_view_def test_phases connects_path_def
        simp del: view_test.simps(2))
  then show "passes (external_to_inprocess_and_back_again first1 connects1 first2 connects2) \<longleftrightarrow> to_cnc_client_state first2 = NotConnected"
    by (simp add: external_to_inprocess_and_back_again_def external_to_inprocess_and_back_def)
qed

section \<open>Witness\<close>

theorem grpc_client_tests_pass_witness:
  "passes (delayed_server Idle [Connecting, TransientFailure] [Connecting, Ready] [Idle, Connecting])
     \<and> passes (external_to_inprocess_and_back Idle [Connecting, Ready] Idle [Connecting, Ready])"
proof -
  have "visible_path NotConnected [Idle, Connecting, TransientFailure] = [AttemptingToConnect]" "visible_path AttemptingToConnect [] = []"
    "visible_path AttemptingToConnect [Connecting, Ready] = [Connected]"
    "visible_path Connected [Idle, Connecting] = [NotConnected, AttemptingToConnect]"
    "visible_path NotConnected [Idle, Connecting, Ready] \<in> connects_path"
    by (simp_all add: visible_path_def connects_path_def)
  from grpc_client_tests_pass [OF this(1-4) this(5,5,5)] show ?thesis by simp
qed

end
