(* ===== verification/Grpcw_Server_Tests.thy ===== *)
theory Grpcw_Server_Tests
  imports Grpc_Server Grpc_Client_Stream
begin

text \<open>
  The tests of \<open>GrpcServer\<close> (src/testing/grpcw/server/grpc_server_tests.cpp) and of \<open>TestServer\<close>
  (src/testing/test_server.cpp) with the service they call (test_service.cpp), and the tests of the
  states of a client (grpcw/client/grpc_client_state_tests.cpp and the first of grpc_client_tests.cpp).

  A test case is the list of what its main thread still has to do. Beside it run the thread in which
  the server runs and the one that serves the call. Of gRPC the model takes what its documentation
  says. A call blocks until the service has answered. \<open>Write\<close> blocks while \<open>window\<close> messages are on their
  way, and fails once the server knows of a cancellation, as \<open>IsCancelled\<close> then says. \<open>TryCancel\<close> tells
  the server after some time. \<open>Read\<close> gives the next message; it fails if there is none and the service
  has answered, and may fail at any time once the call has been cancelled. The status of a cancelled
  call is \<open>StatusCancelled\<close>, whatever the service answers.
\<close>

section \<open>The service\<close>

record test_message =
  msg :: string

datatype grpc_status = StatusOK | StatusCancelled

datatype test_service = TestService

definition echo :: "test_message \<Rightarrow> test_message \<Rightarrow> grpc_status \<times> test_message" where
  "echo request response = (StatusOK, request)"

text \<open>
  \<open>endless_echo_stream\<close> is at its \<open>Write\<close>, or at the test that follows. A step gets the answer of gRPC,
  and is the next place, or the status returned.
\<close>

datatype echo_pc = AtWrite | AtCheck

fun endless_echo_stream :: "bool \<Rightarrow> echo_pc \<Rightarrow> grpc_status + echo_pc" where
  "endless_echo_stream written AtWrite = (if written then Inr AtCheck else Inl StatusOK)"
| "endless_echo_stream is_cancelled AtCheck = (if is_cancelled then Inl StatusCancelled else Inr AtWrite)"

section \<open>TestServer\<close>

record test_server =
  hosted :: "test_service grpc_server"
  host_thread :: thread_state

definition new_test_server :: "bool \<Rightarrow> string \<Rightarrow> test_server \<times> test_service builder_call list" where
  "new_test_server starts server_address =
     (let (s, bs) = new_grpc_server starts TestService server_address
      in (\<lparr>hosted = s, host_thread = Running\<rparr>, bs))"

definition inprocess_channel :: "'args \<Rightarrow> test_server \<Rightarrow> server_error + 'args channel" where
  "inprocess_channel channel_arguments s = in_process_channel channel_arguments (hosted s)"

section \<open>The test cases\<close>

text \<open>
  The loop over the stream: the first \<open>Read\<close>, and then in turn the checks at the head of the loop, the
  \<open>Read\<close> in it, and what follows it.
\<close>

datatype loop_pc = FirstRead | LoopHead nat | LoopRead nat | AfterRead nat | LoopLeft

datatype test_stmt =
    InProcess
  | CallEcho test_message
  | AwaitEcho
  | CallStream test_message
  | EchoLoop test_message loop_pc
  | CheckOk
  | CheckNotOk
  | CheckMsg string
  | ShutdownBy
  | ShutdownNow
  | ShutdownWait
  | JoinRun

text \<open>
  \<open>AwaitEcho\<close> is the rest of a synchronous call. \<open>ShutdownNow\<close> is \<open>shutdown\<close> without a deadline, which then waits for the calls in
  \<open>ShutdownWait\<close>.
\<close>

definition test_server_destructor :: "test_stmt list" where
  "test_server_destructor = [ShutdownNow, JoinRun]"

definition test_msg :: string where
  "test_msg = ''a1, 23kqv9 !F(VMas3982fj!#!#+(*@)(a assdaf;le 1342 asdw32nm''"

definition echo_checks :: "test_stmt list" where
  "echo_checks = [CallEcho \<lparr>msg = test_msg\<rparr>, CheckOk, CheckMsg test_msg]"

definition run_server_and_check_echo_rpc_call :: "test_stmt list" where
  "run_server_and_check_echo_rpc_call = echo_checks @ [ShutdownBy, JoinRun]"

definition run_inprocess_server_and_check_echo_rpc_call :: "test_stmt list" where
  "run_inprocess_server_and_check_echo_rpc_call = InProcess # echo_checks @ [ShutdownNow, JoinRun]"

definition run_test_server_and_check_echo_rpc_call :: "test_stmt list" where
  "run_test_server_and_check_echo_rpc_call = echo_checks @ test_server_destructor"

definition run_inprocess_test_server_and_check_echo_rpc_call :: "test_stmt list" where
  "run_inprocess_test_server_and_check_echo_rpc_call = InProcess # echo_checks @ test_server_destructor"

definition run_test_server_and_check_echo_streaming_rpc_call :: "test_stmt list" where
  "run_test_server_and_check_echo_streaming_rpc_call =
     [CallStream \<lparr>msg = test_msg\<rparr>, EchoLoop \<lparr>msg = test_msg\<rparr> FirstRead, CheckNotOk] @ test_server_destructor"

definition server_tests :: "test_stmt list list" where
  "server_tests = [run_server_and_check_echo_rpc_call, run_inprocess_server_and_check_echo_rpc_call,
     run_test_server_and_check_echo_rpc_call, run_inprocess_test_server_and_check_echo_rpc_call,
     run_test_server_and_check_echo_streaming_rpc_call]"

section \<open>A test case as it runs\<close>

datatype serving = ServingEcho test_message | ServingStream test_message echo_pc

datatype cancellation = NotCancelled | CancelSent | CancelKnown

record server_test =
  svr :: test_server
  serving :: "serving option"
  pipe :: "test_message list"
  cancel :: cancellation
  answer :: grpc_status
  reply :: grpc_status
  response :: test_message
  checks :: "bool list"
  program :: "test_stmt list"

text \<open>The server's address is free, so that \<open>BuildAndStart\<close> succeeds.\<close>

definition test_begins :: "string \<Rightarrow> test_stmt list \<Rightarrow> server_test" where
  "test_begins server_address p =
     \<lparr>svr = fst (new_test_server True server_address), serving = None, pipe = [], cancel = NotCancelled,
      answer = StatusOK, reply = StatusOK, response = \<lparr>msg = []\<rparr>, checks = [], program = p\<rparr>"

definition change_calls :: "(nat \<Rightarrow> nat) \<Rightarrow> server_test \<Rightarrow> server_test" where
  "change_calls f s =
     s\<lparr>svr := (svr s)\<lparr>hosted := (hosted (svr s))\<lparr>server :=
        map_option (\<lambda>g. g\<lparr>calls := f (calls g)\<rparr>) (server (hosted (svr s)))\<rparr>\<rparr>\<rparr>"

definition accepting :: "server_test \<Rightarrow> bool" where
  "accepting s = (case server (hosted (svr s)) of None \<Rightarrow> False | Some g \<Rightarrow> \<not> down g)"

text \<open>A call reaches the service, and is answered.\<close>

definition begin_call :: "serving \<Rightarrow> server_test \<Rightarrow> server_test" where
  "begin_call c s = change_calls Suc (s\<lparr>serving := Some c\<rparr>)"

definition end_call :: "server_test \<Rightarrow> server_test" where
  "end_call s = change_calls (\<lambda>n. n - 1) (s\<lparr>serving := None\<rparr>)"

definition set_hosted :: "test_service grpc_server \<Rightarrow> server_test \<Rightarrow> server_test" where
  "set_hosted g s = s\<lparr>svr := (svr s)\<lparr>hosted := g\<rparr>\<rparr>"

text \<open>One turn of the loop of the streaming test. \<open>given\<close>: whether \<open>Read\<close> gets a message.\<close>

fun loop_turn :: "bool \<Rightarrow> test_message \<Rightarrow> loop_pc \<Rightarrow> server_test \<Rightarrow> loop_pc \<times> server_test" where
  "loop_turn given request FirstRead s =
     (LoopHead 0, if given then s\<lparr>response := hd (pipe s), pipe := tl (pipe s)\<rparr> else s)"
| "loop_turn given request (LoopHead i) s =
     (if i < 1000000
      then
        (let s1 = s\<lparr>checks := checks s @ [request = response s, msg (response s) = test_msg], response := \<lparr>msg = []\<rparr>\<rparr>
         in (LoopRead i, s1\<lparr>checks := checks s1 @ [msg (response s1) = []]\<rparr>))
      else (LoopLeft, s))"
| "loop_turn given request (LoopRead i) s =
     (if given then (AfterRead i, s\<lparr>response := hd (pipe s), pipe := tl (pipe s)\<rparr>) else (LoopLeft, s))"
| "loop_turn given request (AfterRead i) s =
     (LoopHead (Suc i), if i = 500 \<and> cancel s = NotCancelled then s\<lparr>cancel := CancelSent\<rparr> else s)"
| "loop_turn given request LoopLeft s = (LoopLeft, s)"

text \<open>What \<open>Read\<close> can answer.\<close>

definition read_answers :: "bool \<Rightarrow> server_test \<Rightarrow> bool" where
  "read_answers given s =
     (if given then pipe s \<noteq> [] else pipe s = [] \<and> serving s = None \<or> cancel s \<noteq> NotCancelled)"

fun loop_reads :: "loop_pc \<Rightarrow> bool" where
  "loop_reads FirstRead = True"
| "loop_reads (LoopRead i) = True"
| "loop_reads place = False"

text \<open>The main thread; \<open>None\<close>: it waits.\<close>

fun main_turn :: "bool \<Rightarrow> server_test \<Rightarrow> (server_error + server_test) option" where
  "main_turn given s =
     (case program s of
        [] \<Rightarrow> None
      | InProcess # p \<Rightarrow> Some (map_sum id (\<lambda>c. s\<lparr>program := p\<rparr>) (inprocess_channel () (svr s)))
      | CallEcho m # p \<Rightarrow>
          if accepting s then Some (Inr (begin_call (ServingEcho m) (s\<lparr>program := AwaitEcho # p\<rparr>))) else None
      | AwaitEcho # p \<Rightarrow> if serving s = None then Some (Inr (s\<lparr>program := p\<rparr>)) else None
      | CallStream m # p \<Rightarrow>
          if accepting s then Some (Inr (begin_call (ServingStream m AtWrite) (s\<lparr>program := p\<rparr>))) else None
      | EchoLoop m place # p \<Rightarrow>
          if place = LoopLeft then
            (if cancel s \<noteq> NotCancelled then Some (Inr (s\<lparr>reply := StatusCancelled, program := p\<rparr>))
             else if serving s = None then Some (Inr (s\<lparr>reply := answer s, program := p\<rparr>)) else None)
          else if loop_reads place \<and> \<not> read_answers given s then None
          else Some (Inr (let (place', s') = loop_turn given m place s in s'\<lparr>program := EchoLoop m place' # p\<rparr>))
      | CheckOk # p \<Rightarrow> Some (Inr (s\<lparr>checks := checks s @ [reply s = StatusOK], program := p\<rparr>))
      | CheckNotOk # p \<Rightarrow> Some (Inr (s\<lparr>checks := checks s @ [reply s \<noteq> StatusOK], program := p\<rparr>))
      | CheckMsg t # p \<Rightarrow> Some (Inr (s\<lparr>checks := checks s @ [msg (response s) = t], program := p\<rparr>))
      | ShutdownBy # p \<Rightarrow>
          Some (map_sum id (\<lambda>g. (set_hosted g s)\<lparr>program := p\<rparr>) (server_shutdown_deadline (hosted (svr s))))
      | ShutdownNow # p \<Rightarrow>
          Some (map_sum id (\<lambda>g. (set_hosted g s)\<lparr>program := ShutdownWait # p\<rparr>) (begin_shutdown (hosted (svr s))))
      | ShutdownWait # p \<Rightarrow>
          map_option (map_sum id (\<lambda>g. (set_hosted g s)\<lparr>program := p\<rparr>)) (server_shutdown (hosted (svr s)))
      | JoinRun # p \<Rightarrow>
          if host_thread (svr s) = Returned
          then Some (Inr (s\<lparr>svr := (svr s)\<lparr>host_thread := Joined\<rparr>, program := p\<rparr>)) else None)"

text \<open>The thread that runs the server, and the one that serves the call.\<close>

definition host_turn :: "server_test \<Rightarrow> (server_error + server_test) option" where
  "host_turn s =
     (if host_thread (svr s) = Running
      then map_option (map_sum id (\<lambda>_. s\<lparr>svr := (svr s)\<lparr>host_thread := Returned\<rparr>\<rparr>)) (server_run (hosted (svr s)))
      else None)"

definition service_turn :: "nat \<Rightarrow> server_test \<Rightarrow> server_test option" where
  "service_turn window s =
     (case serving s of
        None \<Rightarrow> None
      | Some (ServingEcho m) \<Rightarrow>
          (let (st, r) = echo m (response s)
           in Some (end_call (s\<lparr>reply := st, response := r\<rparr>)))
      | Some (ServingStream m AtWrite) \<Rightarrow>
          if cancel s \<noteq> CancelKnown \<and> window \<le> length (pipe s) then None
          else
            (let written = (cancel s \<noteq> CancelKnown);
                 s' = (if written then s\<lparr>pipe := pipe s @ [m]\<rparr> else s)
             in case endless_echo_stream written AtWrite of
                  Inl st \<Rightarrow> Some (end_call (s'\<lparr>answer := st\<rparr>))
                | Inr place \<Rightarrow> Some (s'\<lparr>serving := Some (ServingStream m place)\<rparr>))
      | Some (ServingStream m AtCheck) \<Rightarrow>
          (case endless_echo_stream (cancel s = CancelKnown) AtCheck of
             Inl st \<Rightarrow> Some (end_call (s\<lparr>answer := st\<rparr>))
           | Inr place \<Rightarrow> Some (s\<lparr>serving := Some (ServingStream m place)\<rparr>)))"

inductive test_step :: "nat \<Rightarrow> server_test \<Rightarrow> server_error + server_test \<Rightarrow> bool" for window where
  main_step: "main_turn given s = Some r \<Longrightarrow> test_step window s r"
| host_step: "host_turn s = Some r \<Longrightarrow> test_step window s r"
| service_step: "service_turn window s = Some s' \<Longrightarrow> test_step window s (Inr s')"
| cancel_arrives: "cancel s = CancelSent \<Longrightarrow> test_step window s (Inr (s\<lparr>cancel := CancelKnown\<rparr>))"

inductive test_reaches :: "nat \<Rightarrow> server_test \<Rightarrow> server_test \<Rightarrow> bool" for window where
  reaches_refl: "test_reaches window s s"
| reaches_step: "test_reaches window s t \<Longrightarrow> test_step window t (Inr u) \<Longrightarrow> test_reaches window s u"

section \<open>Tests without a server\<close>

definition echo_service_echos :: "bool list" where
  "echo_service_echos =
     (let message = ''01234aBcDeFgHiJkLmNoPqRsTuVwXyZ56789'';
          request = \<lparr>msg = message\<rparr>;
          (status, response) = echo request \<lparr>msg = []\<rparr>
      in [msg request = message, response = request])"

text \<open>Each subcase writes to a stream of its own.\<close>

definition client_state_string_tests :: "bool list" where
  "client_state_string_tests =
     [print_client_state [] (state_value NotConnected) = Inr ''not_connected'',
      print_client_state [] (state_value AttemptingToConnect) = Inr ''attempting_to_connect'',
      print_client_state [] (state_value Connected) = Inr ''connected'',
      (case print_client_state [] (- 1) of Inl (InvalidArgument what) \<Rightarrow> True | Inr os \<Rightarrow> False)]"

definition connectivity_tests :: "bool list" where
  "connectivity_tests =
     [to_cnc_client_state_of (Some Connecting) = Inr AttemptingToConnect,
      to_cnc_client_state_of (Some Idle) = Inr NotConnected,
      to_cnc_client_state_of (Some Ready) = Inr Connected,
      to_cnc_client_state_of (Some Shutdown) = Inr NotConnected,
      to_cnc_client_state_of (Some TransientFailure) = Inr AttemptingToConnect,
      (case to_cnc_client_state_of None of Inl (InvalidArgument what) \<Rightarrow> True | Inr state \<Rightarrow> False)]"

theorem tests_without_server_pass:
  "False \<notin> set echo_service_echos \<and> False \<notin> set client_state_string_tests \<and> False \<notin> set connectivity_tests"
  by (simp add: echo_service_echos_def echo_def client_state_string_tests_def print_client_state_def to_string_def
      connectivity_tests_def)

end
