(* ===== verification/Grpcw_Server_Tests_Pass.thy ===== *)
theory Grpcw_Server_Tests_Pass
  imports Grpcw_Server_Tests
begin

text \<open>
  The test cases of Grpcw_Server_Tests under every schedule: an invariant for each statement of the main
  thread, that some thread can always go on, and a bound on the work left, \<open>work_left\<close>. It counts
  what is left of the loop of the streaming test, whose length is bounded, and the messages the
  service can still write before it has to wait for a read.
\<close>

section \<open>What holds throughout\<close>

definition calls_now :: "server_test \<Rightarrow> nat" where
  "calls_now s = (if serving s = None then 0 else 1)"

definition serves :: "bool \<Rightarrow> server_test \<Rightarrow> bool" where
  "serves d s \<longleftrightarrow> server (hosted (svr s)) = Some \<lparr>down = d, calls = calls_now s\<rparr>"

text \<open>The stream: every message on its way is the request, and the service ends it only when it is cancelled.\<close>

definition stream_part :: "server_test \<Rightarrow> bool" where
  "stream_part s \<longleftrightarrow> set (pipe s) \<subseteq> {\<lparr>msg = test_msg\<rparr>}
     \<and> (\<forall>m place. serving s = Some (ServingStream m place) \<longrightarrow> m = \<lparr>msg = test_msg\<rparr>)
     \<and> (\<forall>m. serving s \<noteq> Some (ServingEcho m))"

fun loop_part :: "loop_pc \<Rightarrow> server_test \<Rightarrow> bool" where
  "loop_part FirstRead s = (cancel s = NotCancelled)"
| "loop_part (LoopHead i) s = (i \<le> 1000000 \<and> response s = \<lparr>msg = test_msg\<rparr> \<and> (500 < i \<longrightarrow> cancel s \<noteq> NotCancelled))"
| "loop_part (LoopRead i) s = (i < 1000000 \<and> (500 < i \<longrightarrow> cancel s \<noteq> NotCancelled))"
| "loop_part (AfterRead i) s =
     (i < 1000000 \<and> response s = \<lparr>msg = test_msg\<rparr> \<and> (500 < i \<longrightarrow> cancel s \<noteq> NotCancelled))"
| "loop_part LoopLeft s = (cancel s \<noteq> NotCancelled)"

fun at_statement :: "test_stmt list \<Rightarrow> server_test \<Rightarrow> bool" where
  "at_statement [] s = (checks s \<noteq> [] \<and> host_thread (svr s) = Joined \<and> serves True s \<and> serving s = None)"
| "at_statement (InProcess # p) s =
     (serves False s \<and> serving s = None
      \<and> p \<in> {echo_checks @ [ShutdownNow, JoinRun], echo_checks @ [ShutdownBy, JoinRun]})"
| "at_statement (CallEcho m # p) s = (serves False s \<and> serving s = None
      \<and> CallEcho m # p \<in> {echo_checks @ [ShutdownNow, JoinRun], echo_checks @ [ShutdownBy, JoinRun]})"
| "at_statement (AwaitEcho # p) s = (serves False s
      \<and> (serving s = Some (ServingEcho \<lparr>msg = test_msg\<rparr>)
         \<or> serving s = None \<and> reply s = StatusOK \<and> response s = \<lparr>msg = test_msg\<rparr>)
      \<and> p \<in> {[CheckOk, CheckMsg test_msg, ShutdownNow, JoinRun], [CheckOk, CheckMsg test_msg, ShutdownBy, JoinRun]})"
| "at_statement (CheckOk # p) s = (serves False s \<and> serving s = None \<and> reply s = StatusOK \<and> response s = \<lparr>msg = test_msg\<rparr>
      \<and> p \<in> {[CheckMsg test_msg, ShutdownNow, JoinRun], [CheckMsg test_msg, ShutdownBy, JoinRun]})"
| "at_statement (CheckMsg t # p) s = (checks s \<noteq> [] \<and> serves False s \<and> serving s = None \<and> msg (response s) = t
      \<and> p \<in> {[ShutdownNow, JoinRun], [ShutdownBy, JoinRun]})"
| "at_statement (CallStream m # p) s = (serves False s \<and> serving s = None \<and> pipe s = [] \<and> cancel s = NotCancelled
      \<and> m = \<lparr>msg = test_msg\<rparr> \<and> p = [EchoLoop m FirstRead, CheckNotOk, ShutdownNow, JoinRun])"
| "at_statement (EchoLoop m place # p) s = (serves False s \<and> stream_part s \<and> loop_part place s
      \<and> (serving s = None \<longrightarrow> cancel s = CancelKnown)
      \<and> m = \<lparr>msg = test_msg\<rparr> \<and> p = [CheckNotOk, ShutdownNow, JoinRun])"
| "at_statement (CheckNotOk # p) s = (serves False s \<and> stream_part s \<and> cancel s \<noteq> NotCancelled \<and> reply s = StatusCancelled
      \<and> p = [ShutdownNow, JoinRun])"
| "at_statement (ShutdownBy # p) s = (checks s \<noteq> [] \<and> serves False s \<and> serving s = None \<and> p = [JoinRun])"
| "at_statement (ShutdownNow # p) s = (checks s \<noteq> [] \<and> serves False s
      \<and> (serving s \<noteq> None \<longrightarrow> stream_part s \<and> cancel s \<noteq> NotCancelled) \<and> p = [JoinRun])"
| "at_statement (ShutdownWait # p) s = (checks s \<noteq> [] \<and> serves True s
      \<and> (serving s \<noteq> None \<longrightarrow> stream_part s \<and> cancel s \<noteq> NotCancelled) \<and> p = [JoinRun])"
| "at_statement (JoinRun # p) s = (checks s \<noteq> [] \<and> serves True s \<and> serving s = None \<and> p = [])"

definition test_inv :: "server_test \<Rightarrow> bool" where
  "test_inv s \<longleftrightarrow> at_statement (program s) s \<and> False \<notin> set (checks s)
     \<and> host_thread (svr s) \<in> (if program s = [] then {Joined} else {Running, Returned})
     \<and> (host_thread (svr s) \<noteq> Running \<longrightarrow> serves True s \<and> serving s = None)"

lemma serves_simps [simp]:
  "serves d (s\<lparr>program := p\<rparr>) = serves d s" "serves d (s\<lparr>checks := cs\<rparr>) = serves d s"
  "serves d (s\<lparr>reply := st\<rparr>) = serves d s" "serves d (s\<lparr>response := r\<rparr>) = serves d s"
  "serves d (s\<lparr>answer := st\<rparr>) = serves d s" "serves d (s\<lparr>pipe := ms\<rparr>) = serves d s"
  "serves d (s\<lparr>cancel := c\<rparr>) = serves d s"
  "serves d (s\<lparr>svr := (svr s)\<lparr>host_thread := h\<rparr>\<rparr>) = serves d s"
  by (simp_all add: serves_def calls_now_def)

lemma stream_part_simps [simp]:
  "stream_part (s\<lparr>program := p\<rparr>) = stream_part s" "stream_part (s\<lparr>checks := cs\<rparr>) = stream_part s"
  "stream_part (s\<lparr>reply := st\<rparr>) = stream_part s" "stream_part (s\<lparr>response := r\<rparr>) = stream_part s"
  "stream_part (s\<lparr>answer := st\<rparr>) = stream_part s" "stream_part (s\<lparr>cancel := c\<rparr>) = stream_part s"
  "stream_part (s\<lparr>svr := v\<rparr>) = stream_part s"
  by (simp_all add: stream_part_def)

lemma serves_begin [simp]: "serves False s \<Longrightarrow> serving s = None \<Longrightarrow> serves False (begin_call c s)"
  by (simp add: serves_def begin_call_def change_calls_def calls_now_def)

lemma serves_end [simp]: "serves d s \<Longrightarrow> serving s \<noteq> None \<Longrightarrow> serves d (end_call s)"
  by (simp add: serves_def end_call_def change_calls_def calls_now_def)

lemma begin_call_simps [simp]:
  "serving (begin_call c s) = Some c" "program (begin_call c s) = program s" "pipe (begin_call c s) = pipe s"
  "cancel (begin_call c s) = cancel s" "checks (begin_call c s) = checks s"
  "host_thread (svr (begin_call c s)) = host_thread (svr s)"
  by (simp_all add: begin_call_def change_calls_def)

lemma end_call_simps [simp]:
  "serving (end_call s) = None" "program (end_call s) = program s" "pipe (end_call s) = pipe s"
  "cancel (end_call s) = cancel s" "checks (end_call s) = checks s" "reply (end_call s) = reply s"
  "response (end_call s) = response s"
  "host_thread (svr (end_call s)) = host_thread (svr s)"
  by (simp_all add: end_call_def change_calls_def)

lemma serves_accepting [simp]: "serves d s \<Longrightarrow> accepting s = (\<not> d)"
  by (simp add: serves_def accepting_def)

lemma serves_begin_shutdown:
  "serves d s \<Longrightarrow> \<exists>g. begin_shutdown (hosted (svr s)) = Inr g \<and> serves True (set_hosted g s)"
  by (auto simp: serves_def begin_shutdown_def set_hosted_def calls_now_def)

lemma serves_shutdown_deadline:
  "serves d s \<Longrightarrow> serving s = None \<Longrightarrow>
     \<exists>g. server_shutdown_deadline (hosted (svr s)) = Inr g \<and> serves True (set_hosted g s)"
  by (auto simp: serves_def server_shutdown_deadline_def begin_shutdown_def set_hosted_def calls_now_def)

lemma serves_shutdown:
  "serves True s \<Longrightarrow> \<exists>g. server_shutdown (hosted (svr s)) = (if serving s = None then Some (Inr g) else None)
     \<and> serves True (set_hosted g s)"
  by (auto simp: serves_def server_shutdown_def begin_shutdown_def set_hosted_def calls_now_def)

lemma set_hosted_simps [simp]:
  "serving (set_hosted g s) = serving s" "program (set_hosted g s) = program s" "pipe (set_hosted g s) = pipe s"
  "cancel (set_hosted g s) = cancel s" "checks (set_hosted g s) = checks s"
  "host_thread (svr (set_hosted g s)) = host_thread (svr s)" "stream_part (set_hosted g s) = stream_part s"
  by (simp_all add: set_hosted_def)

lemma serves_not_down [simp]: "serves False s \<Longrightarrow> \<not> serves True s" 
  by (simp add: serves_def)

lemma stream_read:
  "stream_part s \<Longrightarrow> pipe s \<noteq> [] \<Longrightarrow>
     hd (pipe s) = \<lparr>msg = test_msg\<rparr> \<and> stream_part (s\<lparr>response := r, pipe := tl (pipe s)\<rparr>)"
  by (cases "pipe s") (auto simp: stream_part_def)

text \<open>A turn of the loop, if \<open>Read\<close> can answer so.\<close>

lemma loop_turn_inv:
  assumes "loop_part place s" and "stream_part s" and "serving s = None \<longrightarrow> cancel s = CancelKnown"
    and "loop_reads place \<longrightarrow> read_answers given s" and "serves False s" and "False \<notin> set (checks s)"
    and "loop_turn given \<lparr>msg = test_msg\<rparr> place s = (place', s')"
  shows "loop_part place' s'" and "stream_part s'" and "serving s' = None \<longrightarrow> cancel s' = CancelKnown"
    and "serves False s'" and "False \<notin> set (checks s')" and "host_thread (svr s') = host_thread (svr s)"
  using assms stream_read [OF assms(2)]
  by (cases place; auto simp: read_answers_def split: if_splits)+

lemma main_turn_inv:
  assumes inv: "test_inv s" and turn: "main_turn given s = Some r"
  shows "\<exists>t. r = Inr t \<and> test_inv t"
proof (cases "program s")
  case Nil
  with turn show ?thesis by simp
next
  case (Cons stmt p)
  show ?thesis
  proof (cases stmt)
    case InProcess
    with Cons inv turn show ?thesis
      by (auto simp: test_inv_def inprocess_channel_def in_process_channel_def serves_def echo_checks_def calls_now_def)
  next
    case (CallEcho m)
    with Cons inv turn show ?thesis
      by (auto simp: test_inv_def echo_checks_def split: if_splits)
  next
    case AwaitEcho
    with Cons inv turn show ?thesis
      by (auto simp: test_inv_def split: if_splits)
  next
    case (CallStream m)
    with Cons inv turn show ?thesis
      by (auto simp: test_inv_def stream_part_def split: if_splits)
  next
    case (EchoLoop m place)
    with Cons inv have at: "m = \<lparr>msg = test_msg\<rparr>" "p = [CheckNotOk, ShutdownNow, JoinRun]" "serves False s"
      "stream_part s" "loop_part place s" "serving s = None \<longrightarrow> cancel s = CancelKnown" "False \<notin> set (checks s)"
      "host_thread (svr s) = Running"
      by (auto simp: test_inv_def)
    show ?thesis
    proof (cases "place = LoopLeft")
      case True
      with Cons EchoLoop at turn show ?thesis by (auto simp: test_inv_def split: if_splits)
    next
      case False
      obtain place' s' where l: "loop_turn given m place s = (place', s')" by (rule prod.exhaust)
      with Cons EchoLoop False turn have r: "loop_reads place \<longrightarrow> read_answers given s"
        "r = Inr (s'\<lparr>program := EchoLoop m place' # p\<rparr>)"
        by (auto split: if_splits)
      note t = loop_turn_inv [OF at(5,4,6) r(1) at(3,7) l [unfolded at(1)]]
      have "loop_part place' (s'\<lparr>program := q\<rparr>) = loop_part place' s'" for q by (cases place') auto
      with r(2) t at show ?thesis by (auto simp: test_inv_def)
    qed
  next
    case ShutdownBy
    with Cons inv have "serves False s" "serving s = None" by (simp_all add: test_inv_def)
    from serves_shutdown_deadline [OF this] Cons ShutdownBy inv turn show ?thesis
      by (auto simp: test_inv_def)
  next
    case ShutdownNow
    with Cons inv have "serves False s" by (simp add: test_inv_def)
    from serves_begin_shutdown [OF this] Cons ShutdownNow inv turn show ?thesis
      by (auto simp: test_inv_def)
  next
    case ShutdownWait
    with Cons inv have "serves True s" by (simp add: test_inv_def)
    from serves_shutdown [OF this] Cons ShutdownWait inv turn show ?thesis
      by (auto simp: test_inv_def split: if_splits)
  next
    case JoinRun
    with Cons inv turn show ?thesis
      by (auto simp: test_inv_def split: if_splits)
  qed (use Cons inv turn in \<open>auto simp: test_inv_def\<close>)
qed


lemma at_statement_serves: "at_statement p s \<Longrightarrow> \<exists>d. serves d s"
  by (cases "(p, s)" rule: at_statement.cases) auto

lemma at_statement_host:
  "at_statement p s \<Longrightarrow> p \<noteq> [] \<Longrightarrow> at_statement p (s\<lparr>svr := (svr s)\<lparr>host_thread := h\<rparr>\<rparr>)"
proof (cases "(p, s)" rule: at_statement.cases)
  case (8 m place q sa)
  moreover have "loop_part place (s\<lparr>svr := v\<rparr>) = loop_part place s" for v by (cases place) auto
  ultimately show "at_statement p s \<Longrightarrow> p \<noteq> [] \<Longrightarrow> ?thesis" by auto
qed auto

lemma serves_run: "serves d s \<Longrightarrow> server_run (hosted (svr s)) = (if d \<and> serving s = None then Some (Inr ()) else None)"
  by (simp add: serves_def server_run_def calls_now_def)

lemma host_turn_inv:
  assumes inv: "test_inv s" and turn: "host_turn s = Some r"
  shows "\<exists>t. r = Inr t \<and> test_inv t"
proof -
  from inv obtain d where d: "serves d s" by (auto simp: test_inv_def dest: at_statement_serves)
  from turn have run: "host_thread (svr s) = Running" by (simp add: host_turn_def split: if_splits)
  with inv have "program s \<noteq> []" by (auto simp: test_inv_def)
  with inv have "at_statement (program s) (s\<lparr>svr := (svr s)\<lparr>host_thread := Returned\<rparr>\<rparr>)"
    by (intro at_statement_host) (simp_all add: test_inv_def)
  moreover from turn run d have "d" "serving s = None" "r = Inr (s\<lparr>svr := (svr s)\<lparr>host_thread := Returned\<rparr>\<rparr>)"
    by (auto simp: host_turn_def serves_run split: if_splits)
  ultimately show ?thesis using inv d \<open>program s \<noteq> []\<close> by (simp add: test_inv_def)
qed

lemma cancel_inv:
  assumes "test_inv s" and "cancel s = CancelSent"
  shows "test_inv (s\<lparr>cancel := CancelKnown\<rparr>)"
proof -
  have loop: "loop_part place s \<Longrightarrow> loop_part place (s\<lparr>cancel := CancelKnown\<rparr>)" for place
    using assms(2) by (cases place) auto
  have "at_statement p s \<Longrightarrow> at_statement p (s\<lparr>cancel := CancelKnown\<rparr>)" for p
    using assms(2) by (cases "(p, s)" rule: at_statement.cases) (auto intro: loop)
  with assms(1) show ?thesis by (simp add: test_inv_def)
qed

text \<open>The statements at which a call may be under way.\<close>

lemma at_echo:
  "at_statement p s \<Longrightarrow> serving s = Some (ServingEcho m) \<Longrightarrow> \<exists>q. p = AwaitEcho # q"
  by (cases "(p, s)" rule: at_statement.cases) (auto simp: stream_part_def)

lemma at_stream:
  "at_statement p s \<Longrightarrow> serving s = Some (ServingStream m place) \<Longrightarrow>
     stream_part s \<and> ((\<exists>m place. p = [EchoLoop m place, CheckNotOk, ShutdownNow, JoinRun])
       \<or> p = [CheckNotOk, ShutdownNow, JoinRun] \<or> p = [ShutdownNow, JoinRun] \<or> p = [ShutdownWait, JoinRun])"
  by (cases "(p, s)" rule: at_statement.cases) auto

text \<open>The stream goes on, or is ended because it is cancelled.\<close>

lemma stream_goes_on:
  assumes "at_statement p s" and "serving s = Some (ServingStream m place)" and "set ms \<subseteq> {\<lparr>msg = test_msg\<rparr>}"
  shows "at_statement p (s\<lparr>pipe := ms, serving := Some (ServingStream m place')\<rparr>)"
proof -
  let ?t = "s\<lparr>pipe := ms, serving := Some (ServingStream m place')\<rparr>"
  from at_stream [OF assms(1,2)] have "stream_part s" by blast
  with assms(2,3) have "stream_part ?t" by (simp add: stream_part_def)
  moreover have "serves d ?t = serves d s" for d using assms(2) by (simp add: serves_def calls_now_def)
  moreover have "loop_part l s \<Longrightarrow> loop_part l ?t" for l by (cases l) auto
  ultimately show ?thesis using at_stream [OF assms(1,2)] assms(1,2) by auto
qed

lemma stream_ends:
  assumes "at_statement p s" and "serving s = Some (ServingStream m place)" and "cancel s = CancelKnown"
  shows "at_statement p (end_call (s\<lparr>answer := st\<rparr>))"
proof -
  let ?t = "end_call (s\<lparr>answer := st\<rparr>)"
  from at_stream [OF assms(1,2)] have "stream_part s" by blast
  with assms(2,3) have "stream_part ?t" by (simp add: stream_part_def)
  moreover have "serves d s \<Longrightarrow> serves d ?t" for d using assms(2) by simp
  moreover have "loop_part l s \<Longrightarrow> loop_part l ?t" for l by (cases l) auto
  ultimately show ?thesis using at_stream [OF assms(1,2)] assms by auto
qed

lemma service_turn_inv:
  assumes inv: "test_inv s" and turn: "service_turn window s = Some t"
  shows "test_inv t"
proof -
  from inv turn have at: "at_statement (program s) s" and run: "host_thread (svr s) = Running" "program s \<noteq> []"
    by (auto simp: test_inv_def service_turn_def)
  from turn consider (echo) m where "serving s = Some (ServingEcho m)"
    | (writing) m where "serving s = Some (ServingStream m AtWrite)"
    | (check) m where "serving s = Some (ServingStream m AtCheck)"
    by (auto simp: service_turn_def split: option.splits serving.splits echo_pc.splits)
  then show ?thesis
  proof cases
    case echo
    with at_echo [OF at echo] at turn inv run show ?thesis
      by (auto simp: service_turn_def echo_def test_inv_def)
  next
    case writing
    from at_stream [OF at writing] writing have sp: "set (pipe s) \<subseteq> {\<lparr>msg = test_msg\<rparr>}" "m = \<lparr>msg = test_msg\<rparr>"
      by (auto simp: stream_part_def)
    with turn writing stream_goes_on [OF at writing, of "pipe s @ [m]" AtCheck] stream_ends [OF at writing]
      inv run show ?thesis
      by (auto simp: service_turn_def test_inv_def Let_def split: if_splits)
  next
    case check
    from at_stream [OF at check] have sp: "set (pipe s) \<subseteq> {\<lparr>msg = test_msg\<rparr>}"
      by (auto simp: stream_part_def)
    with turn check stream_goes_on [OF at check, of "pipe s" AtWrite] stream_ends [OF at check]
      inv run show ?thesis
      by (auto simp: service_turn_def test_inv_def split: if_splits)
  qed
qed


lemma test_step_inv: "test_step window s r \<Longrightarrow> test_inv s \<Longrightarrow> \<exists>t. r = Inr t \<and> test_inv t"
  by (induction rule: test_step.induct)
    (auto intro: main_turn_inv host_turn_inv service_turn_inv cancel_inv)

lemma test_begins_inv:
  assumes "p \<in> set server_tests"
  shows "test_inv (test_begins server_address p)"
proof -
  have "serves False (test_begins server_address p)"
    by (simp add: serves_def test_begins_def new_test_server_def new_grpc_server_def build_and_start_def calls_now_def)
  moreover have "serving (test_begins server_address p) = None" "pipe (test_begins server_address p) = []"
    "cancel (test_begins server_address p) = NotCancelled" "checks (test_begins server_address p) = []"
    "program (test_begins server_address p) = p" "host_thread (svr (test_begins server_address p)) = Running"
    by (simp_all add: test_begins_def new_test_server_def new_grpc_server_def)
  ultimately show ?thesis using assms
    by (auto simp: test_inv_def server_tests_def echo_checks_def test_server_destructor_def
        run_server_and_check_echo_rpc_call_def run_inprocess_server_and_check_echo_rpc_call_def
        run_test_server_and_check_echo_rpc_call_def run_inprocess_test_server_and_check_echo_rpc_call_def
        run_test_server_and_check_echo_streaming_rpc_call_def)
qed

lemma test_reaches_inv: "test_reaches window s t \<Longrightarrow> test_inv s \<Longrightarrow> test_inv t"
  by (induction rule: test_reaches.induct) (auto dest: test_step_inv)

section \<open>Some thread can always go on\<close>

lemma service_goes_on:
  assumes "test_inv s" and "serving s = Some c" and "0 < window"
  shows "\<exists>t. test_step window s (Inr t)"
proof (cases "service_turn window s")
  case (Some t)
  then show ?thesis by (blast intro: service_step)
next
  case None
  with assms(2) obtain m where blocked: "serving s = Some (ServingStream m AtWrite)" "cancel s \<noteq> CancelKnown"
    "window \<le> length (pipe s)"
    by (cases c) (auto simp: service_turn_def echo_def Let_def split: echo_pc.splits if_splits)
  show ?thesis
  proof (cases "cancel s")
    case NotCancelled
    have at: "at_statement (program s) s" using assms(1) by (simp add: test_inv_def)
    with at_stream [OF at blocked(1)] NotCancelled blocked(1) obtain m place p where
      p: "program s = EchoLoop m place # p" "loop_part place s"
      by auto
    then have "place \<noteq> LoopLeft" using NotCancelled by auto
    from blocked(3) assms(3) have "read_answers True s" by (auto simp: read_answers_def)
    with p(1) \<open>place \<noteq> LoopLeft\<close> have "\<exists>t. main_turn True s = Some (Inr t)" by auto
    then show ?thesis by (blast intro: main_step)
  qed (use blocked in \<open>auto intro: cancel_arrives\<close>)
qed

lemma main_goes_on:
  assumes inv: "test_inv s" and idle: "serving s = None" and p: "program s \<noteq> []"
  shows "\<exists>t. test_step window s (Inr t)"
proof (cases "\<exists>given r. main_turn given s = Some r")
  case True
  with main_turn_inv [OF inv] show ?thesis by (blast intro: main_step)
next
  case False
  then have stuck: "\<And>given. main_turn given s = None" by (meson not_None_eq)
  from p obtain stmt q where q: "program s = stmt # q" by (cases "program s") auto
  have "stmt = JoinRun \<and> host_thread (svr s) = Running \<and> serves True s"
  proof (cases stmt)
    case (EchoLoop m place)
    with q inv idle have "read_answers False s" "place = LoopLeft \<longrightarrow> cancel s \<noteq> NotCancelled"
      by (auto simp: test_inv_def read_answers_def)
    with q EchoLoop stuck [of False] show ?thesis by (auto split: if_splits)
  next
    case ShutdownWait
    with q inv have "serves True s" by (simp add: test_inv_def)
    from serves_shutdown [OF this] q ShutdownWait stuck [of False] idle show ?thesis by auto
  qed (use q inv idle stuck [of False] in \<open>auto simp: test_inv_def split: if_splits\<close>)
  with idle have "\<exists>t. host_turn s = Some (Inr t)" by (auto simp: host_turn_def serves_run)
  then show ?thesis by (blast intro: host_step)
qed

section \<open>Every thread comes to an end\<close>

fun loop_left :: "loop_pc \<Rightarrow> nat" where
  "loop_left FirstRead = 3 * 1000000 + 3"
| "loop_left (LoopHead i) = 3 * (1000000 - i) + 2"
| "loop_left (LoopRead i) = 3 * (1000000 - i) + 1"
| "loop_left (AfterRead i) = 3 * (1000000 - i)"
| "loop_left LoopLeft = 1"

fun stmt_left :: "nat \<Rightarrow> test_stmt \<Rightarrow> nat" where
  "stmt_left window (CallEcho m) = 3"
| "stmt_left window (CallStream m) = 2 * window + 2"
| "stmt_left window (EchoLoop m place) = 4 * loop_left place"
| "stmt_left window ShutdownNow = 2"
| "stmt_left window stmt = 1"

fun call_left :: "nat \<Rightarrow> serving option \<Rightarrow> nat" where
  "call_left room None = 0"
| "call_left room (Some (ServingEcho m)) = 1"
| "call_left room (Some (ServingStream m AtWrite)) = 2 * room + 1"
| "call_left room (Some (ServingStream m AtCheck)) = 2 * room + 2"

definition serving_left :: "nat \<Rightarrow> server_test \<Rightarrow> nat" where
  "serving_left window s = call_left (window - length (pipe s)) (serving s)"

lemma call_left_room: "r \<le> Suc r' \<Longrightarrow> call_left r c \<le> call_left r' c + 2"
  by (cases "(r', c)" rule: call_left.cases) auto

definition work_left :: "nat \<Rightarrow> server_test \<Rightarrow> nat" where
  "work_left window s =
     sum_list (map (stmt_left window) (program s)) + serving_left window s
     + (if cancel s = CancelSent then 1 else 0) + (if host_thread (svr s) = Running then 1 else 0)"


lemma serving_left_simps [simp]:
  "serving_left window (s\<lparr>svr := v\<rparr>) = serving_left window s"
  "serving_left window (s\<lparr>cancel := c\<rparr>) = serving_left window s"
  "serving_left window (s\<lparr>checks := cs\<rparr>) = serving_left window s"
  "serving_left window (s\<lparr>response := x\<rparr>) = serving_left window s"
  "serving_left window (s\<lparr>reply := st\<rparr>) = serving_left window s"
  "serving_left window (s\<lparr>program := q\<rparr>) = serving_left window s"
  by (simp_all add: serving_left_def)

lemma serving_left_call [simp]:
  "serving_left window (begin_call c s) = call_left (window - length (pipe s)) (Some c)"
  "serving_left window (set_hosted g s) = serving_left window s"
  by (simp_all add: serving_left_def)

lemma call_left_write: "call_left (window - n) (Some (ServingStream m AtWrite)) < 2 * window + 2"
  by simp

lemma service_work:
  "service_turn window s = Some t \<Longrightarrow> work_left window t < work_left window s"
  by (auto simp: service_turn_def work_left_def serving_left_def echo_def Let_def end_call_def change_calls_def
      split: option.splits serving.splits echo_pc.splits if_splits)

lemma host_work: "host_turn s = Some (Inr t) \<Longrightarrow> work_left window t < work_left window s"
  by (auto simp: host_turn_def work_left_def server_run_def split: option.splits if_splits)

lemma cancel_work: "cancel s = CancelSent \<Longrightarrow> work_left window (s\<lparr>cancel := CancelKnown\<rparr>) < work_left window s"
  by (simp add: work_left_def)

text \<open>A read makes room for one more message; a turn of the loop outweighs that.\<close>

lemma loop_work:
  assumes "loop_part place s" and "place \<noteq> LoopLeft" and "loop_reads place \<longrightarrow> read_answers given s"
    and "loop_turn given m place s = (place', s')"
  shows "4 * loop_left place' + serving_left window s' + (if cancel s' = CancelSent then 1 else 0)
       < 4 * loop_left place + serving_left window s + (if cancel s = CancelSent then 1 else 0)"
    and "host_thread (svr s') = host_thread (svr s)"
proof -
  have read: "serving_left window (s\<lparr>response := x, pipe := tl (pipe s)\<rparr>) \<le> serving_left window s + 2" for x
    unfolding serving_left_def using call_left_room [of "window - length (tl (pipe s))"] by simp
  from assms show "4 * loop_left place' + serving_left window s' + (if cancel s' = CancelSent then 1 else 0)
       < 4 * loop_left place + serving_left window s + (if cancel s = CancelSent then 1 else 0)"
    using read [of "hd (pipe s)"] by (cases place; auto split: if_splits)
  from assms(4) show "host_thread (svr s') = host_thread (svr s)"
    by (cases place; auto split: if_splits)
qed

lemma map_sum_Inr: "map_sum id f a = Inr t \<longleftrightarrow> (\<exists>x. a = Inr x \<and> t = f x)"
  by (cases a) auto

lemma main_work:
  assumes inv: "test_inv s" and turn: "main_turn given s = Some (Inr t)"
  shows "work_left window t < work_left window s"
proof (cases "program s")
  case Nil
  with turn show ?thesis by simp
next
  case (Cons stmt p)
  show ?thesis
  proof (cases stmt)
    case (EchoLoop m place)
    show ?thesis
    proof (cases "place = LoopLeft")
      case True
      with Cons EchoLoop turn show ?thesis by (auto simp: work_left_def split: if_splits)
    next
      case False
      obtain place' s' where l: "loop_turn given m place s = (place', s')" by (rule prod.exhaust)
      with Cons EchoLoop False turn have r: "loop_reads place \<longrightarrow> read_answers given s"
        "t = s'\<lparr>program := EchoLoop m place' # p\<rparr>"
        by (auto split: if_splits)
      from inv Cons EchoLoop have "loop_part place s" by (simp add: test_inv_def)
      from loop_work(1) [OF this False r(1) l, of window] loop_work(2) [OF this False r(1) l] r(2) Cons EchoLoop show ?thesis
        by (auto simp: work_left_def)
    qed
  next
    case (CallStream m)
    with Cons turn call_left_write [of window "length (pipe s)" m] show ?thesis
      by (auto simp: work_left_def split: if_splits)
  next
    case ShutdownWait
    with Cons turn show ?thesis
      by (auto simp: work_left_def map_sum_Inr)
  next
    case (CallEcho m)
    with Cons inv turn show ?thesis
      by (auto simp: work_left_def test_inv_def serving_left_def split: if_splits)
  next
    case InProcess
    with Cons turn show ?thesis
      by (auto simp: work_left_def map_sum_Inr)
  next
    case ShutdownBy
    with Cons turn show ?thesis
      by (auto simp: work_left_def map_sum_Inr)
  next
    case ShutdownNow
    with Cons turn show ?thesis
      by (auto simp: work_left_def map_sum_Inr)
  qed (use Cons turn in \<open>auto simp: work_left_def split: if_splits\<close>)
qed

lemma test_step_work: "test_step window s (Inr t) \<Longrightarrow> test_inv s \<Longrightarrow> work_left window t < work_left window s"
  by (erule test_step.cases) (auto intro: main_work host_work service_work cancel_work)

section \<open>Properties\<close>

text \<open>
  Claim C11. The tests of the server pass, whatever the order in which their threads run and for any number of
  messages that gRPC lets be on their way: no operation fails, no check fails, some thread can go on
  until the test is over, every step uses up a finite amount of work, and at the end checks have been
  made, no call is left and the thread of the server has been joined. For the streaming test this
  says that the endless stream ends.
\<close>

theorem server_tests_pass:
  assumes "p \<in> set server_tests" and "0 < window" and "test_reaches window (test_begins server_address p) s"
  shows "(\<forall>r. test_step window s r \<longrightarrow> (\<exists>t. r = Inr t \<and> work_left window t < work_left window s))
     \<and> (program s \<noteq> [] \<longrightarrow> (\<exists>t. test_step window s (Inr t)))
     \<and> False \<notin> set (checks s)
     \<and> (program s = [] \<longrightarrow> checks s \<noteq> [] \<and> host_thread (svr s) = Joined \<and> serving s = None)"
proof -
  have inv: "test_inv s" by (rule test_reaches_inv [OF assms(3) test_begins_inv [OF assms(1)]])
  have "\<exists>t. r = Inr t \<and> work_left window t < work_left window s" if "test_step window s r" for r
    using test_step_inv [OF that inv] test_step_work [OF _ inv, of window] that by blast
  moreover have "\<exists>t. test_step window s (Inr t)" if "program s \<noteq> []"
    using that service_goes_on [OF inv _ assms(2)] main_goes_on [OF inv] by (cases "serving s") auto
  moreover have "checks s \<noteq> [] \<and> host_thread (svr s) = Joined \<and> serving s = None" if "program s = []"
    using that inv by (simp add: test_inv_def)
  ultimately show ?thesis using inv by (simp add: test_inv_def)
qed

section \<open>One test from beginning to end\<close>

datatype mover = Main bool | Host | Service | Network

definition move :: "nat \<Rightarrow> mover \<Rightarrow> server_test \<Rightarrow> server_test option" where
  "move window m s =
     (case m of
        Main given \<Rightarrow> (case main_turn given s of Some (Inr t) \<Rightarrow> Some t | _ \<Rightarrow> None)
      | Host \<Rightarrow> (case host_turn s of Some (Inr t) \<Rightarrow> Some t | _ \<Rightarrow> None)
      | Service \<Rightarrow> service_turn window s
      | Network \<Rightarrow> (if cancel s = CancelSent then Some (s\<lparr>cancel := CancelKnown\<rparr>) else None))"

fun moves :: "nat \<Rightarrow> mover list \<Rightarrow> server_test \<Rightarrow> server_test option" where
  "moves window [] s = Some s"
| "moves window (m # ms) s = (case move window m s of None \<Rightarrow> None | Some t \<Rightarrow> moves window ms t)"

lemma move_step: "move window m s = Some t \<Longrightarrow> test_step window s (Inr t)"
  by (cases m)
    (auto simp: move_def intro: main_step host_step service_step cancel_arrives split: option.splits sum.splits if_splits)

lemma moves_reach: "moves window ms s = Some t \<Longrightarrow> test_reaches window r s \<Longrightarrow> test_reaches window r t"
proof (induction ms arbitrary: s)
  case (Cons m ms)
  from Cons.prems(1) obtain u where u: "move window m s = Some u" "moves window ms u = Some t"
    by (auto split: option.splits)
  from Cons.IH [OF u(2) reaches_step [OF Cons.prems(2) move_step [OF u(1)]]] show ?case .
qed simp

text \<open>The server is shut down before its thread has come to run it.\<close>

definition echo_moves :: "mover list" where
  "echo_moves = [Main True, Main True, Service, Main True, Main True, Main True, Main True, Main True, Host, Main True]"

lemma echo_test_ends:
  "\<exists>s. moves 1 echo_moves (test_begins '''' run_inprocess_test_server_and_check_echo_rpc_call) = Some s \<and> program s = []"
  by (simp add: echo_moves_def move_def test_begins_def new_test_server_def new_grpc_server_def build_and_start_def
      run_inprocess_test_server_and_check_echo_rpc_call_def echo_checks_def test_server_destructor_def
      inprocess_channel_def in_process_channel_def accepting_def begin_call_def end_call_def change_calls_def
      service_turn_def echo_def begin_shutdown_def server_shutdown_def set_hosted_def host_turn_def server_run_def)

theorem server_tests_pass_witness:
  "\<exists>s. test_reaches 1 (test_begins '''' run_inprocess_test_server_and_check_echo_rpc_call) s \<and> program s = []
     \<and> False \<notin> set (checks s) \<and> checks s \<noteq> [] \<and> host_thread (svr s) = Joined"
proof -
  obtain s where s: "moves 1 echo_moves (test_begins '''' run_inprocess_test_server_and_check_echo_rpc_call) = Some s"
    "program s = []"
    using echo_test_ends by blast
  note run = moves_reach [OF s(1) reaches_refl]
  have "run_inprocess_test_server_and_check_echo_rpc_call \<in> set server_tests" by (simp add: server_tests_def)
  from server_tests_pass [OF this zero_less_one run] s(2)
  have "False \<notin> set (checks s) \<and> checks s \<noteq> [] \<and> host_thread (svr s) = Joined" by simp
  with run s(2) show ?thesis by blast
qed

end
