(* ===== verification/Grpcw_Queue_Tests.thy ===== *)
theory Grpcw_Queue_Tests
  imports Blocking_Queue
begin

text \<open>
  The test cases of \<open>grpcw::util::BlockingQueue\<close> (src/testing/util/blocking_queue_tests.cpp). The last
  one has two threads that hand numbers to each other over two queues and append to a vector that no
  lock protects; \<open>pair_step\<close> runs them step by step, a thread that finds its queue empty having no step.
\<close>

section \<open>One thread\<close>

text \<open>The CHECKs of each test, in order.\<close>

definition empty_is_empty :: "bool list" where
  "empty_is_empty =
     (let bq0 = new_blocking_queue; bq1 = emplace_back id CHR ''$'' bq0;
          bq6 = fold (emplace_back id) [CHR ''M'', CHR ''O'', CHR ''N'', CHR ''E'', CHR ''Y''] bq1; bq7 = bq_clear bq6
      in [bq_size bq0 = 0, bq_empty bq0, bq_size bq1 = 1, \<not> bq_empty bq1, bq_size bq6 = 6, \<not> bq_empty bq6,
          bq_size bq7 = 0, bq_empty bq7])"

definition pop_all_but_most_recent_test :: "string \<Rightarrow> queue_error + bool list" where
  "pop_all_but_most_recent_test alphabet =
     (let strings = fold (\<lambda>c. emplace_back (replicate 1) c) alphabet new_blocking_queue
      in case pop_all_but_most_recent strings of
           Inl e \<Rightarrow> Inl e
         | Inr (s, strings') \<Rightarrow> Inr [s = [last alphabet], bq_size strings' = 1])"

section \<open>Two threads\<close>

datatype even_pc = EvenPushes | EvenPops | EvenAppends nat | EvenJoins | EvenDone

datatype odd_pc = OddPops | OddAppends nat | OddPushes | OddReturned

text \<open>\<open>even_i\<close> and \<open>odd_i\<close> are the loop variables of the two threads.\<close>

record pair =
  even_bq :: "nat blocking_queue"
  odds_bq :: "nat blocking_queue"
  shared_numbers :: "nat list"
  even_at :: even_pc
  even_i :: nat
  odd_at :: odd_pc
  odd_i :: nat

definition pair_start :: pair where
  "pair_start = \<lparr>even_bq = new_blocking_queue, odds_bq = new_blocking_queue, shared_numbers = [],
     even_at = EvenPushes, even_i = 0, odd_at = OddPops, odd_i = 1\<rparr>"

inductive pair_step :: "pair \<Rightarrow> pair \<Rightarrow> bool" where
  even_pushes: "even_at s = EvenPushes \<Longrightarrow>
    pair_step s (s\<lparr>even_bq := push_back (even_i s) (even_bq s), even_at := EvenPops\<rparr>)"
| even_pops: "even_at s = EvenPops \<Longrightarrow> pop_front (odds_bq s) = Some (to_add, q) \<Longrightarrow>
    pair_step s (s\<lparr>odds_bq := q, even_at := EvenAppends to_add\<rparr>)"
| even_appends: "even_at s = EvenAppends to_add \<Longrightarrow>
    pair_step s (s\<lparr>shared_numbers := shared_numbers s @ [to_add], even_i := even_i s + 2,
      even_at := (if even_i s + 2 < 10 then EvenPushes else EvenJoins)\<rparr>)"
| even_joins: "even_at s = EvenJoins \<Longrightarrow> odd_at s = OddReturned \<Longrightarrow> pair_step s (s\<lparr>even_at := EvenDone\<rparr>)"
| odd_pops: "odd_at s = OddPops \<Longrightarrow> pop_front (even_bq s) = Some (to_add, q) \<Longrightarrow>
    pair_step s (s\<lparr>even_bq := q, odd_at := OddAppends to_add\<rparr>)"
| odd_appends: "odd_at s = OddAppends to_add \<Longrightarrow>
    pair_step s (s\<lparr>shared_numbers := shared_numbers s @ [to_add], odd_at := OddPushes\<rparr>)"
| odd_pushes: "odd_at s = OddPushes \<Longrightarrow>
    pair_step s (s\<lparr>odds_bq := push_back (odd_i s) (odds_bq s), odd_i := odd_i s + 2,
      odd_at := (if odd_i s + 2 < 10 then OddPops else OddReturned)\<rparr>)"

inductive pair_reachable :: "pair \<Rightarrow> bool" where
  pair_init: "pair_reachable pair_start"
| pair_next: "pair_reachable s \<Longrightarrow> pair_step s t \<Longrightarrow> pair_reachable t"

text \<open>
  The program has one path. \<open>pair_at n k\<close> is its state when \<open>n\<close> numbers have been handed over in full
  rounds and the current round is at stage \<open>k\<close>.
\<close>

definition odd_waits :: "nat \<Rightarrow> odd_pc" where
  "odd_waits i = (if i < 10 then OddPops else OddReturned)"

definition pair_at :: "nat \<Rightarrow> nat \<Rightarrow> pair" where
  "pair_at n k =
     (let q = (\<lambda>xs. \<lparr>queue = xs\<rparr>)
      in if 10 \<le> n then \<lparr>even_bq = q [], odds_bq = q [], shared_numbers = [0..<n], even_at = (if k = 0 then EvenJoins else EvenDone),
           even_i = n, odd_at = OddReturned, odd_i = n + 1\<rparr>
         else \<lparr>even_bq = q (if k = 1 then [n] else []), odds_bq = q (if k = 4 then [n + 1] else []),
           shared_numbers = [0..<n] @ (if 3 \<le> k then [n] else []),
           even_at = (if k = 0 then EvenPushes else if k \<le> 4 then EvenPops else EvenAppends (n + 1)),
           even_i = n,
           odd_at = (if k = 2 then OddAppends n else if k = 3 then OddPushes else if k \<le> 1 then OddPops else odd_waits (n + 1 + 2)),
           odd_i = (if k \<le> 3 then n + 1 else n + 1 + 2)\<rparr>)"

lemma pair_step_round:
  assumes "n < 10"
  shows "pair_step (pair_at n 0) t \<longleftrightarrow> t = pair_at n 1"
    and "pair_step (pair_at n 1) t \<longleftrightarrow> t = pair_at n 2"
    and "pair_step (pair_at n 2) t \<longleftrightarrow> t = pair_at n 3"
    and "pair_step (pair_at n 3) t \<longleftrightarrow> t = pair_at n 4"
    and "pair_step (pair_at n 4) t \<longleftrightarrow> t = pair_at n 5"
  using assms by (simp_all add: pair_step.simps pair_at_def push_back_def pop_front_def odd_waits_def)

lemma pair_step_next:
  assumes "n < 10" and "even n"
  shows "pair_step (pair_at n 5) t \<longleftrightarrow> t = pair_at (n + 2) 0"
proof -
  have "n + 2 < 10 \<longleftrightarrow> n + 3 < 10" using assms(2) by presburger
  moreover have "n + 2 = 10" if "\<not> n + 2 < 10" using assms that by presburger
  ultimately show ?thesis
    using assms by (auto simp: pair_step.simps pair_at_def push_back_def pop_front_def odd_waits_def)
qed

lemma pair_step_end:
  "pair_step (pair_at 10 0) t \<longleftrightarrow> t = pair_at 10 1" "\<not> pair_step (pair_at 10 1) t"
  by (simp_all add: pair_step.simps pair_at_def pop_front_def)

text \<open>How many steps are left.\<close>

definition pair_left :: "nat \<Rightarrow> nat \<Rightarrow> nat" where
  "pair_left n k = (if 10 \<le> n then 1 - k else 3 * (10 - n) + 1 - k)"

definition on_path :: "pair \<Rightarrow> nat \<Rightarrow> bool" where
  "on_path s left \<longleftrightarrow> (\<exists>n k. s = pair_at n k \<and> even n \<and> (if n < 10 then k \<le> 5 else n = 10 \<and> k \<le> 1) \<and> left = pair_left n k)"

lemma on_pathI: "even n \<Longrightarrow> (if n < 10 then k \<le> 5 else n = 10 \<and> k \<le> 1) \<Longrightarrow> left = pair_left n k \<Longrightarrow> on_path (pair_at n k) left"
  unfolding on_path_def by blast

lemma pair_start_at: "pair_start = pair_at 0 0"
  by (simp add: pair_start_def pair_at_def new_blocking_queue_def)

lemma on_path_step:
  assumes "on_path s left"
  shows "if left = 0 then s = pair_at 10 1 \<and> (\<nexists>t. pair_step s t)
         else \<exists>t. (\<forall>u. pair_step s u \<longleftrightarrow> u = t) \<and> on_path t (left - 1)"
proof -
  from assms obtain n k where s: "s = pair_at n k" "even n" "if n < 10 then k \<le> 5 else n = 10 \<and> k \<le> 1" "left = pair_left n k"
    unfolding on_path_def by blast
  show ?thesis
  proof (cases "n < 10")
    case True
    have left: "left = 3 * (10 - n) + 1 - k" "10 - n \<ge> 2" using s True by (auto simp: pair_left_def elim!: evenE)
    have k: "k \<in> {0, 1, 2, 3, 4} \<or> k = 5" using s(3) True by auto
    show ?thesis
    proof (cases "k = 5")
      case True
      have n: "n + 2 < 10 \<or> n + 2 = 10" using s(2) \<open>n < 10\<close> by presburger
      then have "on_path (pair_at (n + 2) 0) (left - 1)"
        using s(2) left True by (intro on_pathI) (auto simp: pair_left_def)
      with pair_step_next [OF \<open>n < 10\<close> s(2)] s(1) left True show ?thesis by auto
    next
      case False
      have "pair_step s u \<longleftrightarrow> u = pair_at n (Suc k)" for u
        using k False pair_step_round [OF \<open>n < 10\<close>, of u] s(1) by (auto simp: eval_nat_numeral)
      moreover have "on_path (pair_at n (Suc k)) (left - 1)"
        using k False s(2) left \<open>n < 10\<close> by (intro on_pathI) (auto simp: pair_left_def)
      moreover have "left \<noteq> 0" using left k by auto
      ultimately show ?thesis by auto
    qed
  next
    case False
    then have "n = 10" "k = 0 \<or> k = 1" using s(3) by auto
    moreover have "on_path (pair_at 10 1) 0" by (rule on_pathI) (simp_all add: pair_left_def)
    ultimately show ?thesis using s pair_step_end by (auto simp: pair_left_def)
  qed
qed

lemma pair_reachable_path: "pair_reachable s \<Longrightarrow> \<exists>left. on_path s left"
proof (induction rule: pair_reachable.induct)
  case pair_init
  have "on_path pair_start (pair_left 0 0)" unfolding pair_start_at by (rule on_pathI) simp_all
  then show ?case ..
next
  case (pair_next s t)
  then obtain left where "on_path s left" by blast
  from on_path_step [OF this] pair_next.hyps(2) show ?case by (auto split: if_splits)
qed

lemma on_path_checks:
  assumes "on_path s left"
  shows "(even_at s = EvenDone \<longrightarrow> bq_empty (even_bq s) \<and> bq_empty (odds_bq s) \<and> shared_numbers s = [0..<10])
    \<and> \<not> (\<exists>a b. even_at s = EvenAppends a \<and> odd_at s = OddAppends b)"
  using assms by (auto simp: on_path_def pair_at_def bq_empty_def Let_def odd_waits_def split: if_splits)

section \<open>Properties\<close>

text \<open>
  The test of two threads and two queues passes under every schedule: until the main thread is done
  exactly one step is possible and the steps left are counted down, so it ends; the two threads never append
  to the unguarded vector at the same time; and at the end both queues are empty and the vector has the
  numbers in order.
\<close>

theorem queue_hand_over_test_passes:
  assumes "pair_reachable s"
  shows "\<exists>left. on_path s left
     \<and> (if even_at s = EvenDone then bq_empty (even_bq s) \<and> bq_empty (odds_bq s) \<and> shared_numbers s = [0, 1, 2, 3, 4, 5, 6, 7, 8, 9]
        else \<exists>!t. pair_step s t)
     \<and> (\<forall>t. pair_step s t \<longrightarrow> on_path t (left - 1) \<and> 0 < left)
     \<and> \<not> (\<exists>a b. even_at s = EvenAppends a \<and> odd_at s = OddAppends b)"
proof -
  obtain left where left: "on_path s left" using pair_reachable_path [OF assms] ..
  have last: "even_at (pair_at 10 1) = EvenDone" by (simp add: pair_at_def)
  have "[0..<10] = [0, 1, 2, 3, 4, 5, 6, 7, 8, 9 :: nat]" by (simp add: upt_rec)
  with on_path_checks [OF left] on_path_step [OF left] left last show ?thesis
    by (intro exI [of _ left]) (auto split: if_splits)
qed

text \<open>The tests of one thread.\<close>

lemma empty_is_empty_passes: "list_all id empty_is_empty"
  by (simp add: empty_is_empty_def Let_def emplace_back_def bq_size_def bq_empty_def bq_clear_def new_blocking_queue_def)

lemma emplace_all: "queue (fold (\<lambda>c. emplace_back f c) cs q) = queue q @ map f cs"
  by (induction cs arbitrary: q) (simp_all add: emplace_back_def)

lemma pop_while_last: "xs \<noteq> [] \<Longrightarrow> pop_while_more_than_one xs = [last xs]"
  by (induction xs rule: pop_while_more_than_one.induct) auto

lemma pop_all_but_most_recent_passes:
  "alphabet \<noteq> [] \<Longrightarrow> pop_all_but_most_recent_test alphabet = Inr [True, True]"
  by (simp add: pop_all_but_most_recent_test_def pop_all_but_most_recent_def emplace_all pop_while_last
      new_blocking_queue_def bq_size_def last_map)

theorem queue_hand_over_test_passes_witness:
  "\<exists>!t. pair_step pair_start t"
  using queue_hand_over_test_passes [OF pair_init] by (auto simp: pair_start_def)

end
