(* ===== verification/Grpcw_Atomic_Tests.thy ===== *)
theory Grpcw_Atomic_Tests
  imports Ltb_Atomic_Tests
begin

text \<open>
  The first test of \<open>grpcw::util::AtomicData\<close> (src/testing/util/atomic_data_tests.cpp): threads that all
  wait at a condition variable of the test itself, are released together, and then each append to the
  shared data a number of times. The wait has no predicate. The other two tests of that file run the
  programs of Ltb_Atomic_Tests on the operations of this class.
\<close>

section \<open>The program\<close>

record numbers_data =
  number :: nat
  all_numbers :: "nat list"
  odd_ones :: "nat list"
  even_ones :: "nat list"
  is_odd :: bool

definition append_number :: "numbers_data \<Rightarrow> unit \<times> numbers_data" where
  "append_number d =
     (let d1 = d\<lparr>all_numbers := all_numbers d @ [number d]\<rparr>;
          d2 = (if is_odd d1 then d1\<lparr>odd_ones := odd_ones d1 @ [number d1]\<rparr> else d1\<lparr>even_ones := even_ones d1 @ [number d1]\<rparr>)
      in ((), d2\<lparr>number := number d2 + 1, is_odd := \<not> is_odd d2\<rparr>))"

text \<open>\<open>Looping i\<close>: \<open>i\<close> turns of the loop are done.\<close>

datatype writer_pc = Starting | AtGate | Looping nat | Finished

datatype starter_pc = Sleeping | JoiningAll | AllJoined

record gate =
  numbers :: "numbers_data atomic_data"
  writers :: "writer_pc list"
  starter :: starter_pc

definition gate_start :: "nat \<Rightarrow> gate" where
  "gate_start n =
     \<lparr>numbers = make_atomic_data \<lparr>number = 0, all_numbers = [], odd_ones = [], even_ones = [], is_odd = False\<rparr>,
      writers = replicate n Starting, starter = Sleeping\<rparr>"

fun released :: "writer_pc \<Rightarrow> writer_pc" where
  "released AtGate = Looping 0"
| "released w = w"

inductive gate_step :: "nat \<Rightarrow> gate \<Rightarrow> gate \<Rightarrow> bool" for loops where
  reaches_gate: "i < length (writers s) \<Longrightarrow> writers s ! i = Starting \<Longrightarrow>
    gate_step loops s (s\<lparr>writers := (writers s)[i := AtGate]\<rparr>)"
| appends: "i < length (writers s) \<Longrightarrow> writers s ! i = Looping k \<Longrightarrow> k < loops \<Longrightarrow>
    gate_step loops s (s\<lparr>numbers := snd (use_safely append_number (numbers s)), writers := (writers s)[i := Looping (Suc k)]\<rparr>)"
| finishes: "i < length (writers s) \<Longrightarrow> writers s ! i = Looping loops \<Longrightarrow>
    gate_step loops s (s\<lparr>writers := (writers s)[i := Finished]\<rparr>)"
| releases_all: "starter s = Sleeping \<Longrightarrow> gate_step loops s (s\<lparr>writers := map released (writers s), starter := JoiningAll\<rparr>)"
| joins_all: "starter s = JoiningAll \<Longrightarrow> \<forall>w \<in> set (writers s). w = Finished \<Longrightarrow>
    gate_step loops s (s\<lparr>starter := AllJoined\<rparr>)"

inductive gate_reachable :: "nat \<Rightarrow> nat \<Rightarrow> gate \<Rightarrow> bool" for n loops where
  gate_init: "gate_reachable n loops (gate_start n)"
| gate_next: "gate_reachable n loops s \<Longrightarrow> gate_step loops s t \<Longrightarrow> gate_reachable n loops t"
| gate_spurious: "gate_reachable n loops s \<Longrightarrow> i < length (writers s) \<Longrightarrow> writers s ! i = AtGate \<Longrightarrow>
    gate_reachable n loops (s\<lparr>writers := (writers s)[i := Looping 0]\<rparr>)"

text \<open>The checks at the end.\<close>

definition numbers_checks :: "nat \<Rightarrow> numbers_data \<Rightarrow> bool list" where
  "numbers_checks top_number d =
     [number d = top_number, all_numbers d = [0..<top_number], odd_ones d = map (\<lambda>i. [0..<top_number] ! (i * 2 + 1)) [0..<top_number div 2],
      even_ones d = map (\<lambda>i. [0..<top_number] ! (i * 2)) [0..<top_number div 2]]"

section \<open>Invariant\<close>

fun turns_done :: "nat \<Rightarrow> writer_pc \<Rightarrow> nat" where
  "turns_done loops (Looping k) = k"
| "turns_done loops Finished = loops"
| "turns_done loops w = 0"

definition numbers_up_to :: "nat \<Rightarrow> numbers_data" where
  "numbers_up_to n = \<lparr>number = n, all_numbers = [0..<n], odd_ones = filter odd [0..<n], even_ones = filter even [0..<n],
     is_odd = odd n\<rparr>"

lemma append_number_next: "append_number (numbers_up_to n) = ((), numbers_up_to (Suc n))"
  by (simp add: append_number_def numbers_up_to_def)

definition gate_inv :: "nat \<Rightarrow> nat \<Rightarrow> gate \<Rightarrow> bool" where
  "gate_inv n loops s \<longleftrightarrow> length (writers s) = n
     \<and> data (numbers s) = numbers_up_to (sum_list (map (turns_done loops) (writers s)))
     \<and> (\<forall>w \<in> set (writers s). \<forall>k. w = Looping k \<longrightarrow> k \<le> loops)
     \<and> (starter s = AllJoined \<longrightarrow> set (writers s) \<subseteq> {Finished})"

lemma sum_list_step:
  fixes f :: "'a \<Rightarrow> nat"
  shows "i < length ws \<Longrightarrow> f w = f (ws ! i) + d \<Longrightarrow> sum_list (map f (ws[i := w])) = sum_list (map f ws) + d"
proof (induction ws arbitrary: i)
  case (Cons v ws)
  then show ?case by (cases i) auto
qed simp

lemma released_turns [simp]: "turns_done loops (released w) = turns_done loops w" "released w = Finished \<longleftrightarrow> w = Finished"
  by (cases w; simp)+

lemma released_looping: "released w = Looping k \<longleftrightarrow> w = Looping k \<or> w = AtGate \<and> k = 0"
  by (cases w) auto

lemma gate_inv_step: "gate_step loops s t \<Longrightarrow> gate_inv n loops s \<Longrightarrow> gate_inv n loops t"
proof (induction rule: gate_step.induct)
  case (reaches_gate i s)
  then show ?case using sum_list_step [of i "writers s" "turns_done loops" AtGate 0] nth_mem [of i "writers s"]
    by (auto simp: gate_inv_def dest!: set_update_cases)
next
  case (appends i s k)
  then show ?case using sum_list_step [of i "writers s" "turns_done loops" "Looping (Suc k)" 1] nth_mem [of i "writers s"]
    by (auto simp: gate_inv_def use_safely_def append_number_next dest!: set_update_cases)
next
  case (finishes i s)
  then show ?case using sum_list_step [of i "writers s" "turns_done loops" Finished 0] nth_mem [of i "writers s"]
    by (auto simp: gate_inv_def dest!: set_update_cases)
next
  case (releases_all s)
  then show ?case by (auto simp: gate_inv_def comp_def released_looping)
next
  case (joins_all s)
  then show ?case by (auto simp: gate_inv_def)
qed

lemma gate_reachable_inv: "gate_reachable n loops s \<Longrightarrow> gate_inv n loops s"
proof (induction rule: gate_reachable.induct)
  case gate_init
  show ?case by (auto simp: gate_inv_def gate_start_def make_atomic_data_def numbers_up_to_def sum_list_replicate)
next
  case (gate_next s t)
  then show ?case by (blast intro: gate_inv_step)
next
  case (gate_spurious s i)
  then show ?case using sum_list_step [of i "writers s" "turns_done loops" "Looping 0" 0] nth_mem [of i "writers s"]
    by (auto simp: gate_inv_def dest!: set_update_cases)
qed

text \<open>A thread that can go on, or none: then every thread is at the gate or finished.\<close>

lemma gate_stuck:
  assumes "gate_inv n loops s" and "starter s = JoiningAll"
  shows "(\<nexists>t. gate_step loops s t) \<longleftrightarrow> set (writers s) \<subseteq> {AtGate, Finished} \<and> AtGate \<in> set (writers s)"
proof
  assume stuck: "\<nexists>t. gate_step loops s t"
  have "w \<in> {AtGate, Finished}" if "w \<in> set (writers s)" for w
  proof (cases w)
    case Starting
    with that stuck reaches_gate show ?thesis by (metis in_set_conv_nth)
  next
    case (Looping k)
    with that assms(1) have "k < loops \<or> k = loops" by (fastforce simp: gate_inv_def)
    with Looping that stuck appends finishes show ?thesis by (metis in_set_conv_nth)
  qed simp_all
  moreover have "AtGate \<in> set (writers s)" using calculation stuck joins_all [OF assms(2)] by blast
  ultimately show "set (writers s) \<subseteq> {AtGate, Finished} \<and> AtGate \<in> set (writers s)" by blast
next
  assume "set (writers s) \<subseteq> {AtGate, Finished} \<and> AtGate \<in> set (writers s)"
  with assms(2) show "\<nexists>t. gate_step loops s t"
    by (auto simp: gate_step.simps subset_iff dest!: nth_mem)
qed

text \<open>Every thread comes to the gate only after it was opened.\<close>

lemma all_late: "i \<le> n \<Longrightarrow> gate_reachable n loops ((gate_start n)\<lparr>writers := replicate i AtGate @ replicate (n - i) Starting, starter := JoiningAll\<rparr>)"
proof (induction i)
  case 0
  have "gate_step loops (gate_start n) ((gate_start n)\<lparr>writers := map released (writers (gate_start n)), starter := JoiningAll\<rparr>)"
    by (rule releases_all) (simp add: gate_start_def)
  with gate_next [OF gate_init this] show ?case by (simp add: gate_start_def)
next
  case (Suc i)
  let ?s = "(gate_start n)\<lparr>writers := replicate i AtGate @ replicate (n - i) Starting, starter := JoiningAll\<rparr>"
  have "replicate (n - i) Starting = Starting # replicate (n - Suc i) Starting"
    using Suc.prems by (simp flip: replicate_Suc add: Suc_diff_Suc)
  then have "(writers ?s)[i := AtGate] = replicate (Suc i) AtGate @ replicate (n - Suc i) Starting"
    by (simp add: list_update_append replicate_app_Cons_same)
  moreover have "gate_step loops ?s (?s\<lparr>writers := (writers ?s)[i := AtGate]\<rparr>)"
    by (rule reaches_gate) (use Suc.prems in \<open>simp_all add: nth_append\<close>)
  ultimately show ?case using Suc by (auto simp: gate_start_def dest: gate_next)
qed

lemma filter_parity: "filter odd [0..<2 * m] = map (\<lambda>i. i * 2 + 1) [0..<m]" "filter even [0..<2 * m] = map (\<lambda>i. i * 2) [0..<m]"
  by (induction m) simp_all

lemma numbers_up_to_checks: "list_all id (numbers_checks (2 * m) (numbers_up_to (2 * m)))"
proof -
  have "map (\<lambda>i. [0..<2 * m] ! (i * 2 + 1)) [0..<m] = map (\<lambda>i. i * 2 + 1) [0..<m]"
    "map (\<lambda>i. [0..<2 * m] ! (i * 2)) [0..<m] = map (\<lambda>i. i * 2) [0..<m]"
    by (rule map_cong, simp_all)+
  then show ?thesis by (simp add: numbers_checks_def numbers_up_to_def filter_parity)
qed

section \<open>Properties\<close>

text \<open>
  When the test ends, its checks hold, whatever the schedule: the numbers were appended in order, odd and
  even ones apart, although the threads take turns in any way. But it need not end: it is stuck as soon as
  every thread has finished or waits at the gate after it was opened, and with one thread or more this can
  happen, since the wait has no predicate.
\<close>

theorem interleaved_numbers_test:
  assumes "gate_reachable n loops s" and "even (n * loops)"
  shows "(starter s = AllJoined \<longrightarrow> list_all id (numbers_checks (n * loops) (use_safely_const id (numbers s))))
     \<and> (starter s = JoiningAll \<longrightarrow>
          ((\<nexists>t. gate_step loops s t) \<longleftrightarrow> set (writers s) \<subseteq> {AtGate, Finished} \<and> AtGate \<in> set (writers s)))
     \<and> (0 < n \<longrightarrow> (\<exists>s. gate_reachable n loops s \<and> starter s = JoiningAll \<and> (\<nexists>t. gate_step loops s t)))"
proof (intro conjI impI)
  have inv: "gate_inv n loops s" by (rule gate_reachable_inv [OF assms(1)])
  {
    assume "starter s = AllJoined"
    with inv have w: "set (writers s) \<subseteq> {Finished}" "length (writers s) = n" by (simp_all add: gate_inv_def)
    then have "writers s = replicate n Finished" by (auto intro!: replicate_eqI)
    with inv have "data (numbers s) = numbers_up_to (n * loops)" by (simp add: gate_inv_def sum_list_replicate)
    moreover obtain m where "n * loops = 2 * m" using assms(2) by (auto elim: evenE)
    ultimately show "list_all id (numbers_checks (n * loops) (use_safely_const id (numbers s)))"
      using numbers_up_to_checks [of m] by (simp add: use_safely_const_def)
  }
  show "(\<nexists>t. gate_step loops s t) \<longleftrightarrow> set (writers s) \<subseteq> {AtGate, Finished} \<and> AtGate \<in> set (writers s)"
    if "starter s = JoiningAll" by (rule gate_stuck [OF inv that])
  assume "0 < n"
  let ?s = "(gate_start n)\<lparr>writers := replicate n AtGate, starter := JoiningAll\<rparr>"
  have r: "gate_reachable n loops ?s" using all_late [of n n loops] by simp
  have "\<nexists>t. gate_step loops ?s t" using gate_stuck [OF gate_reachable_inv [OF r]] \<open>0 < n\<close> by simp
  with r show "\<exists>s. gate_reachable n loops s \<and> starter s = JoiningAll \<and> (\<nexists>t. gate_step loops s t)"
    by (intro exI [of _ ?s]) simp
qed

theorem interleaved_numbers_test_witness:
  "\<exists>s. gate_reachable 15 100 s \<and> starter s = JoiningAll \<and> (\<nexists>t. gate_step 100 s t)"
proof -
  have "even (15 * 100 :: nat)" by simp
  from interleaved_numbers_test [OF gate_init this] show ?thesis by auto
qed

section \<open>The tests shared with ltb-util\<close>

text \<open>
  Their lambdas are those of ltb-util, and the operations they call are, as functions on the guarded
  data, the same, so the states the programs can reach are those of the machines there.
\<close>

lemma same_operations:
  "make_atomic_data d = ltb_make_atomic_data d" "use_safely f a = ltb_use_safely f a"
  "use_safely_const g a = ltb_use_safely_const g a" "map_option snd (wait_to_use_safely p f a) = ltb_wait_to_use_safely p f a"
  by (simp_all add: make_atomic_data_def ltb_make_atomic_data_def use_safely_def ltb_use_safely_def use_safely_const_def
      ltb_use_safely_const_def wait_to_use_safely_def ltb_wait_to_use_safely_def split_def Let_def)

definition atomic_data_notify_all :: "crowd \<Rightarrow> bool" where
  "atomic_data_notify_all s = crowd_reachable 500 s"

definition interleaved_odd_even :: "turns \<Rightarrow> bool" where
  "interleaved_odd_even s = turns_reachable s"

text \<open>
  Neither program gets stuck; at their ends, 500 threads have counted themselves, and the numbers are
  where they belong.
\<close>

theorem grpcw_notify_all_passes:
  assumes "atomic_data_notify_all s"
  shows "if crowd_main_pc s = MainDone then use_safely_const num_threads (crowd_shared s) = 500
     else \<exists>t. crowd_step s t"
  using notify_all_test_passes [of 500 s] assms by (simp add: atomic_data_notify_all_def same_operations)

theorem grpcw_odd_even_passes:
  assumes "interleaved_odd_even s"
  shows "if odd_pc s = TurnEnded \<and> even_pc s = TurnEnded
     then use_safely_const all_data (turns_shared s) = [0, 1, 2, 3, 4, 5, 6, 7, 8, 9]
     else \<exists>t. turns_step s t"
  using interleaved_test_passes [of s] assms
  by (auto simp: interleaved_odd_even_def same_operations ltb_use_safely_const_def split: if_splits)

end
