(* ===== verification/Spec2Isabelle.thy ===== *)
theory Spec2Isabelle
  imports Stream_Rpc_Lifecycle Stream_Rpc_Spec Grpc_Async_Server Grpc_Client_Safety Grpc_Client_Typed
    Grpc_Client_Concurrency Grpc_Client_Kill Grpc_Client_View Grpc_World Ltb_Bits Ltb_Error Ltb_Containers Ltb_Atomic_Tests Ltb_Unit_Tests
    Example_Server Example_Ticker Example_System Example_Clients Example_Client_Stream Example_Main Example_Arch_Server
    Example_Stream_Rpc Grpcw_Client_Tests Grpcw_Server_Tests_Pass Grpcw_Queue_Tests Grpcw_Atomic_Tests
begin

text \<open>
  A verification library for grpc-wrapper, C++ classes around gRPC: servers with asynchronous unary and
  streaming calls, a client that follows the state of its connection and runs streams of updates, the
  thread-safe containers both use, the utility library ltb-util in the same tree, and two example
  programs.

  Parts of the program and the theories that model them, in the order they build on each other:

  \<^item> Grpcw_Prelude: addresses and \<open>operator new\<close>, \<open>std::unordered_map\<close> as an association list (the model
    fixes one order of iteration; properties do not depend on it), the life of a \<open>std::thread\<close>, and C++
    integer division.
  \<^item> Blocking_Queue and Atomic_Data: the thread-safe queue and the guarded data of
    include/grpcw/util and ltb-util/src/ltb/util. Each operation is its locked body; a step relation
    then runs any number of threads with mutex and condition variable.
  \<^item> Tag_Table: the tags under which operations are given to completion queues
    (server/detail/tag.hpp, tag.cpp; the example's tag.cpp and tagger.cpp).
  \<^item> Stream_Rpc_Handler, Stream_Rpc_Safety, Stream_Rpc_Lifecycle: \<open>StreamRpcHandler\<close>
    (server/detail/stream_rpc_handler.hpp) with its callers, gRPC and the synchronisation thread.
    The first theory has the operations, the second the invariant of \<open>Connections\<close>, the third the
    callbacks over the life of a stream and the runs in which they go wrong.
  \<^item> Simulation and Stream_Rpc_Spec: runs of labelled steps and forward simulations; a small specification
    of a group of sessions to which updates are given, and the proof that the handler refines it.
  \<^item> Non_Stream_Rpc_Handler: unary calls (server/detail/non_stream_rpc_handler.hpp).
  \<^item> Grpc_Server: \<open>GrpcServer\<close> and \<open>ScopedGrpcServer\<close>.
  \<^item> Grpc_Async_Server: \<open>GrpcAsyncServer\<close>, which owns handlers of both kinds behind
    \<open>AsyncRpcHandlerInterface\<close> (server/grpc_async_server.hpp).
  \<^item> Grpc_Client_Stream, Grpc_Client, Grpc_Client_Safety: client states, \<open>GrpcClientStream\<close> behind its
    interface, and \<open>GrpcClient\<close> (include/grpcw/client).
  \<^item> Grpc_Client_Typed: the result types of the client's streams and the casts of its callback setters.
  \<^item> Grpc_Client_Concurrency: the locked bodies of \<open>GrpcClient\<close> among threads, and what happens to a
    callback of a stream that calls the client while the streams are stopped. Grpc_Client_Kill: the
    moment between the two halves of \<open>kill_streams_and_channel\<close>. Grpc_Client_View: what a user sees of
    the client, as a machine of two variables that it refines.
  \<^item> Grpc_Session and Grpc_World: the stream handler and a client's stream joined by the wire between
    them; then the handler with any number of clients that stop their streams and start them again.
  \<^item> Ltb_Strings, Ltb_Error, Ltb_Bits, Ltb_Containers: ltb-util and its copy of \<open>AlmostEquals\<close>.
  \<^item> Ltb_Unit_Tests, Ltb_Atomic_Tests: the doctest cases of ltb-util, those of \<open>AtomicData\<close> as threads.
    Grpcw_Client_Tests, Grpcw_Queue_Tests, Grpcw_Atomic_Tests: the test cases of \<open>GrpcClient\<close> and of the
    containers of grpcw (src/testing). Grpcw_Server_Tests and Grpcw_Server_Tests_Pass: those of \<open>GrpcServer\<close>
    and of \<open>TestServer\<close>, with the service they call.
  \<^item> Example_Clock, Example_Server, Example_Async_Server, Example_Clients: the classes of the example
    programs. Example_Client_Stream: the pointer \<open>stream_context_\<close> of the example client over time.
    Example_Stream_Rpc: the handler of streams in the second server, beside that of unary calls, behind the
    interface \<open>NewRpc\<close>. Example_Main: \<open>main\<close> of the example client. Example_Arch_Server: \<open>main\<close> of the second server.
    Example_System: the first client and the first server together. Example_Ticker: the first server as
    it runs, its ticker among its calls and the completions of its stream.

  How the code is represented. A class is a record of its members and a method a function on it, in
  the order of the source. A pointer is a number; the object behind it is an entry of the map that owns
  it, so a use after destruction is a failed lookup. A locked body, the lambda given to \<open>use_safely\<close>, is
  a function on the guarded data. Exceptions, failed assertions, uses of null or dangling pointers and
  calls of \<open>std::terminate\<close> are values on the left of a sum; an operation that has to wait is \<open>None\<close>.
  Calls to gRPC and to the user's callbacks are returned as a list of effects, in order.

  gRPC is not part of the repository. What it answers (the tag and flag of \<open>Next\<close>, the state of a
  channel, the requests and updates of the peer, the addresses of new objects) are arguments of the
  operations. What the properties assume of it is named: \<open>environment_allows\<close> says that a completion
  queue returns only tags it was given, and \<open>operator_new\<close> that addresses of new objects are fresh;
  \<open>stream_discipline\<close> is the order of events a comment of the code relies on and only the properties that
  mention it use it. Grpc_Session and Grpc_World assume that the responses given to a call reach its reader in order, and
  Grpcw_Server_Tests says what it takes of calls and their cancellation. An
  unfinished loop over a queue is a function on the list of answers. Two bounds are chosen: \<open>task_turns\<close> in
  Example_Clients, one turn for each queued task, where the property proves that it is enough; and four
  turns of \<open>init_loop\<close> in Example_Arch_Server, the number of tasks that are ever queued, after which the
  lemma \<open>arch_start\<close> finds the thread in its second loop.

  Interfaces are locales, each interpreted on the models of the code: \<open>fifo_queue\<close> on both queue
  classes, \<open>lock_protected\<close> on the locked bodies of the stream handler and of the client,
  \<open>forward_simulation\<close> on the stream handler and its specification, \<open>tag_store\<close> on both tag tables,
  \<open>async_rpc_handler\<close> on both handlers and on the pointer to either, \<open>new_rpc_interface\<close> on both handlers
  of the second server, and \<open>client_stream_interface\<close> on the
  client's stream.

  What the groups of lemmas show. Concurrency: the queue is first in first out and loses no wake-up;
  guarded data changes as if its functions ran one after another; the test programs of \<open>AtomicData\<close> pass
  under every schedule. Server: one write at a time on each stream, each stream given exactly what was
  written to it, tags found when they return, callbacks in pairs under the stated order of events, every
  handler registered exactly once, lookups that never throw, a teardown that finishes. Client: no
  operation ends the program, streams run only while connected, callbacks report exactly the changes of the
  channel's state, setters keep their types. Both: the updates each client's callback sees are those the server
  wrote for it, a write reaches whom it names, and a client can always connect again. The tests of client and
  server pass. Utilities: comparison of floating-point numbers by bits, flags, error messages, results, the
  doctest cases. Examples: the clock servers answer with the right time, the client prints what it
  should, the second server leaks no handler. Where the code falls short of what it means to do, a concrete
  run or a general statement shows it: in the stream handler when a done notification comes out of order,
  in the client when a callback calls it while it stops the streams, in the example client when the
  connection is lost in the middle of a toggle.

  Not modelled: gRPC itself, data races on members the code does not guard (a callback set while the
  server already runs), memory order, what servers and streams print while they run, code that the
  preprocessor or comments exclude, declarations, the forwarding to protobuf in test_proto_util, and
  the wrapper around \<open>std::visit\<close> in variant_utils.hpp. The lines of the sources that no definition
  covers are such code, licences, includes, comments, class declarations, and the formatting of times in
  new_arch_server.cpp, which repeats that of example_server.cpp.
  \<open>kill_streams_and_channel\<close> is one step of the client's machine; Grpc_Client_Kill lets anything happen
  between its locked half and the other, and Grpc_Client_Concurrency looks inside the locked half.
\<close>

end
